(* ===== verification/Prelude.thy ===== *)
theory Prelude
  imports Main "HOL-Library.Word" "HOL-Library.Multiset"
begin

unbundle bit_operations_syntax

text \<open>
  What every component shares: names for the machine integers of the source, results as sums,
  the checked and saturating arithmetic of the Rust standard library, big-endian byte strings
  with their round trips, slices of byte strings, and the removal of a vector element by
  swapping it with the last one.

  An unsigned integer of the source is a word of its width and \<open>usize\<close> is a 64-bit word where it
  takes part in arithmetic that can reach its bound. A length of a vector is a \<open>nat\<close>. A fixed array
  \<open>[u8; N]\<close> is a list of bytes; where its length matters a well-formedness predicate states it.
  \<open>Result<T, E>\<close> is the sum \<open>'e + 'a\<close>, written with \<open>Err\<close> and \<open>Ok\<close>. A method that takes
  \<open>&mut self\<close> returns the new state in front of its result.
\<close>

named_theorems wire_simps \<open>layout of encoded records: lengths and slices of byte strings\<close>
named_theorems arith_defs \<open>the checked and saturating operations, unfolded to \<open>unat\<close>\<close>

section \<open>Types\<close>

type_synonym u8 = "8 word"
type_synonym u16 = "16 word"
type_synonym u32 = "32 word"
type_synonym u64 = "64 word"
type_synonym u128 = "128 word"
type_synonym usize = "64 word"
type_synonym i16 = "16 word"
type_synonym i32 = "32 word"
type_synonym bytes = "u8 list"

abbreviation Ok :: "'a \<Rightarrow> 'e + 'a" where "Ok \<equiv> Inr"
abbreviation Err :: "'e \<Rightarrow> 'e + 'a" where "Err \<equiv> Inl"

definition is_ok :: "'e + 'a \<Rightarrow> bool" where
  "is_ok r = (case r of Err _ \<Rightarrow> False | Ok _ \<Rightarrow> True)"

lemma is_ok_simps [simp]: "is_ok (Ok x)" "\<not> is_ok (Err e)"
  by (simp_all add: is_ok_def)

lemma is_ok_iff: "is_ok r \<longleftrightarrow> (\<exists>x. r = Ok x)"
  by (cases r) auto

section \<open>Arithmetic of the standard library\<close>

definition checked_add :: "'a::len word \<Rightarrow> 'a word \<Rightarrow> 'a word option" where
  "checked_add a b = (if unat a + unat b < 2 ^ LENGTH('a) then Some (a + b) else None)"

definition saturating_add :: "'a::len word \<Rightarrow> 'a word \<Rightarrow> 'a word" where
  "saturating_add a b = (if unat a + unat b < 2 ^ LENGTH('a) then a + b else - 1)"

definition saturating_sub :: "'a::len word \<Rightarrow> 'a word \<Rightarrow> 'a word" where
  "saturating_sub a b = (if b \<le> a then a - b else 0)"

lemma checked_add_Some_iff:
  "checked_add a b = Some c \<longleftrightarrow> unat c = unat a + unat b" for a :: "'a::len word"
proof
  assume "checked_add a b = Some c"
  then show "unat c = unat a + unat b"
    by (auto simp: checked_add_def unat_word_ariths split: if_splits)
next
  assume c: "unat c = unat a + unat b"
  then have "unat a + unat b < 2 ^ LENGTH('a)"
    by (metis unsigned_less)
  moreover from this c have "c = a + b"
    by (simp add: word_unat_eq_iff unat_word_ariths)
  ultimately show "checked_add a b = Some c"
    by (simp add: checked_add_def)
qed

lemma checked_add_None_iff:
  "checked_add a b = None \<longleftrightarrow> 2 ^ LENGTH('a) \<le> unat a + unat b" for a :: "'a::len word"
  by (auto simp: checked_add_def)

lemma checked_add_le: "checked_add a b = Some c \<Longrightarrow> a \<le> c" for a :: "'a::len word"
  by (simp add: checked_add_Some_iff word_le_nat_alt)

lemma checked_add_less: "checked_add a b = Some c \<Longrightarrow> b \<noteq> 0 \<Longrightarrow> a < c" for a :: "'a::len word"
  by (simp add: checked_add_Some_iff word_less_nat_alt unat_gt_0)

lemma unat_saturating_add [arith_defs]:
  "unat (saturating_add a b) = min (unat a + unat b) (2 ^ LENGTH('a) - 1)" for a :: "'a::len word"
proof (cases "unat a + unat b < 2 ^ LENGTH('a)")
  case True
  then show ?thesis by (simp add: saturating_add_def unat_word_ariths)
next
  case False
  then show ?thesis
    by (simp add: saturating_add_def unsigned_minus_1_eq_mask mask_eq_exp_minus_1)
qed

lemma unat_saturating_sub [arith_defs]:
  "unat (saturating_sub a b) = unat a - unat b" for a :: "'a::len word"
  by (auto simp: saturating_sub_def unat_sub word_le_nat_alt)

lemma saturating_add_ge: "a \<le> saturating_add a b" for a :: "'a::len word"
proof -
  have "unat a \<le> 2 ^ LENGTH('a) - 1"
    using unsigned_less [of a, where 'a = nat] by linarith
  then show ?thesis by (simp add: word_le_nat_alt unat_saturating_add)
qed

lemma unat_of_nat_small:
  "n < 2 ^ LENGTH('a) \<Longrightarrow> unat (of_nat n :: 'a::len word) = n"
  by (simp add: unat_of_nat take_bit_nat_eq_self)

lemma unat_ucast_up:
  fixes w :: "'a::len word"
  assumes "LENGTH('a) \<le> LENGTH('b::len)"
  shows "unat (ucast w :: 'b word) = unat w"
proof -
  have "unat w < 2 ^ LENGTH('a)" by simp
  also have "\<dots> \<le> 2 ^ LENGTH('b)" using assms by (rule power_increasing) simp
  finally show ?thesis by (simp add: unsigned_ucast_eq take_bit_nat_eq_self_iff)
qed

text \<open>\<open>Option::is_some_and\<close>.\<close>

definition is_some_and :: "'a option \<Rightarrow> ('a \<Rightarrow> bool) \<Rightarrow> bool" where
  "is_some_and v p = (case v of None \<Rightarrow> False | Some x \<Rightarrow> p x)"

lemma is_some_and_simps [simp]: "\<not> is_some_and None p" "is_some_and (Some x) p = p x"
  by (simp_all add: is_some_and_def)

lemma is_some_and_iff: "is_some_and v p \<longleftrightarrow> (\<exists>x. v = Some x \<and> p x)"
  by (cases v) simp_all

text \<open>The \<open>?\<close> operator of Rust: an error ends the function, a value continues it.\<close>

fun and_then :: "'e + 'a \<Rightarrow> ('a \<Rightarrow> 'e + 'b) \<Rightarrow> 'e + 'b" where
  "and_then (Err e) f = Err e"
| "and_then (Ok x) f = f x"

lemma and_then_Ok_iff [simp]: "and_then r f = Ok y \<longleftrightarrow> (\<exists>x. r = Ok x \<and> f x = Ok y)"
  by (cases r) auto

lemma and_then_Err_iff: "and_then r f = Err e \<longleftrightarrow> r = Err e \<or> (\<exists>x. r = Ok x \<and> f x = Err e)"
  by (cases r) auto

section \<open>Big-endian byte strings\<close>

fun le_bytes :: "nat \<Rightarrow> 'a::len word \<Rightarrow> bytes" where
  "le_bytes 0 w = []"
| "le_bytes (Suc n) w = ucast w # le_bytes n (drop_bit 8 w)"

fun le_val :: "bytes \<Rightarrow> 'a::len word" where
  "le_val [] = 0"
| "le_val (b # bs) = ucast b OR push_bit 8 (le_val bs)"

definition to_be_bytes :: "'a::len word \<Rightarrow> bytes" where
  "to_be_bytes w = rev (le_bytes (LENGTH('a) div 8) w)"

definition from_be_bytes :: "bytes \<Rightarrow> 'a::len word" where
  "from_be_bytes bs = le_val (rev bs)"

lemma length_le_bytes [simp]: "length (le_bytes n w) = n"
  by (induction n w rule: le_bytes.induct) auto

lemma length_to_be_bytes [simp, wire_simps]:
  "length (to_be_bytes w) = LENGTH('a) div 8" for w :: "'a::len word"
  by (simp add: to_be_bytes_def)

lemma le_val_le_bytes:
  "le_val (le_bytes n w) = take_bit (8 * n) w" for w :: "'a::len word"
proof (induction n w rule: le_bytes.induct)
  case (1 w)
  then show ?case by simp
next
  case (2 n w)
  show ?case
  proof (rule bit_eqI)
    fix i
    assume "possible_bit TYPE('a word) i"
    then show "bit (le_val (le_bytes (Suc n) w) :: 'a word) i = bit (take_bit (8 * Suc n) w) i"
      by (cases "i < 8")
        (auto simp: "2.IH" bit_simps bit_or_iff not_less dest: bit_imp_le_length)
  qed
qed

lemma from_be_to_be [simp]:
  fixes w :: "'a::len word"
  assumes "LENGTH('a) = 8 * (LENGTH('a) div 8)"
  shows "from_be_bytes (to_be_bytes w) = w"
proof -
  have "from_be_bytes (to_be_bytes w) = take_bit (8 * (LENGTH('a) div 8)) w"
    by (simp add: from_be_bytes_def to_be_bytes_def le_val_le_bytes)
  then show ?thesis
    using assms by (simp add: take_bit_word_eq_self)
qed

lemma bit_le_val: "bit (le_val bs :: 'a::len word) i \<Longrightarrow> i < 8 * length bs"
proof (induction bs arbitrary: i)
  case Nil
  then show ?case by simp
next
  case (Cons b bs)
  then show ?case
    by (cases "i < 8") (force simp: bit_simps bit_or_iff not_less dest: bit_imp_le_length)+
qed

lemma le_bytes_le_val:
  assumes "8 * length bs \<le> LENGTH('a)"
  shows "le_bytes (length bs) (le_val bs :: 'a::len word) = bs"
  using assms
proof (induction bs)
  case Nil
  then show ?case by simp
next
  case (Cons b bs)
  then have IH: "le_bytes (length bs) (le_val bs :: 'a word) = bs" by simp
  have hd: "ucast (ucast b OR push_bit 8 (le_val bs) :: 'a word) = b"
    using Cons.prems by (intro bit_eqI) (auto simp: bit_simps bit_or_iff)
  have tl: "drop_bit 8 (ucast b OR push_bit 8 (le_val bs) :: 'a word) = le_val bs"
  proof (rule bit_eqI)
    fix i
    assume "possible_bit TYPE('a word) i"
    show "bit (drop_bit 8 (ucast b OR push_bit 8 (le_val bs) :: 'a word)) i
        = bit (le_val bs :: 'a word) i"
      using Cons.prems bit_le_val [of bs i, where 'a = 'a]
      by (auto simp: bit_simps bit_or_iff dest: bit_imp_le_length)
  qed
  have "le_bytes (length (b # bs)) (le_val (b # bs) :: 'a word)
      = ucast (ucast b OR push_bit 8 (le_val bs) :: 'a word)
        # le_bytes (length bs) (drop_bit 8 (ucast b OR push_bit 8 (le_val bs) :: 'a word))"
    by (simp only: list.size le_bytes.simps le_val.simps add_0_right add_Suc_right)
  then show ?case by (simp only: hd tl IH)
qed

lemma to_be_from_be [simp]:
  assumes "length bs = LENGTH('a) div 8"
  shows "to_be_bytes (from_be_bytes bs :: 'a::len word) = bs"
proof -
  have "8 * length (rev bs) \<le> LENGTH('a)"
    using assms by simp
  from le_bytes_le_val [OF this] show ?thesis
    using assms by (simp add: to_be_bytes_def from_be_bytes_def)
qed

section \<open>Slices\<close>

definition slice :: "nat \<Rightarrow> nat \<Rightarrow> 'a list \<Rightarrow> 'a list" where
  "slice off n xs = take n (drop off xs)"

lemma length_slice [simp, wire_simps]: "off + n \<le> length xs \<Longrightarrow> length (slice off n xs) = n"
  by (simp add: slice_def)

lemma slice_full: "length xs = n \<Longrightarrow> slice 0 n xs = xs"
  by (simp add: slice_def)

lemma slice_join: "slice a m xs @ slice (a + m) n xs = slice a (m + n) xs"
  by (simp add: slice_def take_add add.commute)

lemma slice_join_drop: "slice a m xs @ drop (a + m) xs = drop a xs"
  by (metis append_take_drop_id drop_drop add.commute slice_def)

lemma slice_join_assoc: "slice a m xs @ slice (a + m) n xs @ r = slice a (m + n) xs @ r"
  by (simp flip: slice_join)

lemma slice_single: "off < length xs \<Longrightarrow> slice off 1 xs = [xs ! off]"
  by (simp add: slice_def take_Suc hd_drop_conv_nth)

definition read_u16 :: "bytes \<Rightarrow> nat \<Rightarrow> u16" where
  "read_u16 bs off = from_be_bytes (slice off 2 bs)"

definition read_u32 :: "bytes \<Rightarrow> nat \<Rightarrow> u32" where
  "read_u32 bs off = from_be_bytes (slice off 4 bs)"

definition read_u64 :: "bytes \<Rightarrow> nat \<Rightarrow> u64" where
  "read_u64 bs off = from_be_bytes (slice off 8 bs)"

lemma to_be_read_u16: "off + 2 \<le> length bs \<Longrightarrow> to_be_bytes (read_u16 bs off) = slice off 2 bs"
  by (simp add: read_u16_def)

lemma to_be_read_u32: "off + 4 \<le> length bs \<Longrightarrow> to_be_bytes (read_u32 bs off) = slice off 4 bs"
  by (simp add: read_u32_def)

lemma to_be_read_u64: "off + 8 \<le> length bs \<Longrightarrow> to_be_bytes (read_u64 bs off) = slice off 8 bs"
  by (simp add: read_u64_def)

lemmas to_be_read = to_be_read_u16 to_be_read_u32 to_be_read_u64

lemma slice_append [wire_simps]:
  "slice off n (xs @ ys) =
     (if length xs \<le> off then slice (off - length xs) n ys
      else if off + n \<le> length xs then slice off n xs
      else drop off xs @ take (n - (length xs - off)) ys)"
  by (auto simp: slice_def)

lemma slice_Cons [wire_simps]:
  "slice off n (x # ys) =
     (if off = 0 then (if n = 0 then [] else x # take (n - 1) ys) else slice (off - 1) n ys)"
  by (cases off; cases n) (auto simp: slice_def)

lemma slice_0_self [wire_simps]: "length xs \<le> n \<Longrightarrow> slice 0 n xs = xs"
  by (simp add: slice_def)

text \<open>A byte string cut into consecutive fields of given widths, and put together again.\<close>

fun cut_fields :: "nat \<Rightarrow> nat list \<Rightarrow> 'a list \<Rightarrow> 'a list list" where
  "cut_fields off [] xs = []"
| "cut_fields off (n # ns) xs = slice off n xs # cut_fields (off + n) ns xs"

lemma concat_fields: "concat (cut_fields off ns xs) = slice off (sum_list ns) xs"
proof (induction ns arbitrary: off)
  case Nil
  then show ?case by (simp add: slice_def)
next
  case (Cons n ns)
  then show ?case by (simp add: slice_join)
qed

lemma take_fields: "take n xs = concat (cut_fields 0 ns xs)" if "sum_list ns = n"
  using that by (simp add: concat_fields slice_def)

lemma slice_1: "off < length xs \<Longrightarrow> slice off (Suc 0) xs = [xs ! off]"
  using slice_single by simp

lemma slice_2: "Suc off < length xs \<Longrightarrow> slice off 2 xs = [xs ! off, xs ! Suc off]"
  using slice_join [of off 1 xs 1] by (simp add: slice_1 numeral_2_eq_2)

section \<open>Strings\<close>

text \<open>The test of \<^verbatim>\<open>core::str::from_utf8\<close>. A string of the model is its bytes.\<close>

definition utf8_cont :: "u8 \<Rightarrow> bool" where
  "utf8_cont b \<longleftrightarrow> 0x80 \<le> b \<and> b \<le> 0xBF"

fun valid_utf8 :: "bytes \<Rightarrow> bool" where
  "valid_utf8 [] \<longleftrightarrow> True"
| "valid_utf8 (a # bs) \<longleftrightarrow>
     (if a < 0x80 then valid_utf8 bs
      else if 0xC2 \<le> a \<and> a \<le> 0xDF then
        (case bs of b # r \<Rightarrow> utf8_cont b \<and> valid_utf8 r | _ \<Rightarrow> False)
      else if 0xE0 \<le> a \<and> a \<le> 0xEF then
        (case bs of b # c # r \<Rightarrow> utf8_cont b \<and> utf8_cont c
            \<and> (a = 0xE0 \<longrightarrow> 0xA0 \<le> b) \<and> (a = 0xED \<longrightarrow> b \<le> 0x9F) \<and> valid_utf8 r
         | _ \<Rightarrow> False)
      else if 0xF0 \<le> a \<and> a \<le> 0xF4 then
        (case bs of b # c # d # r \<Rightarrow> utf8_cont b \<and> utf8_cont c \<and> utf8_cont d
            \<and> (a = 0xF0 \<longrightarrow> 0x90 \<le> b) \<and> (a = 0xF4 \<longrightarrow> b \<le> 0x8F) \<and> valid_utf8 r
         | _ \<Rightarrow> False)
      else False)"

lemma valid_utf8_ascii: "list_all (\<lambda>b. b < 0x80) bs \<Longrightarrow> valid_utf8 bs"
  by (induction bs) simp_all

section \<open>Socket addresses\<close>

text \<open>
  \<open>IpAddr\<close> and \<open>SocketAddr\<close> of the standard library: the octets and the port, for IPv6
  with flow information and scope.
\<close>

datatype ip_addr = IpV4 bytes | IpV6 bytes

datatype socket_addr = SocketV4 bytes u16 | SocketV6 bytes u16 u32 u32

fun socket_ip :: "socket_addr \<Rightarrow> ip_addr" where
  "socket_ip (SocketV4 octets _) = IpV4 octets"
| "socket_ip (SocketV6 octets _ _ _) = IpV6 octets"

fun socket_port :: "socket_addr \<Rightarrow> u16" where
  "socket_port (SocketV4 _ port) = port"
| "socket_port (SocketV6 _ port _ _) = port"

fun ip_is_ipv4 :: "ip_addr \<Rightarrow> bool" where
  "ip_is_ipv4 (IpV4 _) = True"
| "ip_is_ipv4 (IpV6 _) = False"

abbreviation is_ipv4 :: "socket_addr \<Rightarrow> bool" where
  "is_ipv4 a \<equiv> ip_is_ipv4 (socket_ip a)"

fun ip_is_unspecified :: "ip_addr \<Rightarrow> bool" where
  "ip_is_unspecified (IpV4 octets) \<longleftrightarrow> octets = replicate 4 0"
| "ip_is_unspecified (IpV6 octets) \<longleftrightarrow> octets = replicate 16 0"

fun ip_is_loopback :: "ip_addr \<Rightarrow> bool" where
  "ip_is_loopback (IpV4 octets) \<longleftrightarrow> octets ! 0 = 127"
| "ip_is_loopback (IpV6 octets) \<longleftrightarrow> octets = replicate 15 0 @ [1]"

fun ip_is_multicast :: "ip_addr \<Rightarrow> bool" where
  "ip_is_multicast (IpV4 octets) \<longleftrightarrow> 224 \<le> octets ! 0 \<and> octets ! 0 \<le> 239"
| "ip_is_multicast (IpV6 octets) \<longleftrightarrow> octets ! 0 = 0xff"

fun ip_is_broadcast :: "ip_addr \<Rightarrow> bool" where
  "ip_is_broadcast (IpV4 octets) \<longleftrightarrow> octets = replicate 4 255"
| "ip_is_broadcast (IpV6 _) \<longleftrightarrow> False"

fun wf_socket :: "socket_addr \<Rightarrow> bool" where
  "wf_socket (SocketV4 octets _) \<longleftrightarrow> length octets = 4"
| "wf_socket (SocketV6 octets _ _ _) \<longleftrightarrow> length octets = 16"

section \<open>Vectors\<close>

text \<open>\<open>iter().position(p)\<close>: the index of the first element with the property.\<close>

definition position :: "('a \<Rightarrow> bool) \<Rightarrow> 'a list \<Rightarrow> nat option" where
  "position p xs = (let i = length (takeWhile (\<lambda>x. \<not> p x) xs) in if i < length xs then Some i else None)"

lemma position_Nil [simp]: "position p [] = None"
  by (simp add: position_def)

lemma position_Cons [simp]:
  "position p (x # xs) = (if p x then Some 0 else map_option Suc (position p xs))"
  by (simp add: position_def Let_def)

lemma position_None_iff: "position p xs = None \<longleftrightarrow> (\<forall>x\<in>set xs. \<not> p x)"
  by (induction xs) auto

lemma position_Some: "position p xs = Some i \<Longrightarrow> i < length xs \<and> p (xs ! i) \<and> (\<forall>j<i. \<not> p (xs ! j))"
proof (induction xs arbitrary: i)
  case (Cons x xs)
  show ?case
  proof (cases "p x")
    case False
    then obtain k where "position p xs = Some k" "i = Suc k"
      using Cons.prems by auto
    with Cons.IH [of k] False show ?thesis
      by (auto simp: nth_Cons split: nat.splits)
  qed (use Cons.prems in simp)
qed simp

definition swap_remove :: "nat \<Rightarrow> 'a list \<Rightarrow> 'a list" where
  "swap_remove i xs = butlast (xs[i := last xs])"

lemma length_swap_remove [simp]: "i < length xs \<Longrightarrow> length (swap_remove i xs) = length xs - 1"
  by (simp add: swap_remove_def)

lemma mset_swap_remove:
  assumes "i < length xs"
  shows "mset (swap_remove i xs) = mset xs - {# xs ! i #}"
proof (cases xs rule: rev_cases)
  case Nil
  with assms show ?thesis by simp
next
  case (snoc ys y)
  show ?thesis
  proof (cases "i = length ys")
    case True
    then show ?thesis by (simp add: snoc swap_remove_def)
  next
    case False
    with assms snoc have i: "i < length ys" by simp
    then have "mset (swap_remove i xs) = add_mset y (mset ys - {# ys ! i #})"
      by (simp add: snoc swap_remove_def list_update_append butlast_append mset_update)
    also from i have "\<dots> = mset xs - {# xs ! i #}"
      by (simp add: snoc nth_append)
    finally show ?thesis .
  qed
qed

lemma mset_swap_remove_add:
  "i < length xs \<Longrightarrow> mset xs = add_mset (xs ! i) (mset (swap_remove i xs))"
  by (simp add: mset_swap_remove)

lemma sum_list_swap_remove:
  fixes f :: "'a \<Rightarrow> nat"
  assumes "i < length xs"
  shows "sum_list (map f xs) = f (xs ! i) + sum_list (map f (swap_remove i xs))"
proof -
  have "sum_mset (image_mset f (mset xs))
      = f (xs ! i) + sum_mset (image_mset f (mset (swap_remove i xs)))"
    by (subst mset_swap_remove_add [OF assms]) simp
  then show ?thesis
    by (metis mset_map sum_mset_sum_list)
qed

lemma set_swap_remove_subset: "i < length xs \<Longrightarrow> set (swap_remove i xs) \<subseteq> set xs"
  by (metis mset_swap_remove in_diffD set_mset_mset subsetI)

end
