(* ===== verification/Contracts.thy ===== *)
theory Contracts
  imports Prelude "HOL-Library.Sublist"
begin

text \<open>
  The interfaces the components are written against, each a locale that its providers interpret
  on the definitions of the model.

  \<^item> \<open>machine_invariant\<close>: a component driven by commands, and a predicate that every command keeps.
    Its client lemma lifts the predicate to whole histories of calls.
  \<^item> \<open>recorded_machine\<close>: an invariant machine whose state is explained by the trace of its calls and
    replies. Its client lemma: so is the state after any history.
  \<^item> \<open>fresh_issuer\<close>: a component whose commands hand out numbered handles (epochs, generations,
    incarnations, sequence numbers). Its client lemma: along any history the numbers handed out
    strictly increase, so no number is ever reused.
  \<^item> \<open>once_only\<close>: a guard that answers each key with acceptance or refusal. Its client lemma: along
    any history no key is accepted twice.
  \<^item> \<open>wire_codec\<close>: an encoder and a decoder that agree. Its client lemmas: encodings are unambiguous
    and no record has two encodings.
\<close>

section \<open>Histories of commands\<close>

fun run :: "('s \<Rightarrow> 'c \<Rightarrow> 's \<times> 'r) \<Rightarrow> 's \<Rightarrow> 'c list \<Rightarrow> 's \<times> 'r list" where
  "run step s [] = (s, [])"
| "run step s (c # cs) =
     (let (s', r) = step s c; (s'', rs) = run step s' cs in (s'', r # rs))"

lemma run_Nil_fst [simp]: "fst (run step s []) = s"
  by simp

lemma run_Cons_fst [simp]: "fst (run step s (c # cs)) = fst (run step (fst (step s c)) cs)"
  by (simp add: split_beta Let_def)

lemma run_Cons_snd [simp]:
  "snd (run step s (c # cs)) = snd (step s c) # snd (run step (fst (step s c)) cs)"
  by (simp add: split_beta Let_def)

lemma run_append_fst: "fst (run step s (cs @ ds)) = fst (run step (fst (run step s cs)) ds)"
  by (induction cs arbitrary: s) (simp_all del: run.simps)

declare run.simps(2) [simp del]

locale machine_invariant =
  fixes step :: "'s \<Rightarrow> 'c \<Rightarrow> 's \<times> 'r"
    and inv :: "'s \<Rightarrow> bool"
  assumes step_inv: "inv s \<Longrightarrow> inv (fst (step s c))"
begin

lemma run_inv: "inv s \<Longrightarrow> inv (fst (run step s cs))"
  by (induction cs arbitrary: s) (simp_all add: step_inv)

lemma run_inv_prefix: "inv s \<Longrightarrow> inv (fst (run step s (take n cs)))"
  by (rule run_inv)

end

section \<open>What a history grants\<close>

text \<open>
  \<open>grant c r\<close> is the key (a number, a token, a message identity) that the reply \<open>r\<close> to the
  command \<open>c\<close> hands out or accepts, if any; \<open>granted\<close> lists the keys of a history in order.
\<close>

fun granted :: "('c \<Rightarrow> 'r \<Rightarrow> 'k option) \<Rightarrow> ('s \<Rightarrow> 'c \<Rightarrow> 's \<times> 'r) \<Rightarrow> 's \<Rightarrow> 'c list \<Rightarrow> 'k list" where
  "granted grant step s [] = []"
| "granted grant step s (c # cs) =
     (case grant c (snd (step s c)) of None \<Rightarrow> [] | Some k \<Rightarrow> [k])
     @ granted grant step (fst (step s c)) cs"

lemma granted_snoc:
  "granted grant step s (cs @ [c]) = granted grant step s cs
     @ (case grant c (snd (step (fst (run step s cs)) c)) of None \<Rightarrow> [] | Some k \<Rightarrow> [k])"
  by (induction cs arbitrary: s) simp_all

lemma run_snoc_fst: "fst (run step s (cs @ [c])) = fst (step (fst (run step s cs)) c)"
  by (simp add: run_append_fst)

section \<open>What a state remembers of its history\<close>

text \<open>
  \<open>trace\<close> lists the calls of a history with their replies. In a \<open>recorded_machine\<close> the state after
  any history is explained by the history's trace; that events happened in an order is written
  with \<open>subseq\<close>.
\<close>

definition trace :: "('s \<Rightarrow> 'c \<Rightarrow> 's \<times> 'r) \<Rightarrow> 's \<Rightarrow> 'c list \<Rightarrow> ('c \<times> 'r) list" where
  "trace step s cs = zip cs (snd (run step s cs))"

lemma trace_Nil [simp]: "trace step s [] = []"
  by (simp add: trace_def)

lemma trace_Cons [simp]:
  "trace step s (c # cs) = (c, snd (step s c)) # trace step (fst (step s c)) cs"
  by (simp add: trace_def)

lemma trace_memE:
  assumes "(c, r) \<in> set (trace step s cs)"
  obtains before after where "cs = before @ c # after" "r = snd (step (fst (run step s before)) c)"
proof -
  from assms have "\<exists>before after. cs = before @ c # after \<and> r = snd (step (fst (run step s before)) c)"
  proof (induction cs arbitrary: s)
    case (Cons d cs)
    show ?case
    proof (cases "(c, r) = (d, snd (step s d))")
      case True
      then show ?thesis by (intro exI [of _ "[]"] exI [of _ cs]) simp
    next
      case False
      then have "(c, r) \<in> set (trace step (fst (step s d)) cs)"
        using Cons.prems by auto
      from Cons.IH [OF this] obtain before after where "cs = before @ c # after"
        "r = snd (step (fst (run step (fst (step s d)) before)) c)"
        by blast
      then show ?thesis by (intro exI [of _ "d # before"] exI [of _ after]) simp
    qed
  qed simp
  with that show thesis by blast
qed

lemma subseq_snoc_mono: "subseq xs tr \<Longrightarrow> subseq xs (tr @ [e])"
  by (rule subseq_rev_drop_many)

lemma subseq_snoc: "subseq xs tr \<Longrightarrow> subseq (xs @ [e]) (tr @ [e])"
  by (intro list_emb_append_mono) simp_all

lemma subseq_snoc_single [simp]: "subseq [e] (tr @ [e])"
  by (simp add: subseq_singleton_left)

locale recorded_machine = machine_invariant step inv
  for step :: "'s \<Rightarrow> 'c \<Rightarrow> 's \<times> 'r" and inv :: "'s \<Rightarrow> bool" +
  fixes explains :: "('c \<times> 'r) list \<Rightarrow> 's \<Rightarrow> bool"
  assumes explains_step: "inv s \<Longrightarrow> explains tr s \<Longrightarrow>
    explains (tr @ [(c, snd (step s c))]) (fst (step s c))"
begin

lemma run_explained_from:
  "inv s \<Longrightarrow> explains tr s \<Longrightarrow> explains (tr @ trace step s cs) (fst (run step s cs))"
proof (induction cs arbitrary: s tr)
  case Nil
  then show ?case by simp
next
  case (Cons c cs)
  then show ?case
    using Cons.IH [OF step_inv explains_step] by simp
qed

lemma run_explained: "inv s \<Longrightarrow> explains [] s \<Longrightarrow> explains (trace step s cs) (fst (run step s cs))"
  using run_explained_from [of s "[]"] by simp

end

section \<open>Fresh numbered handles\<close>

locale fresh_issuer = machine_invariant step inv
  for step :: "'s \<Rightarrow> 'c \<Rightarrow> 's \<times> 'r" and inv :: "'s \<Rightarrow> bool" +
  fixes next_id :: "'s \<Rightarrow> nat"
    and grant :: "'c \<Rightarrow> 'r \<Rightarrow> nat option"
  assumes next_mono: "inv s \<Longrightarrow> next_id s \<le> next_id (fst (step s c))"
    and grant_fresh: "inv s \<Longrightarrow> grant c (snd (step s c)) = Some n \<Longrightarrow>
      next_id s \<le> n \<and> n < next_id (fst (step s c))"
begin

lemma granted_ge: "inv s \<Longrightarrow> n \<in> set (granted grant step s cs) \<Longrightarrow> next_id s \<le> n"
proof (induction cs arbitrary: s)
  case Nil
  then show ?case by simp
next
  case (Cons c cs)
  have "next_id s \<le> n" if "n \<in> set (granted grant step (fst (step s c)) cs)"
    using Cons.IH [OF step_inv [OF Cons.prems(1)] that] next_mono [OF Cons.prems(1), of c] by simp
  with Cons.prems grant_fresh [OF Cons.prems(1), of c] show ?case
    by (auto split: option.splits)
qed

lemma granted_increasing: "inv s \<Longrightarrow> sorted_wrt (<) (granted grant step s cs)"
proof (induction cs arbitrary: s)
  case Nil
  then show ?case by simp
next
  case (Cons c cs)
  have inv': "inv (fst (step s c))"
    using Cons.prems by (rule step_inv)
  have "n < m" if "grant c (snd (step s c)) = Some n"
    and "m \<in> set (granted grant step (fst (step s c)) cs)" for n m
    using grant_fresh [OF Cons.prems that(1)] granted_ge [OF inv' that(2)] by simp
  then show ?case
    using Cons.IH [OF inv'] by (auto split: option.splits)
qed

end

section \<open>Guards that accept a key at most once\<close>

abbreviation accept :: "'k \<Rightarrow> 'e + 'r \<Rightarrow> 'k option" where
  "accept k r \<equiv> (if is_ok r then Some k else None)"

locale once_only =
  fixes step :: "'s \<Rightarrow> 'c \<Rightarrow> 's \<times> 'r"
    and grant :: "'c \<Rightarrow> 'r \<Rightarrow> 'k option"
    and spent :: "'s \<Rightarrow> 'k \<Rightarrow> bool"
  assumes grant_unspent: "grant c (snd (step s c)) = Some k \<Longrightarrow> \<not> spent s k"
    and grant_spends: "grant c (snd (step s c)) = Some k \<Longrightarrow> spent (fst (step s c)) k"
    and spent_mono: "spent s k \<Longrightarrow> spent (fst (step s c)) k"
begin

lemma spent_never_granted: "spent s k \<Longrightarrow> k \<notin> set (granted grant step s cs)"
proof (induction cs arbitrary: s)
  case Nil
  then show ?case by simp
next
  case (Cons c cs)
  then show ?case
    using grant_unspent [of c s] spent_mono [of s k c] by (auto split: option.splits)
qed

lemma granted_distinct: "distinct (granted grant step s cs)"
proof (induction cs arbitrary: s)
  case Nil
  then show ?case by simp
next
  case (Cons c cs)
  then show ?case
    using grant_spends [of c s] spent_never_granted [of "fst (step s c)"]
    by (auto split: option.splits)
qed

end

section \<open>Encoders and decoders\<close>

locale wire_codec =
  fixes enc :: "'a \<Rightarrow> 'e + bytes"
    and dec :: "bytes \<Rightarrow> 'e + 'a"
    and wf :: "'a \<Rightarrow> bool"
  assumes dec_enc: "wf x \<Longrightarrow> enc x = Ok bs \<Longrightarrow> dec bs = Ok x"
    and enc_dec: "dec bs = Ok x \<Longrightarrow> wf x \<and> enc x = Ok bs"
begin

lemma dec_iff: "dec bs = Ok x \<longleftrightarrow> wf x \<and> enc x = Ok bs"
  using dec_enc enc_dec by blast

lemma enc_unambiguous: "wf x \<Longrightarrow> wf y \<Longrightarrow> enc x = Ok bs \<Longrightarrow> enc y = Ok bs \<Longrightarrow> x = y"
  using dec_enc [of x bs] dec_enc [of y bs] by simp

lemma dec_canonical: "dec as = Ok x \<Longrightarrow> dec bs = Ok x \<Longrightarrow> as = bs"
  using enc_dec [of as x] enc_dec [of bs x] by simp

end

end
