(* ===== verification/Scheduler.thy ===== *)
theory Scheduler
  imports Contracts "HOL-Library.Product_Lexorder"
begin

text \<open>
  The bounded, deadline-aware send scheduler of \<^verbatim>\<open>crates/scheduler/src/lib.rs\<close>.

  An \<open>Instant\<close> is a natural number of ticks: the code only compares instants. The queue is the
  vector of the source, reordered by \<open>swap_remove\<close> as the source reorders it. The lemmas abstract
  the vector to its multiset: expiry is a filter, a pop removes a least element of the
  lexicographic key (class rank, deadline, identifier), a push evicts greatest elements of
  strictly less urgent classes.
\<close>

section \<open>Data\<close>

datatype priority_class =
  PcInput | PcControl | PcRecoveryVideo | PcRealtimeVideo | PcAudio | PcRefinement

fun rank :: "priority_class \<Rightarrow> u8" where
  "rank PcInput = 0"
| "rank PcControl = 1"
| "rank PcRecoveryVideo = 2"
| "rank PcRealtimeVideo = 3"
| "rank PcAudio = 4"
| "rank PcRefinement = 5"

type_synonym instant = nat

record scheduled_item =
  si_id :: u64
  si_class :: priority_class
  si_deadline :: instant
  si_payload_bytes :: usize

datatype push_outcome =
  Inserted nat
| RejectedOversize
| RejectedCapacity

record deadline_scheduler =
  ds_max_items :: nat
  ds_max_bytes :: usize
  ds_queued_bytes :: usize
  ds_items :: "scheduled_item list"

section \<open>Operations\<close>

text \<open>\<open>new\<close> asserts that both caps are nonzero: \<open>None\<close> is the panic.\<close>

definition new_scheduler :: "nat \<Rightarrow> usize \<Rightarrow> deadline_scheduler option" where
  "new_scheduler max_items max_bytes =
     (if max_items = 0 \<or> max_bytes = 0 then None
      else Some \<lparr>ds_max_items = max_items, ds_max_bytes = max_bytes,
                 ds_queued_bytes = 0, ds_items = []\<rparr>)"

text \<open>
  The comparator of \<open>push\<close>, \<open>pop_next\<close> and \<open>peek\<close>: \<open>rank\<close>, then the deadline, then the identifier.
\<close>

definition sched_key :: "scheduled_item \<Rightarrow> u8 \<times> instant \<times> u64" where
  "sched_key a = (rank (si_class a), si_deadline a, si_id a)"

text \<open>
  \<open>Iterator::min_by\<close> keeps the first of several minima, \<open>Iterator::max_by\<close> the last of several
  maxima.
\<close>

definition min_by_key :: "('a \<Rightarrow> 'k::linorder) \<Rightarrow> 'a list \<Rightarrow> 'a option" where
  "min_by_key k xs = (case xs of [] \<Rightarrow> None
     | y # ys \<Rightarrow> Some (foldl (\<lambda>b x. if k x < k b then x else b) y ys))"

definition max_by_key :: "('a \<Rightarrow> 'k::linorder) \<Rightarrow> 'a list \<Rightarrow> 'a option" where
  "max_by_key k xs = (case xs of [] \<Rightarrow> None
     | y # ys \<Rightarrow> Some (foldl (\<lambda>b x. if k x < k b then b else x) y ys))"

definition remove_at :: "nat \<Rightarrow> deadline_scheduler \<Rightarrow> deadline_scheduler" where
  "remove_at i s = s\<lparr>ds_items := swap_remove i (ds_items s),
     ds_queued_bytes := ds_queued_bytes s - si_payload_bytes (ds_items s ! i)\<rparr>"

lemma remove_at_fields [simp]:
  "ds_items (remove_at i s) = swap_remove i (ds_items s)"
  "ds_max_items (remove_at i s) = ds_max_items s"
  "ds_max_bytes (remove_at i s) = ds_max_bytes s"
  by (simp_all add: remove_at_def)

function drop_expired_from ::
  "instant \<Rightarrow> nat \<Rightarrow> nat \<Rightarrow> deadline_scheduler \<Rightarrow> deadline_scheduler \<times> nat" where
  "drop_expired_from now index dropped s =
     (if index < length (ds_items s) then
        if si_deadline (ds_items s ! index) \<le> now
        then drop_expired_from now index (dropped + 1) (remove_at index s)
        else drop_expired_from now (index + 1) dropped s
      else (s, dropped))"
  by pat_completeness auto
termination
  by (relation "measure (\<lambda>(now, index, dropped, s). length (ds_items s) - index)") auto

declare drop_expired_from.simps [simp del]

definition drop_expired :: "deadline_scheduler \<Rightarrow> instant \<Rightarrow> deadline_scheduler \<times> nat" where
  "drop_expired s now = drop_expired_from now 0 0 s"

definition find_victim :: "deadline_scheduler \<Rightarrow> scheduled_item \<Rightarrow> nat option" where
  "find_victim s item = map_option fst (max_by_key (sched_key \<circ> snd)
     (filter (\<lambda>(_, queued). rank (si_class queued) > rank (si_class item))
        (enumerate 0 (ds_items s))))"

definition overfull :: "deadline_scheduler \<Rightarrow> scheduled_item \<Rightarrow> bool" where
  "overfull s item \<longleftrightarrow> length (ds_items s) \<ge> ds_max_items s \<or>
     saturating_add (ds_queued_bytes s) (si_payload_bytes item) > ds_max_bytes s"

lemma foldl_select_in: "foldl (\<lambda>b x. if p b x then x else b) y ys \<in> set (y # ys)"
  by (induction ys arbitrary: y) auto

lemma foldl_select_in': "foldl (\<lambda>b x. if p b x then b else x) y ys \<in> set (y # ys)"
  by (induction ys arbitrary: y) auto

lemma min_by_key_in: "min_by_key k xs = Some m \<Longrightarrow> m \<in> set xs"
  using foldl_select_in [of "\<lambda>b x. k x < k b"]
  by (auto simp: min_by_key_def split: list.splits)

lemma max_by_key_in: "max_by_key k xs = Some m \<Longrightarrow> m \<in> set xs"
  using foldl_select_in' [of "\<lambda>b x. k x < k b"]
  by (auto simp: max_by_key_def split: list.splits)

lemma in_set_enumerate_0: "(i, x) \<in> set (enumerate 0 xs) \<longleftrightarrow> i < length xs \<and> x = xs ! i"
  by (auto simp: in_set_enumerate_eq)

lemma find_victim_less:
  "find_victim s item = Some i \<Longrightarrow> i < length (ds_items s)
     \<and> rank (si_class (ds_items s ! i)) > rank (si_class item)"
  by (auto simp: find_victim_def in_set_enumerate_0 dest!: max_by_key_in)

function evict_for ::
  "scheduled_item \<Rightarrow> nat \<Rightarrow> deadline_scheduler \<Rightarrow> deadline_scheduler \<times> nat option" where
  "evict_for item evicted s =
     (if overfull s item then
        (case find_victim s item of
           None \<Rightarrow> (s, None)
         | Some index \<Rightarrow> evict_for item (evicted + 1) (remove_at index s))
      else (s, Some evicted))"
  by pat_completeness auto
termination
  by (relation "measure (\<lambda>(item, evicted, s). length (ds_items s))")
    (use find_victim_less in fastforce)+

declare evict_for.simps [simp del]

definition push ::
  "deadline_scheduler \<Rightarrow> scheduled_item \<Rightarrow> instant \<Rightarrow> deadline_scheduler \<times> push_outcome" where
  "push s item now =
     (if si_payload_bytes item > ds_max_bytes s then (s, RejectedOversize)
      else let (s1, expired) = drop_expired s now in
        case evict_for item expired s1 of
          (s2, None) \<Rightarrow> (s2, RejectedCapacity)
        | (s2, Some evicted) \<Rightarrow>
            (s2\<lparr>ds_queued_bytes := ds_queued_bytes s2 + si_payload_bytes item,
                ds_items := ds_items s2 @ [item]\<rparr>, Inserted evicted))"

definition pop_next ::
  "deadline_scheduler \<Rightarrow> instant \<Rightarrow> deadline_scheduler \<times> scheduled_item option" where
  "pop_next s now =
     (let s1 = fst (drop_expired s now) in
      case map_option fst (min_by_key (sched_key \<circ> snd) (enumerate 0 (ds_items s1))) of
        None \<Rightarrow> (s1, None)
      | Some index \<Rightarrow> (remove_at index s1, Some (ds_items s1 ! index)))"

definition peek :: "deadline_scheduler \<Rightarrow> instant \<Rightarrow> scheduled_item option" where
  "peek s now = min_by_key sched_key (filter (\<lambda>item. si_deadline item > now) (ds_items s))"

datatype sched_cmd =
  Push scheduled_item instant
| PopNext instant

datatype sched_reply =
  Pushed push_outcome
| Popped "scheduled_item option"

fun sched_step :: "deadline_scheduler \<Rightarrow> sched_cmd \<Rightarrow> deadline_scheduler \<times> sched_reply" where
  "sched_step s (Push item now) = map_prod id Pushed (push s item now)"
| "sched_step s (PopNext now) = map_prod id Popped (pop_next s now)"

section \<open>The invariant\<close>

definition item_bytes :: "scheduled_item \<Rightarrow> nat" where
  "item_bytes x = unat (si_payload_bytes x)"

text \<open>\<open>queued_bytes\<close> is exactly the sum of the queued payloads.\<close>

definition bytes_exact :: "deadline_scheduler \<Rightarrow> bool" where
  "bytes_exact s \<longleftrightarrow> unat (ds_queued_bytes s) = sum_list (map item_bytes (ds_items s))"

text \<open>
  The byte cap has to be below \<open>usize::MAX\<close>: at \<open>usize::MAX\<close> the saturated sum of the capacity test
  can never exceed the cap, and \<open>queued_bytes += payload_bytes\<close> can overflow.
\<close>

definition sched_inv :: "deadline_scheduler \<Rightarrow> bool" where
  "sched_inv s \<longleftrightarrow> bytes_exact s \<and> length (ds_items s) \<le> ds_max_items s
     \<and> ds_queued_bytes s \<le> ds_max_bytes s \<and> ds_max_bytes s < - 1"

definition live :: "instant \<Rightarrow> scheduled_item \<Rightarrow> bool" where
  "live now x \<longleftrightarrow> si_deadline x > now"

definition queue :: "deadline_scheduler \<Rightarrow> scheduled_item multiset" where
  "queue s = mset (ds_items s)"

definition less_urgent :: "scheduled_item \<Rightarrow> scheduled_item \<Rightarrow> bool" where
  "less_urgent item x \<longleftrightarrow> rank (si_class x) > rank (si_class item)"

lemma foldl_min_le:
  fixes k :: "'a \<Rightarrow> 'k::linorder"
  shows "x \<in> set (y # ys) \<Longrightarrow> k (foldl (\<lambda>b x. if k x < k b then x else b) y ys) \<le> k x"
proof (induction ys arbitrary: y x)
  case Nil
  then show ?case by simp
next
  case (Cons z zs)
  let ?b = "if k z < k y then z else y"
  have b: "k (foldl (\<lambda>b x. if k x < k b then x else b) ?b zs) \<le> k ?b"
    by (rule Cons.IH) simp
  show ?case
  proof (cases "x \<in> set zs")
    case True
    then show ?thesis using Cons.IH [of x ?b] by simp
  next
    case False
    with Cons.prems have "k ?b \<le> k x" by auto
    with b show ?thesis by (metis (no_types, lifting) foldl_Cons order_trans)
  qed
qed

lemma foldl_max_ge:
  fixes k :: "'a \<Rightarrow> 'k::linorder"
  shows "x \<in> set (y # ys) \<Longrightarrow> k x \<le> k (foldl (\<lambda>b x. if k x < k b then b else x) y ys)"
proof (induction ys arbitrary: y x)
  case Nil
  then show ?case by simp
next
  case (Cons z zs)
  let ?b = "if k z < k y then y else z"
  have b: "k ?b \<le> k (foldl (\<lambda>b x. if k x < k b then b else x) ?b zs)"
    by (rule Cons.IH) simp
  show ?case
  proof (cases "x \<in> set zs")
    case True
    then show ?thesis using Cons.IH [of x ?b] by simp
  next
    case False
    with Cons.prems have "k x \<le> k ?b" by auto
    with b show ?thesis by (metis (no_types, lifting) foldl_Cons order_trans)
  qed
qed

lemma min_by_key_le: "min_by_key k xs = Some m \<Longrightarrow> x \<in> set xs \<Longrightarrow> k m \<le> k x"
  using foldl_min_le [of x _ _ k] by (auto simp: min_by_key_def split: list.splits)

lemma max_by_key_ge: "max_by_key k xs = Some m \<Longrightarrow> x \<in> set xs \<Longrightarrow> k x \<le> k m"
  using foldl_max_ge [of x _ _ k] by (auto simp: max_by_key_def split: list.splits)

lemma min_by_key_None [simp]: "min_by_key k xs = None \<longleftrightarrow> xs = []"
  by (simp add: min_by_key_def split: list.splits)

lemma max_by_key_None [simp]: "max_by_key k xs = None \<longleftrightarrow> xs = []"
  by (simp add: max_by_key_def split: list.splits)

section \<open>Removal, expiry and eviction on the multiset\<close>

lemma queue_remove_at:
  "i < length (ds_items s) \<Longrightarrow> queue s = add_mset (ds_items s ! i) (queue (remove_at i s))"
  by (simp add: queue_def mset_swap_remove)

lemma bytes_exact_remove_at:
  assumes "bytes_exact s" and "i < length (ds_items s)"
  shows "bytes_exact (remove_at i s)"
    and "ds_queued_bytes (remove_at i s) \<le> ds_queued_bytes s"
proof -
  let ?p = "si_payload_bytes (ds_items s ! i)"
  have sum: "unat (ds_queued_bytes s)
      = unat ?p + sum_list (map item_bytes (swap_remove i (ds_items s)))"
    using assms sum_list_swap_remove [OF assms(2), of item_bytes]
    by (simp add: bytes_exact_def item_bytes_def)
  then have "?p \<le> ds_queued_bytes s"
    by (simp add: word_le_nat_alt)
  then have sub: "unat (ds_queued_bytes s - ?p) = unat (ds_queued_bytes s) - unat ?p"
    by (rule unat_sub)
  with sum show "bytes_exact (remove_at i s)"
    by (simp add: bytes_exact_def remove_at_def)
  show "ds_queued_bytes (remove_at i s) \<le> ds_queued_bytes s"
    using sub by (simp add: remove_at_def word_le_nat_alt)
qed

lemma sched_inv_remove_at:
  assumes "sched_inv s" and "i < length (ds_items s)"
  shows "sched_inv (remove_at i s)"
proof -
  have "bytes_exact s" and "ds_queued_bytes s \<le> ds_max_bytes s"
    using assms by (simp_all add: sched_inv_def)
  with bytes_exact_remove_at [OF _ assms(2)] assms show ?thesis
    by (fastforce simp: sched_inv_def)
qed

lemma drop_expired_from_inv:
  "sched_inv s \<Longrightarrow> sched_inv (fst (drop_expired_from now index dropped s))"
proof (induction now index dropped s rule: drop_expired_from.induct)
  case (1 now index dropped s)
  then show ?case
    by (subst drop_expired_from.simps) (simp add: sched_inv_remove_at)
qed

lemma drop_expired_from_caps [simp]:
  "ds_max_items (fst (drop_expired_from now index dropped s)) = ds_max_items s"
  "ds_max_bytes (fst (drop_expired_from now index dropped s)) = ds_max_bytes s"
proof (induction now index dropped s rule: drop_expired_from.induct)
  case (1 now index dropped s)
  case 1 with "1.IH" show ?case by (subst drop_expired_from.simps) simp
next
  case (1 now index dropped s)
  case 2 with "1.IH" show ?case by (subst drop_expired_from.simps) simp
qed

lemma drop_expired_from_queue:
  assumes "\<And>j. j < index \<Longrightarrow> j < length (ds_items s) \<Longrightarrow> live now (ds_items s ! j)"
  shows "queue (fst (drop_expired_from now index dropped s)) = filter_mset (live now) (queue s)
    \<and> snd (drop_expired_from now index dropped s)
        = dropped + size (filter_mset (\<lambda>x. \<not> live now x) (queue s))"
  using assms
proof (induction now index dropped s rule: drop_expired_from.induct)
  case (1 now index dropped s)
  consider (stop) "\<not> index < length (ds_items s)"
    | (expired) "index < length (ds_items s)" "si_deadline (ds_items s ! index) \<le> now"
    | (kept) "index < length (ds_items s)" "\<not> si_deadline (ds_items s ! index) \<le> now"
    by blast
  then show ?case
  proof cases
    case stop
    then have "\<And>x. x \<in># queue s \<Longrightarrow> live now x"
      using "1.prems" by (auto simp: queue_def in_set_conv_nth)
    then have "filter_mset (live now) (queue s) = queue s"
      and "filter_mset (\<lambda>x. \<not> live now x) (queue s) = {#}"
      by (auto simp: filter_mset_eq_conv intro: multiset_eqI)
    with stop show ?thesis
      by (subst (1 2) drop_expired_from.simps) simp
  next
    case expired
    let ?t = "remove_at index s"
    have "live now (ds_items ?t ! j)" if "j < index" "j < length (ds_items ?t)" for j
      using "1.prems" [of j] that expired
      by (simp add: swap_remove_def nth_butlast)
    note IH = "1.IH"(1) [OF expired this]
    have "queue s = add_mset (ds_items s ! index) (queue ?t)"
      using expired(1) by (rule queue_remove_at)
    moreover have "\<not> live now (ds_items s ! index)"
      using expired by (simp add: live_def)
    ultimately show ?thesis
      using IH expired by (subst (1 2) drop_expired_from.simps) simp
  next
    case kept
    have "live now (ds_items s ! j)" if "j < index + 1" "j < length (ds_items s)" for j
      using "1.prems" [of j] that kept by (cases "j = index") (auto simp: live_def)
    note IH = "1.IH"(2) [OF kept this]
    with kept show ?thesis
      by (subst (1 2) drop_expired_from.simps) simp
  qed
qed

lemma drop_expired_spec:
  "queue (fst (drop_expired s now)) = filter_mset (live now) (queue s)"
  "snd (drop_expired s now) = size (filter_mset (\<lambda>x. \<not> live now x) (queue s))"
  using drop_expired_from_queue [of 0 s now 0] by (simp_all add: drop_expired_def)

lemma drop_expired_inv: "sched_inv s \<Longrightarrow> sched_inv (fst (drop_expired s now))"
  by (simp add: drop_expired_def drop_expired_from_inv)

lemma drop_expired_caps [simp]:
  "ds_max_items (fst (drop_expired s now)) = ds_max_items s"
  "ds_max_bytes (fst (drop_expired s now)) = ds_max_bytes s"
  by (simp_all add: drop_expired_def)

lemma size_queue: "size (queue s) = length (ds_items s)"
  by (simp add: queue_def)

lemma bytes_queue: "bytes_exact s \<Longrightarrow> unat (ds_queued_bytes s) = (\<Sum>x\<in>#queue s. item_bytes x)"
  by (simp add: bytes_exact_def queue_def sum_mset_sum_list flip: mset_map)

lemma overfull_iff:
  assumes "sched_inv s"
  shows "overfull s item \<longleftrightarrow> ds_max_items s \<le> size (queue s)
    \<or> unat (ds_max_bytes s) < (\<Sum>x\<in>#queue s. item_bytes x) + item_bytes item"
proof -
  have "unat (ds_max_bytes s) < 2 ^ 64 - 1"
    using assms unat_mono [of "ds_max_bytes s" "- 1"]
    by (simp add: sched_inv_def unsigned_minus_1_eq_mask mask_eq_exp_minus_1)
  then have "saturating_add (ds_queued_bytes s) (si_payload_bytes item) > ds_max_bytes s \<longleftrightarrow>
      unat (ds_max_bytes s) < unat (ds_queued_bytes s) + item_bytes item"
    by (simp add: word_less_nat_alt unat_saturating_add item_bytes_def min_def)
  with assms show ?thesis
    by (simp add: overfull_def size_queue bytes_queue sched_inv_def)
qed

lemma find_victim_max:
  assumes "find_victim s item = Some i"
  shows "y \<in># queue s \<Longrightarrow> less_urgent item y \<Longrightarrow> sched_key y \<le> sched_key (ds_items s ! i)"
proof -
  assume "y \<in># queue s" and less: "less_urgent item y"
  then obtain j where "j < length (ds_items s)" and y: "y = ds_items s ! j"
    by (auto simp: queue_def in_set_conv_nth)
  then have j: "(j, y) \<in> set (filter (\<lambda>(_, queued). rank (si_class queued) > rank (si_class item))
      (enumerate 0 (ds_items s)))"
    using less by (simp add: in_set_enumerate_0 less_urgent_def)
  obtain v where v: "max_by_key (sched_key \<circ> snd)
      (filter (\<lambda>(_, queued). rank (si_class queued) > rank (si_class item))
        (enumerate 0 (ds_items s))) = Some (i, v)"
    using assms by (auto simp: find_victim_def)
  then have "v = ds_items s ! i"
    by (auto dest!: max_by_key_in simp: in_set_enumerate_0)
  with max_by_key_ge [OF v j] show ?thesis by simp
qed

lemma find_victim_None:
  "find_victim s item = None \<longleftrightarrow> (\<forall>y\<in>#queue s. \<not> less_urgent item y)"
proof -
  have "set (ds_items s) = snd ` set (enumerate 0 (ds_items s))"
    by (metis list.set_map map_snd_enumerate)
  then show ?thesis
    by (auto simp: find_victim_def filter_empty_conv queue_def less_urgent_def)
qed

text \<open>
  What the eviction loop removes, from \<open>s\<close> to \<open>t\<close>: only less urgent items, and never one
  with a smaller key than a less urgent item it keeps.
\<close>

definition evicts :: "scheduled_item \<Rightarrow> deadline_scheduler \<Rightarrow> scheduled_item multiset
    \<Rightarrow> deadline_scheduler \<Rightarrow> bool" where
  "evicts item s E t \<longleftrightarrow> queue s = queue t + E \<and> (\<forall>x\<in>#E. less_urgent item x
     \<and> (\<forall>y\<in>#queue t. less_urgent item y \<longrightarrow> sched_key y \<le> sched_key x))
     \<and> ds_max_items t = ds_max_items s \<and> ds_max_bytes t = ds_max_bytes s"

lemma evicts_refl: "evicts item s {#} s"
  by (simp add: evicts_def)

lemma evicts_remove_at:
  assumes "find_victim s item = Some i" and "evicts item (remove_at i s) E t"
  shows "evicts item s (add_mset (ds_items s ! i) E) t"
proof -
  have q: "queue s = add_mset (ds_items s ! i) (queue (remove_at i s))"
    using find_victim_less [OF assms(1)] by (simp add: queue_remove_at)
  then have "\<forall>y\<in>#queue t. y \<in># queue s"
    using assms(2) by (auto simp: evicts_def)
  with find_victim_less [OF assms(1)] find_victim_max [OF assms(1)] assms(2) q
  show ?thesis
    by (simp add: evicts_def less_urgent_def)
qed

lemma evict_for_spec:
  assumes "sched_inv s"
  shows "\<exists>E. evicts item s E (fst (evict_for item evicted s))
    \<and> sched_inv (fst (evict_for item evicted s))
    \<and> (case snd (evict_for item evicted s) of
         None \<Rightarrow> overfull (fst (evict_for item evicted s)) item
           \<and> (\<forall>y\<in>#queue (fst (evict_for item evicted s)). \<not> less_urgent item y)
       | Some n \<Rightarrow> n = evicted + size E \<and> \<not> overfull (fst (evict_for item evicted s)) item)"
  using assms
proof (induction item evicted s rule: evict_for.induct)
  case (1 item evicted s)
  consider (fits) "\<not> overfull s item"
    | (stuck) "overfull s item" "find_victim s item = None"
    | (evict) i where "overfull s item" "find_victim s item = Some i"
    by (cases "find_victim s item") auto
  then show ?case
  proof cases
    case fits
    then have "evict_for item evicted s = (s, Some evicted)"
      by (simp add: evict_for.simps)
    with fits "1.prems" evicts_refl show ?thesis by fastforce
  next
    case stuck
    then have "evict_for item evicted s = (s, None)"
      by (simp add: evict_for.simps)
    with stuck "1.prems" evicts_refl show ?thesis
      by (auto simp: find_victim_None)
  next
    case evict
    have "sched_inv (remove_at i s)"
      using "1.prems" find_victim_less [OF evict(2)] by (simp add: sched_inv_remove_at)
    note IH = "1.IH" [OF evict this]
    have "evict_for item evicted s = evict_for item (evicted + 1) (remove_at i s)"
      using evict by (subst evict_for.simps) simp
    with IH evicts_remove_at [OF evict(2)] show ?thesis
      by (fastforce split: option.splits)
  qed
qed

section \<open>Behaviour of push, pop and peek\<close>

lemma sum_mset_item_bytes_add [simp]:
  "(\<Sum>x\<in>#A + B. item_bytes x) = (\<Sum>x\<in>#A. item_bytes x) + (\<Sum>x\<in>#B. item_bytes x)"
  by simp

lemma sched_inv_append:
  assumes "sched_inv s" and "\<not> overfull s item"
  shows "sched_inv (s\<lparr>ds_queued_bytes := ds_queued_bytes s + si_payload_bytes item,
                ds_items := ds_items s @ [item]\<rparr>)"
proof -
  have fit: "unat (ds_queued_bytes s) + unat (si_payload_bytes item) \<le> unat (ds_max_bytes s)"
    using assms bytes_queue [of s]
    by (simp add: overfull_iff item_bytes_def sched_inv_def)
  then have "unat (ds_queued_bytes s + si_payload_bytes item)
      = unat (ds_queued_bytes s) + unat (si_payload_bytes item)"
    using unsigned_less [of "ds_max_bytes s", where 'a = nat]
    by (intro unat_add_lem [THEN iffD1]) simp
  with assms fit show ?thesis
    by (simp add: sched_inv_def bytes_exact_def overfull_def item_bytes_def word_le_nat_alt)
qed

text \<open>The complete behaviour of \<open>push\<close>, on the multiset of queued items.\<close>

lemma push_cases [consumes 1, case_names oversize full inserted]:
  assumes "sched_inv s"
  obtains (oversize) "ds_max_bytes s < si_payload_bytes item" "push s item now = (s, RejectedOversize)"
  | (full) t E where "si_payload_bytes item \<le> ds_max_bytes s"
      "evicts item (fst (drop_expired s now)) E t" "sched_inv t" "overfull t item"
      "\<forall>y\<in>#queue t. \<not> less_urgent item y" "push s item now = (t, RejectedCapacity)"
  | (inserted) t E where "si_payload_bytes item \<le> ds_max_bytes s"
      "evicts item (fst (drop_expired s now)) E t" "sched_inv t" "\<not> overfull t item"
      "push s item now = (t\<lparr>ds_queued_bytes := ds_queued_bytes t + si_payload_bytes item,
                ds_items := ds_items t @ [item]\<rparr>,
         Inserted (snd (drop_expired s now) + size E))"
proof (cases "ds_max_bytes s < si_payload_bytes item")
  case True
  then show ?thesis by (intro oversize) (simp_all add: push_def)
next
  case False
  obtain s1 n where d: "drop_expired s now = (s1, n)" by fastforce
  obtain t r where e: "evict_for item n s1 = (t, r)" by fastforce
  have "sched_inv s1" using drop_expired_inv [OF assms, of now] d by simp
  from evict_for_spec [OF this, of item n] obtain E where
    spec: "evicts item s1 E t" "sched_inv t"
      "case r of None \<Rightarrow> overfull t item \<and> (\<forall>y\<in>#queue t. \<not> less_urgent item y)
       | Some k \<Rightarrow> k = n + size E \<and> \<not> overfull t item"
    unfolding e fst_conv snd_conv by blast
  show ?thesis
    using False d e spec full [of E t] inserted [of E t]
    by (cases r) (simp_all add: push_def not_less)
qed

lemma push_inv:
  assumes "sched_inv s"
  shows "sched_inv (fst (push s item now)) \<and> ds_max_items (fst (push s item now)) = ds_max_items s
    \<and> ds_max_bytes (fst (push s item now)) = ds_max_bytes s"
  by (cases rule: push_cases [OF assms, of item now])
    (use assms in \<open>auto simp: sched_inv_append evicts_def\<close>)

lemma pop_next_cases [case_names empty popped]:
  obtains (empty) "queue (fst (drop_expired s now)) = {#}"
      "pop_next s now = (fst (drop_expired s now), None)"
  | (popped) i where "i < length (ds_items (fst (drop_expired s now)))"
      "\<forall>y\<in>#queue (fst (drop_expired s now)).
         sched_key (ds_items (fst (drop_expired s now)) ! i) \<le> sched_key y"
      "pop_next s now = (remove_at i (fst (drop_expired s now)),
         Some (ds_items (fst (drop_expired s now)) ! i))"
proof -
  let ?s1 = "fst (drop_expired s now)"
  let ?m = "min_by_key (sched_key \<circ> snd) (enumerate 0 (ds_items ?s1))"
  show ?thesis
  proof (cases ?m)
    case None
    then have "ds_items ?s1 = []" by (simp flip: length_0_conv)
    with None show ?thesis by (intro empty) (simp_all add: pop_next_def queue_def Let_def min_by_key_def)
  next
    case (Some p)
    then obtain i where m: "?m = Some (i, ds_items ?s1 ! i)" and i: "i < length (ds_items ?s1)"
      using min_by_key_in [OF Some] by (cases p) (auto simp: in_set_enumerate_0)
    have least: "sched_key (ds_items ?s1 ! i) \<le> sched_key y" if y: "y \<in># queue ?s1" for y
    proof -
      from y obtain j where "j < length (ds_items ?s1)" "y = ds_items ?s1 ! j"
        by (auto simp: queue_def in_set_conv_nth)
      then have "(j, y) \<in> set (enumerate 0 (ds_items ?s1))"
        by (simp add: in_set_enumerate_0)
      from min_by_key_le [OF m this] show ?thesis by simp
    qed
    have "pop_next s now = (remove_at i ?s1, Some (ds_items ?s1 ! i))"
      by (simp add: pop_next_def Let_def m)
    with i least show ?thesis by (intro popped [of i]) simp_all
  qed
qed

lemma pop_next_inv:
  assumes "sched_inv s"
  shows "sched_inv (fst (pop_next s now)) \<and> ds_max_items (fst (pop_next s now)) = ds_max_items s
    \<and> ds_max_bytes (fst (pop_next s now)) = ds_max_bytes s"
  using drop_expired_inv [OF assms, of now]
  by (cases rule: pop_next_cases [of s now]) (simp_all add: sched_inv_remove_at)

definition sched_bounded :: "nat \<Rightarrow> usize \<Rightarrow> deadline_scheduler \<Rightarrow> bool" where
  "sched_bounded m b s \<longleftrightarrow> sched_inv s \<and> ds_max_items s = m \<and> ds_max_bytes s = b"

interpretation sched: machine_invariant sched_step "sched_bounded m b" for m b
proof
  show "sched_bounded m b (fst (sched_step s c))" if "sched_bounded m b s" for s c
    using that push_inv pop_next_inv by (cases c) (auto simp: sched_bounded_def)
qed

lemma evicts_keeps:
  assumes "evicts item (fst (drop_expired s now)) E t"
  shows "filter_mset (\<lambda>x. live now x \<and> \<not> less_urgent item x) (queue s)
    = filter_mset (\<lambda>x. \<not> less_urgent item x) (queue t)"
proof -
  have q: "filter_mset (live now) (queue s) = queue t + E"
    using assms by (simp add: evicts_def drop_expired_spec)
  have E: "filter_mset (\<lambda>x. \<not> less_urgent item x) E = {#}"
    using assms by (auto simp: evicts_def)
  have "filter_mset (\<lambda>x. live now x \<and> \<not> less_urgent item x) (queue s)
      = filter_mset (\<lambda>x. \<not> less_urgent item x) (filter_mset (live now) (queue s))"
    by (simp add: filter_filter_mset conj_commute)
  with E show ?thesis unfolding q by simp
qed

section \<open>Properties\<close>

lemmas sched_eval = push_def drop_expired_def drop_expired_from.simps remove_at_def
  swap_remove_def evict_for.simps overfull_def saturating_add_def find_victim_def max_by_key_def
  sched_key_def Let_def

lemma sched_bounded_new:
  "new_scheduler m b = Some s \<Longrightarrow> b < - 1 \<Longrightarrow> sched_bounded m b s"
  by (auto simp: new_scheduler_def sched_bounded_def sched_inv_def bytes_exact_def
      split: if_splits)

text \<open>
  C32: after any history of pushes and pops, a scheduler created with caps \<open>m\<close> and \<open>b\<close> (\<open>b\<close> below
  \<open>usize::MAX\<close>) holds at most \<open>m\<close> items and at most \<open>b\<close> bytes, and its byte counter is exactly
  the sum of the queued payload sizes: no subtraction underflows and no addition wraps.
\<close>

theorem scheduler_caps_hold:
  assumes "new_scheduler m b = Some s0" and "b < - 1"
  shows "length (ds_items (fst (run sched_step s0 cs))) \<le> m
    \<and> ds_queued_bytes (fst (run sched_step s0 cs)) \<le> b
    \<and> unat (ds_queued_bytes (fst (run sched_step s0 cs)))
        = (\<Sum>x\<leftarrow>ds_items (fst (run sched_step s0 cs)). unat (si_payload_bytes x))"
proof -
  have "sched_bounded m b (fst (run sched_step s0 cs))"
    using sched_bounded_new [OF assms] by (rule sched.run_inv)
  then show ?thesis
    by (auto simp: sched_bounded_def sched_inv_def bytes_exact_def item_bytes_def comp_def
        cong: map_cong)
qed

theorem scheduler_caps_hold_witness:
  "length (ds_items (fst (run sched_step
     \<lparr>ds_max_items = 2, ds_max_bytes = 100, ds_queued_bytes = 0, ds_items = []\<rparr>
     [Push \<lparr>si_id = 1, si_class = PcAudio, si_deadline = 9, si_payload_bytes = 60\<rparr> 0,
      Push \<lparr>si_id = 2, si_class = PcInput, si_deadline = 5, si_payload_bytes = 60\<rparr> 1]))) \<le> 2"
  by (rule scheduler_caps_hold [of 2 100, THEN conjunct1]) (simp_all add: new_scheduler_def)

text \<open>
  C33: \<open>pop_next\<close> returns nothing exactly when no unexpired item is queued; otherwise it returns an
  unexpired item whose (class, deadline, identifier) key is least among all unexpired items, and
  what stays queued is every other unexpired item, each as often as before.
\<close>

theorem pop_next_most_urgent:
  "case snd (pop_next s now) of
     None \<Rightarrow> filter_mset (live now) (queue s) = {#} \<and> queue (fst (pop_next s now)) = {#}
   | Some x \<Rightarrow> live now x
       \<and> (\<forall>y. y \<in># queue s \<longrightarrow> live now y \<longrightarrow> sched_key x \<le> sched_key y)
       \<and> filter_mset (live now) (queue s) = add_mset x (queue (fst (pop_next s now)))"
proof (cases rule: pop_next_cases [of s now])
  case empty
  then show ?thesis by (simp add: drop_expired_spec)
next
  case (popped i)
  let ?x = "ds_items (fst (drop_expired s now)) ! i"
  have q: "filter_mset (live now) (queue s) = add_mset ?x (queue (fst (pop_next s now)))"
    using queue_remove_at [OF popped(1)] popped(3) by (simp add: drop_expired_spec)
  moreover have "live now ?x"
    using arg_cong [OF q, of "\<lambda>M. ?x \<in># M"] by simp
  moreover have "sched_key ?x \<le> sched_key y" if "y \<in># queue s" "live now y" for y
    using popped(2) that by (simp add: drop_expired_spec)
  ultimately show ?thesis
    using popped(3) by simp
qed

theorem pop_next_most_urgent_witness:
  "snd (pop_next \<lparr>ds_max_items = 3, ds_max_bytes = 100, ds_queued_bytes = 60, ds_items =
      [\<lparr>si_id = 1, si_class = PcAudio, si_deadline = 9, si_payload_bytes = 20\<rparr>,
       \<lparr>si_id = 2, si_class = PcInput, si_deadline = 3, si_payload_bytes = 20\<rparr>,
       \<lparr>si_id = 3, si_class = PcControl, si_deadline = 8, si_payload_bytes = 20\<rparr>]\<rparr> 4)
     = Some \<lparr>si_id = 3, si_class = PcControl, si_deadline = 8, si_payload_bytes = 20\<rparr>"
  (is "snd (pop_next ?s 4) = Some ?x")
proof (cases "snd (pop_next ?s 4)")
  case None
  with pop_next_most_urgent [where s = ?s and now = 4] show ?thesis by (simp add: queue_def live_def)
next
  case (Some y)
  with pop_next_most_urgent [where s = ?s and now = 4] show ?thesis
    by (auto simp: queue_def live_def sched_key_def add_eq_conv_ex add_mset_eq_single
        dest!: spec [of _ ?x])
qed

text \<open>
  When \<open>push\<close> inserts, the new queue is the unexpired part of the old one plus the item, less a
  multiset of evicted items. Every evicted item belongs to a strictly less urgent class and no
  less urgent item with a larger key stays behind: the least urgent work goes first. The reported
  count is the number of expired plus the number of evicted items.
\<close>

theorem push_evicts_least_urgent:
  assumes "sched_inv s" and "push s item now = (t, Inserted n)"
  shows "\<exists>E. add_mset item (filter_mset (live now) (queue s)) = queue t + E
    \<and> (\<forall>x\<in>#E. less_urgent item x
         \<and> (\<forall>y\<in>#queue t - {#item#}. less_urgent item y \<longrightarrow> sched_key y \<le> sched_key x))
    \<and> n = size (filter_mset (\<lambda>x. \<not> live now x) (queue s)) + size E"
  using assms
proof (cases rule: push_cases [of s item now])
  case (inserted u E)
  then have t: "queue t = add_mset item (queue u)"
      and n: "n = size (filter_mset (\<lambda>x. \<not> live now x) (queue s)) + size E"
    using assms(2) by (auto simp: queue_def drop_expired_spec)
  with inserted(2) show ?thesis
    by (intro exI [of _ E]) (auto simp: evicts_def drop_expired_spec)
qed (use assms in simp_all)

theorem push_evicts_least_urgent_witness:
  "\<exists>E. queue \<lparr>ds_max_items = 1, ds_max_bytes = 100, ds_queued_bytes = 20, ds_items =
         [\<lparr>si_id = 2, si_class = PcInput, si_deadline = 9, si_payload_bytes = 20\<rparr>]\<rparr> + E
     = {#\<lparr>si_id = 1, si_class = PcAudio, si_deadline = 9, si_payload_bytes = 30\<rparr>,
         \<lparr>si_id = 2, si_class = PcInput, si_deadline = 9, si_payload_bytes = 20\<rparr>#}
     \<and> size E = 1"
proof -
  let ?a = "\<lparr>si_id = 1, si_class = PcAudio, si_deadline = 9, si_payload_bytes = 30\<rparr>"
  let ?i = "\<lparr>si_id = 2, si_class = PcInput, si_deadline = 9, si_payload_bytes = 20\<rparr>"
  let ?s = "\<lparr>ds_max_items = 1, ds_max_bytes = 100, ds_queued_bytes = 30, ds_items = [?a]\<rparr>"
  have "sched_inv ?s" by (simp add: sched_inv_def bytes_exact_def item_bytes_def)
  moreover have "push ?s ?i 0 =
      (\<lparr>ds_max_items = 1, ds_max_bytes = 100, ds_queued_bytes = 20, ds_items = [?i]\<rparr>, Inserted 1)"
    by (simp add: sched_eval)
  ultimately show ?thesis
    using push_evicts_least_urgent [of ?s ?i 0]
    by (fastforce simp: queue_def live_def add_mset_commute)
qed

text \<open>
  \<open>push\<close> answers \<open>RejectedCapacity\<close> exactly when the item is within the byte cap but the unexpired
  items of the same or a more urgent class alone leave no room for it: eviction of less urgent
  work is tried to the end before an item is refused.
\<close>

theorem push_rejects_iff_urgent_work_fills:
  fixes s item now
  defines "K \<equiv> filter_mset (\<lambda>x. live now x \<and> \<not> less_urgent item x) (queue s)"
  assumes "sched_inv s"
  shows "snd (push s item now) = RejectedCapacity \<longleftrightarrow>
    si_payload_bytes item \<le> ds_max_bytes s
    \<and> (ds_max_items s \<le> size K
       \<or> unat (ds_max_bytes s) < (\<Sum>x\<in>#K. unat (si_payload_bytes x)) + unat (si_payload_bytes item))"
proof -
  have over: "overfull t item \<longleftrightarrow> ds_max_items s \<le> size (queue t)
      \<or> unat (ds_max_bytes s)
          < (\<Sum>x\<in>#queue t. unat (si_payload_bytes x)) + unat (si_payload_bytes item)"
    if "evicts item (fst (drop_expired s now)) E t" "sched_inv t" for t E
    using that overfull_iff [of t item] by (simp add: evicts_def item_bytes_def [abs_def])
  have K: "K = filter_mset (\<lambda>x. \<not> less_urgent item x) (queue t)"
    if "evicts item (fst (drop_expired s now)) E t" for t E
    unfolding K_def using that by (rule evicts_keeps)
  show ?thesis
    using assms(2)
  proof (cases rule: push_cases [of s item now])
    case oversize
    then show ?thesis by (simp add: not_le [symmetric])
  next
    case (full t E)
    have "K = queue t"
      using K [OF full(2)] full(5) by (simp add: filter_mset_eq_conv)
    with full(1,4,6) over [OF full(2,3)] show ?thesis by simp
  next
    case (inserted t E)
    have "queue t = K + filter_mset (less_urgent item) (queue t)"
      unfolding K [OF inserted(2)] by (subst multiset_partition [of "queue t" "less_urgent item"]) simp
    then have "size K \<le> size (queue t)"
      and "(\<Sum>x\<in>#K. unat (si_payload_bytes x)) \<le> (\<Sum>x\<in>#queue t. unat (si_payload_bytes x))"
      by (metis size_union le_add1, metis image_mset_union le_add1 sum_mset.union)
    with inserted(4,5) over [OF inserted(2,3)] show ?thesis by auto
  qed
qed

theorem push_rejects_iff_urgent_work_fills_witness:
  "snd (push \<lparr>ds_max_items = 1, ds_max_bytes = 100, ds_queued_bytes = 30, ds_items =
        [\<lparr>si_id = 1, si_class = PcControl, si_deadline = 9, si_payload_bytes = 30\<rparr>]\<rparr>
      \<lparr>si_id = 2, si_class = PcControl, si_deadline = 9, si_payload_bytes = 20\<rparr> 0)
    = RejectedCapacity"
  by (subst push_rejects_iff_urgent_work_fills)
    (simp_all add: sched_inv_def bytes_exact_def item_bytes_def queue_def live_def less_urgent_def)

text \<open>
  Whatever \<open>push\<close> answers, no unexpired item of the same or a more urgent class than the pushed
  one is lost; in particular \<open>Input\<close> items only ever leave the queue by being served or expiring.
\<close>

theorem push_keeps_urgent_work:
  assumes "sched_inv s"
  shows "filter_mset (\<lambda>x. live now x \<and> (si_class x = PcInput \<or> \<not> less_urgent item x)) (queue s)
    \<subseteq># queue (fst (push s item now))"
proof -
  have "(live now x \<and> (si_class x = PcInput \<or> \<not> less_urgent item x))
      = (live now x \<and> \<not> less_urgent item x)" for x
    by (auto simp: less_urgent_def)
  then have sub: "filter_mset (\<lambda>x. live now x \<and> (si_class x = PcInput \<or> \<not> less_urgent item x)) (queue s)
      \<subseteq># queue t"
    if "evicts item (fst (drop_expired s now)) E t" for t E
    using evicts_keeps [OF that] by simp
  show ?thesis
    using assms
  proof (cases rule: push_cases [of s item now])
    case (inserted t E)
    have "queue t \<subseteq># queue (fst (push s item now))"
      using inserted(5) by (simp add: queue_def)
    with sub [OF inserted(2)] show ?thesis by (rule subset_mset.order_trans)
  qed (use sub in auto)
qed

theorem push_keeps_urgent_work_witness:
  "{#\<lparr>si_id = 1, si_class = PcInput, si_deadline = 9, si_payload_bytes = 30\<rparr>#} \<subseteq>#
   queue (fst (push \<lparr>ds_max_items = 1, ds_max_bytes = 100, ds_queued_bytes = 30, ds_items =
        [\<lparr>si_id = 1, si_class = PcInput, si_deadline = 9, si_payload_bytes = 30\<rparr>]\<rparr>
      \<lparr>si_id = 2, si_class = PcControl, si_deadline = 9, si_payload_bytes = 20\<rparr> 0))"
  using push_keeps_urgent_work [of "\<lparr>ds_max_items = 1, ds_max_bytes = 100, ds_queued_bytes = 30,
      ds_items = [\<lparr>si_id = 1, si_class = PcInput, si_deadline = 9, si_payload_bytes = 30\<rparr>]\<rparr>" 0
      "\<lparr>si_id = 2, si_class = PcControl, si_deadline = 9, si_payload_bytes = 20\<rparr>"]
  by (simp add: sched_inv_def bytes_exact_def item_bytes_def queue_def live_def)

lemma min_by_key_unique:
  assumes "min_by_key k xs = Some a" "b \<in> set xs" "\<And>x. x \<in> set xs \<Longrightarrow> k b \<le> k x"
  shows "k a = k b"
  using assms min_by_key_in [OF assms(1)] min_by_key_le [OF assms(1)] by (meson order_antisym)

text \<open>
  \<open>peek\<close>, which may not mutate the queue, sees the item that \<open>pop_next\<close> would return at the same
  instant: they agree on emptiness and on the (class, deadline, identifier) key.
\<close>

theorem peek_agrees_with_pop_next:
  "map_option sched_key (peek s now) = map_option sched_key (snd (pop_next s now))"
proof -
  have set: "set (filter (\<lambda>x. now < si_deadline x) (ds_items s))
      = set_mset (queue (fst (drop_expired s now)))"
    by (simp only: drop_expired_spec) (simp add: live_def queue_def)
  show ?thesis
  proof (cases rule: pop_next_cases [of s now])
    case empty
    then have "filter (\<lambda>x. now < si_deadline x) (ds_items s) = []"
      using set by (metis set_empty set_mset_empty)
    with empty show ?thesis by (simp add: peek_def min_by_key_def)
  next
    case (popped i)
    let ?x = "ds_items (fst (drop_expired s now)) ! i"
    have in_q: "?x \<in> set (filter (\<lambda>x. now < si_deadline x) (ds_items s))"
      using popped(1) by (simp only: set) (simp add: queue_def)
    then obtain a where a: "peek s now = Some a"
      unfolding peek_def by (metis empty_iff list.set(1) min_by_key_None not_Some_eq)
    have "sched_key a = sched_key ?x"
      using a popped(2) in_q set
      by (intro min_by_key_unique [of sched_key "filter (\<lambda>x. now < si_deadline x) (ds_items s)"])
        (auto simp: peek_def)
    with a popped(3) show ?thesis by simp
  qed
qed

text \<open>
  Two corner behaviours of \<open>push\<close>. With the cap at \<open>usize::MAX\<close> the byte counter wraps; and a push
  that is refused may already have evicted less urgent work.
\<close>

lemma push_wraps_at_max_cap:
  "ds_queued_bytes (fst (run sched_step
     \<lparr>ds_max_items = 2, ds_max_bytes = - 1, ds_queued_bytes = 0, ds_items = []\<rparr>
     [Push \<lparr>si_id = 1, si_class = PcInput, si_deadline = 9, si_payload_bytes = - 1\<rparr> 0,
      Push \<lparr>si_id = 2, si_class = PcInput, si_deadline = 9, si_payload_bytes = 1\<rparr> 0])) = 0"
  by (simp add: sched_eval)

lemma push_rejected_after_evicting:
  "push \<lparr>ds_max_items = 4, ds_max_bytes = 100, ds_queued_bytes = 100, ds_items =
       [\<lparr>si_id = 1, si_class = PcInput, si_deadline = 9, si_payload_bytes = 90\<rparr>,
        \<lparr>si_id = 2, si_class = PcAudio, si_deadline = 9, si_payload_bytes = 10\<rparr>]\<rparr>
     \<lparr>si_id = 3, si_class = PcControl, si_deadline = 9, si_payload_bytes = 50\<rparr> 0
   = (\<lparr>ds_max_items = 4, ds_max_bytes = 100, ds_queued_bytes = 90, ds_items =
       [\<lparr>si_id = 1, si_class = PcInput, si_deadline = 9, si_payload_bytes = 90\<rparr>]\<rparr>,
      RejectedCapacity)"
  by (simp add: sched_eval)

end
