(* ===== verification/Wire_Error.thy ===== *)
theory Wire_Error
  imports Contracts
begin

text \<open>
  The failure values of the wire parsers, \<^verbatim>\<open>ProtocolError\<close> of
  \<^verbatim>\<open>crates/protocol/src/lib.rs\<close>, and the stream lanes of
  \<^verbatim>\<open>crates/protocol/src/quic.rs\<close> that two of them carry. The variants of the one flat enum are
  kept, in its order, in four groups (framing, session, candidate, service): a single type of
  that many constructors is impractical. Lengths (\<open>usize\<close>) are natural numbers.
\<close>

datatype stream_kind = LaneControl | LaneInput

datatype (plugins only: code) framing_error =
  Truncated nat nat
| BadMagic
| UnsupportedVersion u8
| UnknownMediaKind u8
| UnknownStreamKind u8
| UnknownControlKind u8
| UnknownInputAckStatus u8
| UnknownVideoStreamFlags u32
| ConflictingIceSignalingModes
| IceProbeRequiresCredentials
| UnknownFlags u16
| UnknownControlFlags u16
| ReservedBits
| FrameLength u32
| FragmentLength u16
| FragmentRange
| PacketLength
| PayloadLength nat nat
| ControlLength u32
| StreamPayloadLength stream_kind nat nat
| StreamKindMismatch stream_kind stream_kind

datatype (plugins only: code) session_error =
  InvalidSessionStamp
| InactiveInputStamp
| InactiveMediaStamp
| InvalidMediaStreamId
| MediaEpochMismatch u32 u32
| ExpiredMediaDatagram
| KeyframeHasDependency
| InvalidDependency u64 u64
| InvalidRecoveryRange
| UnsupportedCodecContract u16
| InvalidCodecCapabilities u16
| UnknownVideoCodec u8
| UnknownVideoProfile u8
| InvalidVideoProfile
| InvalidVideoGeometry
| InvalidHandshake
| InvalidInputAck
| ReplayedPacket u64
| StaleEpoch u32 u32
| NonMonotonicEpoch u32 u32
| InvalidMtu u16
| AuthenticationFailed

datatype (plugins only: code) candidate_error =
  InvalidCandidateType u8
| InvalidTransportProtocol u8
| InvalidRelayProvider u8
| InvalidRelayHeader
| InvalidCandidateRelayProvider
| InvalidCandidatePriority
| InvalidCandidatePort
| InvalidCandidateComponent
| InvalidCandidateAddress
| InvalidCandidateExchangeId
| InvalidCandidateGeneration
| CandidateExchangeCount nat
| CandidateExchangeLength nat
| DuplicateCandidate
| MixedCandidateAddressFamily
| UnsupportedCandidateTransport
| UnsupportedCandidateType
| RelatedCandidateAddressFamily

datatype (plugins only: code) service_error =
  InvalidIceCredentialExchangeId
| InvalidIceCredentialGeneration
| InvalidIceCredentialRole u8
| InvalidIceCredentialUfrag
| InvalidIceCredentialPassword
| InvalidIceCredentialCharset
| InvalidIceProbeStage u8
| InvalidIceProbeMessage
| InvalidRouteTransitionStage u8
| InvalidRouteTransition
| InvalidRendezvousRole u8
| InvalidRendezvousRegistration
| RendezvousLength nat
| InvalidDisconnectReason u8
| InvalidDisconnectMessage
| InvalidUnattendedToken

datatype protocol_error =
  Framing framing_error
| Session session_error
| Candidate candidate_error
| Service service_error

definition WIRE_VERSION :: u8 where
  "WIRE_VERSION = 2"

end
