(* ===== verification/Media_Wire.thy ===== *)
theory Media_Wire
  imports Wire_Error
begin

text \<open>
  The media fragment header and datagram of \<^verbatim>\<open>crates/protocol/src/lib.rs\<close>
  (\<^verbatim>\<open>MediaKind\<close>, \<^verbatim>\<open>MediaHeader\<close>, \<^verbatim>\<open>MediaPacket\<close>). The encoder writes every field at a fixed
  offset of a zeroed array: the model concatenates the fields in that order, the reserved zero
  bytes included. The decoder reads at the offsets of the source.
\<close>

section \<open>Data\<close>

definition MEDIA_HEADER_LEN :: nat where
  "MEDIA_HEADER_LEN = 44"

definition MAX_FRAME_BYTES :: u32 where
  "MAX_FRAME_BYTES = 16 * 1024 * 1024"

definition MAX_FRAGMENT_BYTES :: u16 where
  "MAX_FRAGMENT_BYTES = 16 * 1024"

definition NO_DEPENDENCY :: u64 where
  "NO_DEPENDENCY = - 1"

definition MEDIA_MAGIC :: bytes where
  "MEDIA_MAGIC = [0x4C, 0x44, 0x53, 0x4B]"

datatype media_kind = MkVideo | MkTile | MkCursor | MkAudio

fun media_kind_code :: "media_kind \<Rightarrow> u8" where
  "media_kind_code MkVideo = 1"
| "media_kind_code MkTile = 2"
| "media_kind_code MkCursor = 3"
| "media_kind_code MkAudio = 4"

definition media_kind_try_from :: "u8 \<Rightarrow> protocol_error + media_kind" where
  "media_kind_try_from b =
     (if b = 1 then Ok MkVideo else if b = 2 then Ok MkTile
      else if b = 3 then Ok MkCursor else if b = 4 then Ok MkAudio
      else Err (Framing (UnknownMediaKind b)))"

definition FLAG_KEYFRAME :: u16 where
  "FLAG_KEYFRAME = push_bit 0 1"

definition FLAG_DISCARDABLE :: u16 where
  "FLAG_DISCARDABLE = push_bit 1 1"

definition FLAG_LOSSLESS :: u16 where
  "FLAG_LOSSLESS = push_bit 2 1"

definition FLAG_PARITY :: u16 where
  "FLAG_PARITY = push_bit 3 1"

definition KNOWN_MASK :: u16 where
  "KNOWN_MASK = FLAG_KEYFRAME OR FLAG_DISCARDABLE OR FLAG_LOSSLESS OR FLAG_PARITY"

record media_header =
  mh_kind :: media_kind
  mh_flags :: u16
  mh_stream_id :: u32
  mh_codec_epoch :: u32
  mh_frame_id :: u64
  mh_dependency_frame_id :: u64
  mh_frame_len :: u32
  mh_fragment_offset :: u32
  mh_fragment_len :: u16

record media_packet =
  mp_header :: media_header
  mp_payload :: bytes

section \<open>Operations\<close>

definition validate_media_header :: "media_header \<Rightarrow> protocol_error + unit" where
  "validate_media_header h =
     (if mh_flags h AND NOT KNOWN_MASK \<noteq> 0 then Err (Framing (UnknownFlags (mh_flags h)))
      else if mh_frame_len h = 0 \<or> mh_frame_len h > MAX_FRAME_BYTES
        then Err (Framing (FrameLength (mh_frame_len h)))
      else if mh_fragment_len h = 0 \<or> mh_fragment_len h > MAX_FRAGMENT_BYTES
        then Err (Framing (FragmentLength (mh_fragment_len h)))
      else case checked_add (mh_fragment_offset h) (ucast (mh_fragment_len h)) of
          None \<Rightarrow> Err (Framing FragmentRange)
        | Some end_offset \<Rightarrow>
            if mh_fragment_offset h \<ge> mh_frame_len h \<or> end_offset > mh_frame_len h
              then Err (Framing FragmentRange)
            else if mh_flags h AND FLAG_KEYFRAME \<noteq> 0
                \<and> mh_dependency_frame_id h \<noteq> NO_DEPENDENCY
              then Err (Session KeyframeHasDependency)
            else if mh_dependency_frame_id h \<noteq> NO_DEPENDENCY
                \<and> mh_dependency_frame_id h \<ge> mh_frame_id h
              then Err (Session (InvalidDependency (mh_frame_id h) (mh_dependency_frame_id h)))
            else Ok ())"

definition media_header_bytes :: "media_header \<Rightarrow> bytes" where
  "media_header_bytes h = MEDIA_MAGIC @ [WIRE_VERSION, media_kind_code (mh_kind h)]
     @ to_be_bytes (mh_flags h) @ to_be_bytes (mh_stream_id h) @ to_be_bytes (mh_codec_epoch h)
     @ to_be_bytes (mh_frame_id h) @ to_be_bytes (mh_dependency_frame_id h)
     @ to_be_bytes (mh_frame_len h) @ to_be_bytes (mh_fragment_offset h)
     @ to_be_bytes (mh_fragment_len h) @ [0, 0]"

definition encode_media_header :: "media_header \<Rightarrow> protocol_error + bytes" where
  "encode_media_header h = and_then (validate_media_header h) (\<lambda>_. Ok (media_header_bytes h))"

definition read_media_header :: "media_kind \<Rightarrow> bytes \<Rightarrow> media_header" where
  "read_media_header kind bs = \<lparr>mh_kind = kind, mh_flags = read_u16 bs 6,
     mh_stream_id = read_u32 bs 8, mh_codec_epoch = read_u32 bs 12, mh_frame_id = read_u64 bs 16,
     mh_dependency_frame_id = read_u64 bs 24, mh_frame_len = read_u32 bs 32,
     mh_fragment_offset = read_u32 bs 36, mh_fragment_len = read_u16 bs 40\<rparr>"

definition decode_media_header :: "bytes \<Rightarrow> protocol_error + media_header" where
  "decode_media_header bs =
     (if length bs < MEDIA_HEADER_LEN then Err (Framing (Truncated MEDIA_HEADER_LEN (length bs)))
      else if slice 0 4 bs \<noteq> MEDIA_MAGIC then Err (Framing BadMagic)
      else if bs ! 4 \<noteq> WIRE_VERSION then Err (Framing (UnsupportedVersion (bs ! 4)))
      else if bs ! 42 \<noteq> 0 \<or> bs ! 43 \<noteq> 0 then Err (Framing ReservedBits)
      else and_then (media_kind_try_from (bs ! 5)) (\<lambda>kind.
        let h = read_media_header kind bs in
        and_then (validate_media_header h) (\<lambda>_. Ok h)))"

definition decode_media_packet :: "bytes \<Rightarrow> protocol_error + media_packet" where
  "decode_media_packet datagram =
     and_then (decode_media_header datagram) (\<lambda>h.
       let expected = MEDIA_HEADER_LEN + unat (mh_fragment_len h) in
       if length datagram \<noteq> expected then Err (Framing (PayloadLength expected (length datagram)))
       else Ok \<lparr>mp_header = h, mp_payload = drop MEDIA_HEADER_LEN datagram\<rparr>)"

definition encode_media_packet :: "media_header \<Rightarrow> bytes \<Rightarrow> protocol_error + bytes" where
  "encode_media_packet h payload =
     (if length payload \<noteq> unat (mh_fragment_len h)
      then Err (Framing (PayloadLength (unat (mh_fragment_len h)) (length payload)))
      else and_then (encode_media_header h) (\<lambda>encoded_header. Ok (encoded_header @ payload)))"

section \<open>Agreement of encoder and decoder\<close>

lemma media_kind_code_inverse [wire_simps]: "media_kind_try_from (media_kind_code k) = Ok k"
  by (cases k) (simp_all add: media_kind_try_from_def)

lemma media_kind_try_from_Ok [wire_simps]:
  "media_kind_try_from b = Ok k \<longleftrightarrow> b = media_kind_code k"
  by (cases k) (auto simp: media_kind_try_from_def)

lemma length_media_header_bytes [simp]: "length (media_header_bytes h) = MEDIA_HEADER_LEN"
  by (simp add: media_header_bytes_def MEDIA_HEADER_LEN_def MEDIA_MAGIC_def)

lemma read_media_header_bytes:
  "read_media_header (mh_kind h) (media_header_bytes h @ payload) = h"
  by (simp add: read_media_header_def media_header_bytes_def read_u16_def read_u32_def read_u64_def
      MEDIA_MAGIC_def wire_simps)

lemma media_header_bytes_fixed:
  "slice 0 4 (media_header_bytes h @ payload) = MEDIA_MAGIC"
  "(media_header_bytes h @ payload) ! 4 = WIRE_VERSION"
  "(media_header_bytes h @ payload) ! 5 = media_kind_code (mh_kind h)"
  "(media_header_bytes h @ payload) ! 42 = 0"
  "(media_header_bytes h @ payload) ! 43 = 0"
  by (simp_all add: media_header_bytes_def MEDIA_MAGIC_def wire_simps nth_append nth_Cons')

lemma media_header_bytes_read:
  assumes "MEDIA_HEADER_LEN \<le> length bs" and "slice 0 4 bs = MEDIA_MAGIC"
    and "bs ! 4 = WIRE_VERSION" and "bs ! 42 = 0" and "bs ! 43 = 0"
    and "bs ! 5 = media_kind_code kind"
  shows "media_header_bytes (read_media_header kind bs) = take MEDIA_HEADER_LEN bs"
  using assms
  by (subst take_fields [of "[4, 1, 1, 2, 4, 4, 8, 8, 4, 4, 2, 1, 1]"])
    (simp_all add: media_header_bytes_def read_media_header_def to_be_read slice_1
      MEDIA_HEADER_LEN_def)

text \<open>The decoder accepts exactly the byte strings that start with a valid header's encoding.\<close>

lemma decode_media_header_iff:
  "decode_media_header bs = Ok h \<longleftrightarrow> MEDIA_HEADER_LEN \<le> length bs
     \<and> validate_media_header h = Ok () \<and> take MEDIA_HEADER_LEN bs = media_header_bytes h"
  (is "?dec \<longleftrightarrow> ?enc")
proof
  assume ?dec
  then have "MEDIA_HEADER_LEN \<le> length bs" "slice 0 4 bs = MEDIA_MAGIC" "bs ! 4 = WIRE_VERSION"
    "bs ! 42 = 0" "bs ! 43 = 0" and kind: "bs ! 5 = media_kind_code (mh_kind h)"
    and h: "h = read_media_header (mh_kind h) bs" and "validate_media_header h = Ok ()"
    by (auto simp: decode_media_header_def Let_def wire_simps read_media_header_def
        split: if_splits)
  with media_header_bytes_read [of bs "mh_kind h"] show ?enc by simp
next
  assume enc: ?enc
  then have "bs = media_header_bytes h @ drop MEDIA_HEADER_LEN bs"
    by (metis append_take_drop_id)
  then obtain payload where "bs = media_header_bytes h @ payload" ..
  with enc show ?dec
    by (simp add: decode_media_header_def media_header_bytes_fixed read_media_header_bytes
        media_kind_code_inverse)
qed

lemma decode_media_packet_iff:
  "decode_media_packet bs = Ok p \<longleftrightarrow> validate_media_header (mp_header p) = Ok ()
     \<and> length (mp_payload p) = unat (mh_fragment_len (mp_header p))
     \<and> bs = media_header_bytes (mp_header p) @ mp_payload p"
  (is "?dec \<longleftrightarrow> ?enc")
proof
  assume ?dec
  then show ?enc
    by (auto simp: decode_media_packet_def Let_def decode_media_header_iff split: if_splits)
      (metis append_take_drop_id)
next
  assume ?enc
  then have "decode_media_header bs = Ok (mp_header p)"
    and "length bs = MEDIA_HEADER_LEN + unat (mh_fragment_len (mp_header p))"
    and "drop MEDIA_HEADER_LEN bs = mp_payload p"
    by (simp_all add: decode_media_header_iff)
  then show ?dec
    by (simp add: decode_media_packet_def)
qed

lemma encode_media_packet_iff:
  "encode_media_packet (mp_header p) (mp_payload p) = Ok bs \<longleftrightarrow> decode_media_packet bs = Ok p"
  by (auto simp: decode_media_packet_iff encode_media_packet_def encode_media_header_def)

interpretation media_packet_codec: wire_codec
  "\<lambda>p. encode_media_packet (mp_header p) (mp_payload p)" decode_media_packet "\<lambda>_. True"
  by unfold_locales (simp_all add: encode_media_packet_iff)

section \<open>Properties\<close>

lemma fragment_range_iff:
  fixes offset frame_len :: u32 and len :: u16
  assumes "len \<noteq> 0"
  shows "(\<exists>e. checked_add offset (ucast len) = Some e \<and> offset < frame_len \<and> e \<le> frame_len)
    \<longleftrightarrow> unat offset + unat len \<le> unat frame_len"
proof
  assume "\<exists>e. checked_add offset (ucast len) = Some e \<and> offset < frame_len \<and> e \<le> frame_len"
  then show "unat offset + unat len \<le> unat frame_len"
    by (auto simp: checked_add_Some_iff word_le_nat_alt unat_ucast_up)
next
  assume le: "unat offset + unat len \<le> unat frame_len"
  have "unat frame_len < 2 ^ 32"
    using unsigned_less [of frame_len, where 'a = nat] by simp
  with le obtain e where e: "checked_add offset (ucast len) = Some e"
    by (cases "checked_add offset (ucast len :: u32)") (simp_all add: checked_add_None_iff unat_ucast_up)
  moreover have "offset < frame_len"
    using le assms by (simp add: word_less_nat_alt) (metis add_lessD1 le_eq_less_or_eq
        less_add_same_cancel1 order_less_le_trans unat_gt_0)
  ultimately show "\<exists>e. checked_add offset (ucast len) = Some e \<and> offset < frame_len \<and> e \<le> frame_len"
    using le by (auto simp: checked_add_Some_iff word_le_nat_alt unat_ucast_up)
qed

lemma validate_media_header_Ok:
  "validate_media_header h = Ok () \<longleftrightarrow>
     mh_flags h AND NOT KNOWN_MASK = 0
     \<and> 0 < unat (mh_frame_len h) \<and> unat (mh_frame_len h) \<le> 16 * 1024 * 1024
     \<and> 0 < unat (mh_fragment_len h) \<and> unat (mh_fragment_len h) \<le> 16 * 1024
     \<and> unat (mh_fragment_offset h) + unat (mh_fragment_len h) \<le> unat (mh_frame_len h)
     \<and> (mh_flags h AND FLAG_KEYFRAME \<noteq> 0 \<longrightarrow> mh_dependency_frame_id h = NO_DEPENDENCY)
     \<and> (mh_dependency_frame_id h \<noteq> NO_DEPENDENCY \<longrightarrow> mh_dependency_frame_id h < mh_frame_id h)"
proof -
  have range: "(\<exists>e. checked_add (mh_fragment_offset h) (ucast (mh_fragment_len h)) = Some e
        \<and> mh_fragment_offset h < mh_frame_len h \<and> e \<le> mh_frame_len h)
      \<longleftrightarrow> unat (mh_fragment_offset h) + unat (mh_fragment_len h) \<le> unat (mh_frame_len h)"
    if "mh_fragment_len h \<noteq> 0"
    using that by (rule fragment_range_iff)
  have "validate_media_header h = Ok () \<longleftrightarrow>
     mh_flags h AND NOT KNOWN_MASK = 0
     \<and> mh_frame_len h \<noteq> 0 \<and> mh_frame_len h \<le> MAX_FRAME_BYTES
     \<and> mh_fragment_len h \<noteq> 0 \<and> mh_fragment_len h \<le> MAX_FRAGMENT_BYTES
     \<and> (\<exists>e. checked_add (mh_fragment_offset h) (ucast (mh_fragment_len h)) = Some e
         \<and> mh_fragment_offset h < mh_frame_len h \<and> e \<le> mh_frame_len h)
     \<and> (mh_flags h AND FLAG_KEYFRAME \<noteq> 0 \<longrightarrow> mh_dependency_frame_id h = NO_DEPENDENCY)
     \<and> (mh_dependency_frame_id h \<noteq> NO_DEPENDENCY \<longrightarrow> mh_dependency_frame_id h < mh_frame_id h)"
    by (simp add: validate_media_header_def not_le not_less split: option.split)
  then show ?thesis
    using range
    by (cases "mh_fragment_len h = 0")
      (simp_all add: word_le_nat_alt MAX_FRAME_BYTES_def MAX_FRAGMENT_BYTES_def unat_gt_0)
qed

text \<open>
  The media datagram codec is exact in both directions: a header and payload encode to a byte
  string precisely when that byte string decodes to them. So every accepted datagram is the
  encoding of what it decodes to, no two fragments share an encoding, and missing, trailing or
  nonzero reserved bytes are never accepted.
\<close>

theorem media_packet_codec_exact:
  "encode_media_packet (mp_header p) (mp_payload p) = Ok bs \<longleftrightarrow> decode_media_packet bs = Ok p"
  using media_packet_codec.dec_iff [of bs p] by simp

text \<open>
  Every media fragment the decoder accepts lies inside its frame: the payload is nonempty, has
  the declared length, ends at or before the frame length, which is at most 16 MiB; a keyframe
  names no dependency and any named dependency is an earlier frame.
\<close>

theorem decoded_fragment_in_frame:
  assumes "decode_media_packet bs = Ok p"
  shows "0 < length (mp_payload p) \<and> length (mp_payload p) \<le> 16 * 1024
    \<and> length bs = 44 + length (mp_payload p)
    \<and> unat (mh_fragment_offset (mp_header p)) + length (mp_payload p)
        \<le> unat (mh_frame_len (mp_header p))
    \<and> unat (mh_frame_len (mp_header p)) \<le> 16 * 1024 * 1024
    \<and> (mh_dependency_frame_id (mp_header p) = NO_DEPENDENCY
       \<or> mh_flags (mp_header p) AND FLAG_KEYFRAME = 0
         \<and> mh_dependency_frame_id (mp_header p) < mh_frame_id (mp_header p))"
  using assms
  by (auto simp: decode_media_packet_iff validate_media_header_Ok MEDIA_HEADER_LEN_def)

theorem decoded_fragment_in_frame_witness:
  "\<exists>bs p. decode_media_packet bs = Ok p \<and> length bs = 44 + length (mp_payload p)"
proof -
  let ?h = "\<lparr>mh_kind = MkVideo, mh_flags = 1, mh_stream_id = 1, mh_codec_epoch = 1, mh_frame_id = 7,
    mh_dependency_frame_id = NO_DEPENDENCY, mh_frame_len = 10, mh_fragment_offset = 8,
    mh_fragment_len = 2\<rparr>"
  let ?p = "\<lparr>mp_header = ?h, mp_payload = [5, 6]\<rparr>"
  have "validate_media_header ?h = Ok ()"
    by (simp add: validate_media_header_Ok KNOWN_MASK_def FLAG_KEYFRAME_def FLAG_DISCARDABLE_def
        FLAG_LOSSLESS_def FLAG_PARITY_def)
  then have "decode_media_packet (media_header_bytes ?h @ [5, 6]) = Ok ?p"
    by (simp add: decode_media_packet_iff)
  with decoded_fragment_in_frame [OF this] show ?thesis by blast
qed

end
