(* ===== verification/Quic_Wire.thy ===== *)
theory Quic_Wire
  imports Media_Wire
begin

text \<open>
  The application records carried over QUIC, \<^verbatim>\<open>crates/protocol/src/quic.rs\<close>: the session stamp that
  binds every record to one session lifecycle, the reliable stream record with its two lanes, and
  the media datagram with its deadline.
\<close>

section \<open>Session stamps\<close>

record session_stamp =
  session_id :: u64
  generation :: u64
  authorization_epoch :: u32
  display_epoch :: u32
  codec_epoch :: u32
  route_epoch :: u64

definition validate_pending :: "session_stamp \<Rightarrow> protocol_error + unit" where
  "validate_pending s =
     (if session_id s = 0 \<or> generation s = 0 \<or> route_epoch s = 0
      then Err (Session InvalidSessionStamp) else Ok ())"

definition validate_input :: "session_stamp \<Rightarrow> protocol_error + unit" where
  "validate_input s = and_then (validate_pending s) (\<lambda>_.
     if authorization_epoch s = 0 \<or> display_epoch s = 0 then Err (Session InactiveInputStamp)
     else Ok ())"

definition validate_media :: "session_stamp \<Rightarrow> protocol_error + unit" where
  "validate_media s = and_then (validate_pending s) (\<lambda>_.
     if authorization_epoch s = 0 \<or> display_epoch s = 0 \<or> codec_epoch s = 0
     then Err (Session InactiveMediaStamp) else Ok ())"

definition SESSION_STAMP_LEN :: nat where
  "SESSION_STAMP_LEN = 36"

definition stamp_encode_into :: "session_stamp \<Rightarrow> bytes" where
  "stamp_encode_into s = to_be_bytes (session_id s) @ to_be_bytes (generation s)
     @ to_be_bytes (authorization_epoch s) @ to_be_bytes (display_epoch s)
     @ to_be_bytes (codec_epoch s) @ to_be_bytes (route_epoch s)"

definition stamp_decode_from :: "bytes \<Rightarrow> nat \<Rightarrow> session_stamp" where
  "stamp_decode_from bs offset = \<lparr>session_id = read_u64 bs offset,
     generation = read_u64 bs (offset + 8), authorization_epoch = read_u32 bs (offset + 16),
     display_epoch = read_u32 bs (offset + 20), codec_epoch = read_u32 bs (offset + 24),
     route_epoch = read_u64 bs (offset + 28)\<rparr>"

section \<open>Reliable stream records\<close>

definition MAX_CONTROL_BYTES :: u32 where
  "MAX_CONTROL_BYTES = 256 * 1024"

definition MAX_INPUT_BYTES :: u32 where
  "MAX_INPUT_BYTES = 64 * 1024"

definition STREAM_RECORD_HEADER_LEN :: nat where
  "STREAM_RECORD_HEADER_LEN = 48"

definition STREAM_RECORD_MAGIC :: bytes where
  "STREAM_RECORD_MAGIC = [0x4C, 0x44, 0x51, 0x53]"

fun stream_kind_code :: "stream_kind \<Rightarrow> u8" where
  "stream_kind_code LaneControl = 1"
| "stream_kind_code LaneInput = 2"

fun payload_limit :: "stream_kind \<Rightarrow> u32" where
  "payload_limit LaneControl = MAX_CONTROL_BYTES"
| "payload_limit LaneInput = MAX_INPUT_BYTES"

definition stream_kind_try_from :: "u8 \<Rightarrow> protocol_error + stream_kind" where
  "stream_kind_try_from b =
     (if b = 1 then Ok LaneControl else if b = 2 then Ok LaneInput
      else Err (Framing (UnknownStreamKind b)))"

record stream_record_header =
  sh_kind :: stream_kind
  sh_stamp :: session_stamp
  sh_payload_len :: u32

definition validate_stream_header :: "stream_record_header \<Rightarrow> protocol_error + unit" where
  "validate_stream_header h = and_then (validate_pending (sh_stamp h)) (\<lambda>_.
     if sh_payload_len h > payload_limit (sh_kind h)
     then Err (Framing (StreamPayloadLength (sh_kind h) (unat (payload_limit (sh_kind h)))
       (unat (sh_payload_len h))))
     else if sh_kind h = LaneInput then and_then (validate_input (sh_stamp h)) (\<lambda>_. Ok ())
     else Ok ())"

definition stream_header_bytes :: "stream_record_header \<Rightarrow> bytes" where
  "stream_header_bytes h = STREAM_RECORD_MAGIC @ [WIRE_VERSION, stream_kind_code (sh_kind h), 0, 0]
     @ stamp_encode_into (sh_stamp h) @ to_be_bytes (sh_payload_len h)"

definition encode_stream_header :: "stream_record_header \<Rightarrow> protocol_error + bytes" where
  "encode_stream_header h = and_then (validate_stream_header h) (\<lambda>_. Ok (stream_header_bytes h))"

definition decode_stream_header :: "bytes \<Rightarrow> protocol_error + stream_record_header" where
  "decode_stream_header bs =
     (if length bs < STREAM_RECORD_HEADER_LEN
        then Err (Framing (Truncated STREAM_RECORD_HEADER_LEN (length bs)))
      else if slice 0 4 bs \<noteq> STREAM_RECORD_MAGIC then Err (Framing BadMagic)
      else if bs ! 4 \<noteq> WIRE_VERSION then Err (Framing (UnsupportedVersion (bs ! 4)))
      else if bs ! 6 \<noteq> 0 \<or> bs ! 7 \<noteq> 0 then Err (Framing ReservedBits)
      else and_then (stream_kind_try_from (bs ! 5)) (\<lambda>kind.
        let h = \<lparr>sh_kind = kind, sh_stamp = stamp_decode_from bs 8,
                 sh_payload_len = read_u32 bs 44\<rparr> in
        and_then (validate_stream_header h) (\<lambda>_. Ok h)))"

record stream_record =
  sr_kind :: stream_kind
  sr_stamp :: session_stamp
  sr_payload :: bytes

definition encode_stream_record ::
  "stream_kind \<Rightarrow> session_stamp \<Rightarrow> bytes \<Rightarrow> protocol_error + bytes" where
  "encode_stream_record kind stamp payload =
     (let limit = unat (payload_limit kind) in
      if length payload > limit
      then Err (Framing (StreamPayloadLength kind limit (length payload)))
      else and_then (encode_stream_header \<lparr>sh_kind = kind, sh_stamp = stamp,
             sh_payload_len = of_nat (length payload)\<rparr>)
           (\<lambda>encoded_header. Ok (encoded_header @ payload)))"

definition decode_stream_record :: "bytes \<Rightarrow> protocol_error + stream_record" where
  "decode_stream_record bs = and_then (decode_stream_header bs) (\<lambda>h.
     let expected = STREAM_RECORD_HEADER_LEN + unat (sh_payload_len h) in
     if length bs \<noteq> expected then Err (Framing (PayloadLength expected (length bs)))
     else Ok \<lparr>sr_kind = sh_kind h, sr_stamp = sh_stamp h,
              sr_payload = drop STREAM_RECORD_HEADER_LEN bs\<rparr>)"

definition decode_stream_record_for ::
  "stream_kind \<Rightarrow> bytes \<Rightarrow> protocol_error + stream_record" where
  "decode_stream_record_for expected bs = and_then (decode_stream_record bs) (\<lambda>r.
     if sr_kind r \<noteq> expected then Err (Framing (StreamKindMismatch expected (sr_kind r)))
     else Ok r)"

section \<open>Media datagrams\<close>

definition QUIC_MEDIA_HEADER_LEN :: nat where
  "QUIC_MEDIA_HEADER_LEN = 52"

definition MEDIA_DATAGRAM_MAGIC :: bytes where
  "MEDIA_DATAGRAM_MAGIC = [0x4C, 0x44, 0x51, 0x4D]"

record media_datagram =
  md_stamp :: session_stamp
  md_expires_at_ns :: u64
  md_packet :: media_packet

definition quic_media_header_bytes :: "session_stamp \<Rightarrow> u64 \<Rightarrow> bytes" where
  "quic_media_header_bytes stamp expires_at_ns =
     MEDIA_DATAGRAM_MAGIC @ [WIRE_VERSION, 0, 0, 0] @ stamp_encode_into stamp
     @ to_be_bytes expires_at_ns"

definition encode_media_datagram ::
  "session_stamp \<Rightarrow> u64 \<Rightarrow> media_header \<Rightarrow> bytes \<Rightarrow> protocol_error + bytes" where
  "encode_media_datagram stamp expires_at_ns h payload =
     and_then (validate_media stamp) (\<lambda>_.
     if mh_stream_id h = 0 then Err (Session InvalidMediaStreamId)
     else if mh_codec_epoch h \<noteq> codec_epoch stamp
       then Err (Session (MediaEpochMismatch (mh_codec_epoch h) (codec_epoch stamp)))
     else if length payload \<noteq> unat (mh_fragment_len h)
       then Err (Framing (PayloadLength (unat (mh_fragment_len h)) (length payload)))
     else and_then (encode_media_header h) (\<lambda>encoded_media_header.
       Ok (quic_media_header_bytes stamp expires_at_ns @ encoded_media_header @ payload)))"

definition decode_media_datagram :: "bytes \<Rightarrow> protocol_error + media_datagram" where
  "decode_media_datagram bs =
     (if length bs < QUIC_MEDIA_HEADER_LEN
        then Err (Framing (Truncated QUIC_MEDIA_HEADER_LEN (length bs)))
      else if slice 0 4 bs \<noteq> MEDIA_DATAGRAM_MAGIC then Err (Framing BadMagic)
      else if bs ! 4 \<noteq> WIRE_VERSION then Err (Framing (UnsupportedVersion (bs ! 4)))
      else if bs ! 5 \<noteq> 0 \<or> bs ! 6 \<noteq> 0 \<or> bs ! 7 \<noteq> 0 then Err (Framing ReservedBits)
      else let stamp = stamp_decode_from bs 8 in
        and_then (validate_media stamp) (\<lambda>_.
        and_then (decode_media_packet (drop QUIC_MEDIA_HEADER_LEN bs)) (\<lambda>packet.
        if mh_stream_id (mp_header packet) = 0 then Err (Session InvalidMediaStreamId)
        else if mh_codec_epoch (mp_header packet) \<noteq> codec_epoch stamp
          then Err (Session (MediaEpochMismatch (mh_codec_epoch (mp_header packet))
            (codec_epoch stamp)))
        else Ok \<lparr>md_stamp = stamp, md_expires_at_ns = read_u64 bs 44, md_packet = packet\<rparr>)))"

definition decode_media_datagram_at :: "bytes \<Rightarrow> u64 \<Rightarrow> protocol_error + media_datagram" where
  "decode_media_datagram_at bs now_ns = and_then (decode_media_datagram bs) (\<lambda>d.
     if md_expires_at_ns d \<le> now_ns then Err (Session ExpiredMediaDatagram) else Ok d)"

section \<open>Agreement of encoders and decoders\<close>

lemma stream_kind_code_inverse [wire_simps]: "stream_kind_try_from (stream_kind_code k) = Ok k"
  by (cases k) (simp_all add: stream_kind_try_from_def)

lemma stream_kind_try_from_Ok:
  "stream_kind_try_from b = Ok k \<longleftrightarrow> b = stream_kind_code k"
  by (cases k) (auto simp: stream_kind_try_from_def)

lemma length_stamp_encode_into [simp, wire_simps]:
  "length (stamp_encode_into s) = SESSION_STAMP_LEN"
  by (simp add: stamp_encode_into_def SESSION_STAMP_LEN_def)

lemma stamp_decode_encode:
  assumes "length pre = offset"
  shows "stamp_decode_from (pre @ stamp_encode_into s @ rest) offset = s"
  by (simp add: stamp_decode_from_def stamp_encode_into_def read_u32_def read_u64_def
      wire_simps flip: assms)

lemma stamp_encode_decode:
  assumes "offset + SESSION_STAMP_LEN \<le> length bs"
  shows "stamp_encode_into (stamp_decode_from bs offset) = slice offset SESSION_STAMP_LEN bs"
  using assms concat_fields [of offset "[8, 8, 4, 4, 4, 8]" bs]
  by (simp add: stamp_decode_from_def stamp_encode_into_def to_be_read SESSION_STAMP_LEN_def
      add.assoc)

lemma length_stream_header_bytes [simp]: "length (stream_header_bytes h) = STREAM_RECORD_HEADER_LEN"
  by (simp add: stream_header_bytes_def STREAM_RECORD_MAGIC_def SESSION_STAMP_LEN_def
      STREAM_RECORD_HEADER_LEN_def)

lemma stream_header_bytes_fixed:
  "slice 0 4 (stream_header_bytes h @ payload) = STREAM_RECORD_MAGIC"
  "(stream_header_bytes h @ payload) ! 4 = WIRE_VERSION"
  "(stream_header_bytes h @ payload) ! 5 = stream_kind_code (sh_kind h)"
  "(stream_header_bytes h @ payload) ! 6 = 0"
  "(stream_header_bytes h @ payload) ! 7 = 0"
  "stamp_decode_from (stream_header_bytes h @ payload) 8 = sh_stamp h"
  "read_u32 (stream_header_bytes h @ payload) 44 = sh_payload_len h"
  using stamp_decode_encode [of "STREAM_RECORD_MAGIC @ [WIRE_VERSION, stream_kind_code (sh_kind h), 0, 0]"
      8 "sh_stamp h" "to_be_bytes (sh_payload_len h) @ payload"]
  by (simp_all add: stream_header_bytes_def STREAM_RECORD_MAGIC_def SESSION_STAMP_LEN_def
      read_u32_def wire_simps nth_append nth_Cons')

lemma stream_header_bytes_read:
  assumes "STREAM_RECORD_HEADER_LEN \<le> length bs" and "slice 0 4 bs = STREAM_RECORD_MAGIC"
    and "bs ! 4 = WIRE_VERSION" and "bs ! 6 = 0" and "bs ! 7 = 0"
    and "bs ! 5 = stream_kind_code kind"
  shows "stream_header_bytes \<lparr>sh_kind = kind, sh_stamp = stamp_decode_from bs 8,
    sh_payload_len = read_u32 bs 44\<rparr> = take STREAM_RECORD_HEADER_LEN bs"
  using assms
  by (subst take_fields [of "[4, 1, 1, 1, 1, 36, 4]"])
    (simp_all add: stream_header_bytes_def stamp_encode_decode to_be_read slice_1
      STREAM_RECORD_HEADER_LEN_def SESSION_STAMP_LEN_def)

lemma decode_stream_header_iff:
  "decode_stream_header bs = Ok h \<longleftrightarrow> STREAM_RECORD_HEADER_LEN \<le> length bs
     \<and> validate_stream_header h = Ok () \<and> take STREAM_RECORD_HEADER_LEN bs = stream_header_bytes h"
  (is "?dec \<longleftrightarrow> ?enc")
proof
  assume ?dec
  then have "STREAM_RECORD_HEADER_LEN \<le> length bs" "slice 0 4 bs = STREAM_RECORD_MAGIC"
    "bs ! 4 = WIRE_VERSION" "bs ! 6 = 0" "bs ! 7 = 0"
    and kind: "bs ! 5 = stream_kind_code (sh_kind h)"
    and h: "h = \<lparr>sh_kind = sh_kind h, sh_stamp = stamp_decode_from bs 8,
      sh_payload_len = read_u32 bs 44\<rparr>" and "validate_stream_header h = Ok ()"
    by (auto simp: decode_stream_header_def Let_def stream_kind_try_from_Ok split: if_splits)
  with stream_header_bytes_read [of bs "sh_kind h"] show ?enc by simp
next
  assume enc: ?enc
  then have "bs = stream_header_bytes h @ drop STREAM_RECORD_HEADER_LEN bs"
    by (metis append_take_drop_id)
  then obtain payload where "bs = stream_header_bytes h @ payload" ..
  with enc show ?dec
    by (cases h) (simp add: decode_stream_header_def Let_def stream_header_bytes_fixed
        stream_kind_code_inverse)
qed

abbreviation record_header :: "stream_record \<Rightarrow> stream_record_header" where
  "record_header r \<equiv> \<lparr>sh_kind = sr_kind r, sh_stamp = sr_stamp r,
     sh_payload_len = of_nat (length (sr_payload r))\<rparr>"

lemma payload_limit_less: "unat (payload_limit k) < 2 ^ 32"
  by (cases k) (simp_all add: MAX_CONTROL_BYTES_def MAX_INPUT_BYTES_def)

lemma validate_stream_header_len:
  "validate_stream_header h = Ok () \<Longrightarrow> sh_payload_len h \<le> payload_limit (sh_kind h)"
  by (auto simp: validate_stream_header_def split: if_splits)

lemma encode_stream_record_iff:
  "encode_stream_record (sr_kind r) (sr_stamp r) (sr_payload r) = Ok bs \<longleftrightarrow>
     length (sr_payload r) \<le> unat (payload_limit (sr_kind r))
     \<and> validate_stream_header (record_header r) = Ok ()
     \<and> bs = stream_header_bytes (record_header r) @ sr_payload r"
  by (auto simp: encode_stream_record_def Let_def encode_stream_header_def)

lemma decode_stream_record_iff:
  "decode_stream_record bs = Ok r \<longleftrightarrow>
     length (sr_payload r) \<le> unat (payload_limit (sr_kind r))
     \<and> validate_stream_header (record_header r) = Ok ()
     \<and> bs = stream_header_bytes (record_header r) @ sr_payload r"
  (is "?dec \<longleftrightarrow> ?enc")
proof
  assume ?dec
  then obtain h where h: "validate_stream_header h = Ok ()"
      "take STREAM_RECORD_HEADER_LEN bs = stream_header_bytes h"
    and len: "length bs = STREAM_RECORD_HEADER_LEN + unat (sh_payload_len h)"
    and r: "r = \<lparr>sr_kind = sh_kind h, sr_stamp = sh_stamp h,
      sr_payload = drop STREAM_RECORD_HEADER_LEN bs\<rparr>"
    by (auto simp: decode_stream_record_def Let_def decode_stream_header_iff split: if_splits)
  then have "record_header r = h"
    by simp
  with h len r validate_stream_header_len [OF h(1)] show ?enc
    by (metis (no_types, lifting) add_diff_cancel_left' append_take_drop_id length_drop
        stream_record.select_convs(1,3) word_le_nat_alt)
next
  assume enc: ?enc
  then have "unat (of_nat (length (sr_payload r)) :: u32) = length (sr_payload r)"
    using payload_limit_less [of "sr_kind r"]
    by (intro unat_of_nat_small) simp
  with enc have "decode_stream_header bs = Ok (record_header r)"
    and "length bs = STREAM_RECORD_HEADER_LEN + unat (sh_payload_len (record_header r))"
    by (simp_all add: decode_stream_header_iff)
  with enc show ?dec
    by (simp add: decode_stream_record_def)
qed

interpretation stream_record_codec: wire_codec
  "\<lambda>r. encode_stream_record (sr_kind r) (sr_stamp r) (sr_payload r)" decode_stream_record "\<lambda>_. True"
  by unfold_locales (simp_all add: encode_stream_record_iff decode_stream_record_iff)

lemma quic_media_header_bytes_fixed:
  "length (quic_media_header_bytes stamp t) = QUIC_MEDIA_HEADER_LEN"
  "slice 0 4 (quic_media_header_bytes stamp t @ rest) = MEDIA_DATAGRAM_MAGIC"
  "(quic_media_header_bytes stamp t @ rest) ! 4 = WIRE_VERSION"
  "(quic_media_header_bytes stamp t @ rest) ! 5 = 0"
  "(quic_media_header_bytes stamp t @ rest) ! 6 = 0"
  "(quic_media_header_bytes stamp t @ rest) ! 7 = 0"
  "stamp_decode_from (quic_media_header_bytes stamp t @ rest) 8 = stamp"
  "read_u64 (quic_media_header_bytes stamp t @ rest) 44 = t"
  using stamp_decode_encode [of "MEDIA_DATAGRAM_MAGIC @ [WIRE_VERSION, 0, 0, 0]" 8 stamp
      "to_be_bytes t @ rest"]
  by (simp_all add: quic_media_header_bytes_def MEDIA_DATAGRAM_MAGIC_def SESSION_STAMP_LEN_def
      QUIC_MEDIA_HEADER_LEN_def read_u64_def wire_simps nth_append nth_Cons')

lemma quic_media_header_bytes_read:
  assumes "QUIC_MEDIA_HEADER_LEN \<le> length bs" and "slice 0 4 bs = MEDIA_DATAGRAM_MAGIC"
    and "bs ! 4 = WIRE_VERSION" and "bs ! 5 = 0" and "bs ! 6 = 0" and "bs ! 7 = 0"
  shows "quic_media_header_bytes (stamp_decode_from bs 8) (read_u64 bs 44)
    = take QUIC_MEDIA_HEADER_LEN bs"
  using assms
  by (subst take_fields [of "[4, 1, 1, 1, 1, 36, 8]"])
    (simp_all add: quic_media_header_bytes_def stamp_encode_decode to_be_read slice_1
      QUIC_MEDIA_HEADER_LEN_def SESSION_STAMP_LEN_def)

text \<open>The conditions under which a datagram is well formed, the same on both sides.\<close>

definition datagram_ok :: "media_datagram \<Rightarrow> bool" where
  "datagram_ok d \<longleftrightarrow> validate_media (md_stamp d) = Ok ()
     \<and> mh_stream_id (mp_header (md_packet d)) \<noteq> 0
     \<and> mh_codec_epoch (mp_header (md_packet d)) = codec_epoch (md_stamp d)"

lemma decode_media_datagram_iff:
  "decode_media_datagram bs = Ok d \<longleftrightarrow> datagram_ok d
     \<and> (\<exists>inner. decode_media_packet inner = Ok (md_packet d)
          \<and> bs = quic_media_header_bytes (md_stamp d) (md_expires_at_ns d) @ inner)"
  (is "?dec \<longleftrightarrow> ?enc")
proof
  assume ?dec
  then have ok: "datagram_ok d"
    and "QUIC_MEDIA_HEADER_LEN \<le> length bs" "slice 0 4 bs = MEDIA_DATAGRAM_MAGIC"
      "bs ! 4 = WIRE_VERSION" "bs ! 5 = 0" "bs ! 6 = 0" "bs ! 7 = 0"
    and stamp: "md_stamp d = stamp_decode_from bs 8" "md_expires_at_ns d = read_u64 bs 44"
    and inner: "decode_media_packet (drop QUIC_MEDIA_HEADER_LEN bs) = Ok (md_packet d)"
    by (auto simp: decode_media_datagram_def Let_def datagram_ok_def split: if_splits)
  with quic_media_header_bytes_read [of bs] show ?enc
    by (metis append_take_drop_id)
next
  assume ?enc
  then show ?dec
    by (auto simp: decode_media_datagram_def quic_media_header_bytes_fixed datagram_ok_def)
qed

lemma encode_media_datagram_iff:
  "encode_media_datagram (md_stamp d) (md_expires_at_ns d) (mp_header (md_packet d))
       (mp_payload (md_packet d)) = Ok bs \<longleftrightarrow> decode_media_datagram bs = Ok d"
  by (auto simp: encode_media_datagram_def decode_media_datagram_iff datagram_ok_def
      decode_media_packet_iff encode_media_header_def)

interpretation media_datagram_codec: wire_codec
  "\<lambda>d. encode_media_datagram (md_stamp d) (md_expires_at_ns d) (mp_header (md_packet d))
     (mp_payload (md_packet d))" decode_media_datagram "\<lambda>_. True"
  by unfold_locales (simp_all add: encode_media_datagram_iff)

section \<open>Properties\<close>

text \<open>
  The reliable stream record codec is exact: a record encodes to a byte string precisely when
  that byte string decodes to the record, so accepted records are complete, canonical and
  unambiguous.
\<close>

theorem stream_record_codec_exact:
  "encode_stream_record (sr_kind r) (sr_stamp r) (sr_payload r) = Ok bs
    \<longleftrightarrow> decode_stream_record bs = Ok r"
  using stream_record_codec.dec_iff [of bs r] by simp

text \<open>
  C38: a record accepted on a lane belongs to that lane, fits the lane's limit, carries a session
  stamp with nonzero session, generation and route epoch, and, on the input lane, an authorization
  and a display epoch.
\<close>

theorem accepted_record_is_bound:
  assumes "decode_stream_record_for lane bs = Ok r"
  shows "sr_kind r = lane \<and> length bs = 48 + length (sr_payload r)
    \<and> length (sr_payload r) \<le> (case lane of LaneControl \<Rightarrow> 256 * 1024 | LaneInput \<Rightarrow> 64 * 1024)
    \<and> session_id (sr_stamp r) \<noteq> 0 \<and> generation (sr_stamp r) \<noteq> 0 \<and> route_epoch (sr_stamp r) \<noteq> 0
    \<and> (lane = LaneInput \<longrightarrow>
        authorization_epoch (sr_stamp r) \<noteq> 0 \<and> display_epoch (sr_stamp r) \<noteq> 0)"
  using assms
  by (cases lane)
    (auto simp: decode_stream_record_for_def decode_stream_record_iff validate_stream_header_def
      validate_pending_def validate_input_def MAX_CONTROL_BYTES_def MAX_INPUT_BYTES_def
      STREAM_RECORD_HEADER_LEN_def split: if_splits)

theorem accepted_record_is_bound_witness:
  "\<exists>bs r. decode_stream_record_for LaneInput bs = Ok r \<and> length bs = 48 + length (sr_payload r)"
proof -
  let ?st = "\<lparr>session_id = 9, generation = 1, authorization_epoch = 2, display_epoch = 3,
    codec_epoch = 0, route_epoch = 1\<rparr>"
  let ?r = "\<lparr>sr_kind = LaneInput, sr_stamp = ?st, sr_payload = [1, 2, 3]\<rparr>"
  have "decode_stream_record (stream_header_bytes (record_header ?r) @ [1, 2, 3]) = Ok ?r"
    by (simp add: decode_stream_record_iff validate_stream_header_def
        validate_pending_def validate_input_def MAX_INPUT_BYTES_def)
  then have "decode_stream_record_for LaneInput (stream_header_bytes (record_header ?r) @ [1, 2, 3])
      = Ok ?r"
    by (simp add: decode_stream_record_for_def)
  with accepted_record_is_bound [OF this] show ?thesis by blast
qed

text \<open>
  The media datagram codec is exact, and the deadline gate \<open>decode_at\<close> passes exactly the
  decodable datagrams whose deadline lies strictly in the future.
\<close>

theorem media_datagram_codec_exact:
  "(encode_media_datagram (md_stamp d) (md_expires_at_ns d) (mp_header (md_packet d))
      (mp_payload (md_packet d)) = Ok bs \<longleftrightarrow> decode_media_datagram bs = Ok d)
   \<and> (decode_media_datagram_at bs now = Ok d
      \<longleftrightarrow> decode_media_datagram bs = Ok d \<and> now < md_expires_at_ns d)"
  using media_datagram_codec.dec_iff [of bs d]
  by (cases "decode_media_datagram bs") (auto simp: decode_media_datagram_at_def)

end
