(* ===== verification/Control_Wire.thy ===== *)
theory Control_Wire
  imports Quic_Wire
begin

text \<open>
  The reliable control envelope of \<^verbatim>\<open>crates/protocol/src/lib.rs\<close> (\<^verbatim>\<open>ControlKind\<close>,
  \<^verbatim>\<open>ControlHeader\<close>, \<^verbatim>\<open>ControlPacket\<close>) and two of its payloads: the route transition transcript and
  the decoder recovery request.
\<close>

section \<open>Kinds and stages\<close>

datatype (plugins only: code) control_kind =
  CkHello
| CkHelloAck
| CkAuthenticate
| CkCapabilities
| CkConfigureStream
| CkRecoveryRequest
| CkPing
| CkPong
| CkClose
| CkError
| CkInputAck
| CkPermissionRevoked
| CkRateUpdate
| CkCongestionFeedback
| CkHandshakeCompleted
| CkIceCandidate
| CkRelayEnvelope
| CkPairing
| CkDisconnect
| CkUnattendedAuth
| CkIceCredentials
| CkIceProbe
| CkRoutePrepare
| CkRoutePrepared
| CkRouteCommit
| CkRouteActivated
| CkRouteConfirmed

fun control_kind_code :: "control_kind \<Rightarrow> u8" where
  "control_kind_code CkHello = 1"
| "control_kind_code CkHelloAck = 2"
| "control_kind_code CkAuthenticate = 3"
| "control_kind_code CkCapabilities = 4"
| "control_kind_code CkConfigureStream = 5"
| "control_kind_code CkRecoveryRequest = 6"
| "control_kind_code CkPing = 7"
| "control_kind_code CkPong = 8"
| "control_kind_code CkClose = 9"
| "control_kind_code CkError = 10"
| "control_kind_code CkInputAck = 11"
| "control_kind_code CkPermissionRevoked = 12"
| "control_kind_code CkRateUpdate = 13"
| "control_kind_code CkCongestionFeedback = 14"
| "control_kind_code CkHandshakeCompleted = 15"
| "control_kind_code CkIceCandidate = 16"
| "control_kind_code CkRelayEnvelope = 17"
| "control_kind_code CkPairing = 18"
| "control_kind_code CkDisconnect = 19"
| "control_kind_code CkUnattendedAuth = 20"
| "control_kind_code CkIceCredentials = 21"
| "control_kind_code CkIceProbe = 22"
| "control_kind_code CkRoutePrepare = 23"
| "control_kind_code CkRoutePrepared = 24"
| "control_kind_code CkRouteCommit = 25"
| "control_kind_code CkRouteActivated = 26"
| "control_kind_code CkRouteConfirmed = 27"

definition control_kind_try_from :: "u8 \<Rightarrow> protocol_error + control_kind" where
  "control_kind_try_from b =
     (if b = 1 then Ok CkHello
      else if b = 2 then Ok CkHelloAck
      else if b = 3 then Ok CkAuthenticate
      else if b = 4 then Ok CkCapabilities
      else if b = 5 then Ok CkConfigureStream
      else if b = 6 then Ok CkRecoveryRequest
      else if b = 7 then Ok CkPing
      else if b = 8 then Ok CkPong
      else if b = 9 then Ok CkClose
      else if b = 10 then Ok CkError
      else if b = 11 then Ok CkInputAck
      else if b = 12 then Ok CkPermissionRevoked
      else if b = 13 then Ok CkRateUpdate
      else if b = 14 then Ok CkCongestionFeedback
      else if b = 15 then Ok CkHandshakeCompleted
      else if b = 16 then Ok CkIceCandidate
      else if b = 17 then Ok CkRelayEnvelope
      else if b = 18 then Ok CkPairing
      else if b = 19 then Ok CkDisconnect
      else if b = 20 then Ok CkUnattendedAuth
      else if b = 21 then Ok CkIceCredentials
      else if b = 22 then Ok CkIceProbe
      else if b = 23 then Ok CkRoutePrepare
      else if b = 24 then Ok CkRoutePrepared
      else if b = 25 then Ok CkRouteCommit
      else if b = 26 then Ok CkRouteActivated
      else if b = 27 then Ok CkRouteConfirmed
      else Err (Framing (UnknownControlKind b)))"

datatype route_transition_stage = StPrepare | StPrepared | StCommit | StActivated | StConfirmed

fun stage_code :: "route_transition_stage \<Rightarrow> u8" where
  "stage_code StPrepare = 1"
| "stage_code StPrepared = 2"
| "stage_code StCommit = 3"
| "stage_code StActivated = 4"
| "stage_code StConfirmed = 5"

fun stage_control_kind :: "route_transition_stage \<Rightarrow> control_kind" where
  "stage_control_kind StPrepare = CkRoutePrepare"
| "stage_control_kind StPrepared = CkRoutePrepared"
| "stage_control_kind StCommit = CkRouteCommit"
| "stage_control_kind StActivated = CkRouteActivated"
| "stage_control_kind StConfirmed = CkRouteConfirmed"

definition stage_try_from :: "u8 \<Rightarrow> protocol_error + route_transition_stage" where
  "stage_try_from b =
     (if b = 1 then Ok StPrepare else if b = 2 then Ok StPrepared
      else if b = 3 then Ok StCommit else if b = 4 then Ok StActivated
      else if b = 5 then Ok StConfirmed
      else Err (Service (InvalidRouteTransitionStage b)))"

section \<open>Route transition messages\<close>

record route_transition_message =
  rm_version :: u8
  rm_stage :: route_transition_stage
  rm_sequence :: u64
  rm_base_route_epoch :: u64
  rm_next_route_epoch :: u64
  rm_expires_at_ns :: u64
  rm_route_digest :: bytes
  rm_transcript_digest :: bytes

definition ROUTE_MESSAGE_LEN :: nat where
  "ROUTE_MESSAGE_LEN = 100"

definition validate_route_message :: "route_transition_message \<Rightarrow> protocol_error + unit" where
  "validate_route_message m =
     (if rm_version m \<noteq> WIRE_VERSION \<or> rm_sequence m = 0 \<or> rm_base_route_epoch m = 0
        \<or> checked_add (rm_base_route_epoch m) 1 \<noteq> Some (rm_next_route_epoch m)
        \<or> rm_expires_at_ns m = 0
        \<or> rm_route_digest m = replicate 32 0 \<or> rm_transcript_digest m = replicate 32 0
      then Err (Service InvalidRouteTransition) else Ok ())"

definition route_message_bytes :: "route_transition_message \<Rightarrow> bytes" where
  "route_message_bytes m = [rm_version m, stage_code (rm_stage m), 0, 0]
     @ to_be_bytes (rm_sequence m) @ to_be_bytes (rm_base_route_epoch m)
     @ to_be_bytes (rm_next_route_epoch m) @ to_be_bytes (rm_expires_at_ns m)
     @ rm_route_digest m @ rm_transcript_digest m"

definition encode_route_message :: "route_transition_message \<Rightarrow> protocol_error + bytes" where
  "encode_route_message m = and_then (validate_route_message m) (\<lambda>_. Ok (route_message_bytes m))"

definition decode_route_message :: "bytes \<Rightarrow> protocol_error + route_transition_message" where
  "decode_route_message bs =
     (if length bs \<noteq> ROUTE_MESSAGE_LEN
        then Err (Framing (PayloadLength ROUTE_MESSAGE_LEN (length bs)))
      else if slice 2 2 bs \<noteq> [0, 0] then Err (Framing ReservedBits)
      else and_then (stage_try_from (bs ! 1)) (\<lambda>stage.
        let m = \<lparr>rm_version = bs ! 0, rm_stage = stage, rm_sequence = read_u64 bs 4,
                 rm_base_route_epoch = read_u64 bs 12, rm_next_route_epoch = read_u64 bs 20,
                 rm_expires_at_ns = read_u64 bs 28, rm_route_digest = slice 36 32 bs,
                 rm_transcript_digest = slice 68 32 bs\<rparr> in
        and_then (validate_route_message m) (\<lambda>_. Ok m)))"

section \<open>Control packets\<close>

record control_header =
  ch_kind :: control_kind
  ch_flags :: u16
  ch_session_id :: u64
  ch_payload_len :: u32

record control_packet =
  cp_header :: control_header
  cp_payload :: bytes

definition CONTROL_HEADER_LEN :: nat where
  "CONTROL_HEADER_LEN = 20"

definition CONTROL_MAGIC :: bytes where
  "CONTROL_MAGIC = [0x4C, 0x44, 0x43, 0x31]"

definition validate_control_header :: "control_header \<Rightarrow> protocol_error + unit" where
  "validate_control_header h =
     (if ch_flags h \<noteq> 0 then Err (Framing (UnknownControlFlags (ch_flags h)))
      else if ch_payload_len h > MAX_CONTROL_BYTES
        then Err (Framing (ControlLength (ch_payload_len h)))
      else Ok ())"

definition control_header_bytes :: "control_header \<Rightarrow> bytes" where
  "control_header_bytes h = CONTROL_MAGIC @ [WIRE_VERSION, control_kind_code (ch_kind h)]
     @ to_be_bytes (ch_flags h) @ to_be_bytes (ch_session_id h) @ to_be_bytes (ch_payload_len h)"

definition encode_control_header :: "control_header \<Rightarrow> protocol_error + bytes" where
  "encode_control_header h = and_then (validate_control_header h) (\<lambda>_. Ok (control_header_bytes h))"

definition decode_control_header :: "bytes \<Rightarrow> protocol_error + control_header" where
  "decode_control_header bs =
     (if length bs < CONTROL_HEADER_LEN
        then Err (Framing (Truncated CONTROL_HEADER_LEN (length bs)))
      else if slice 0 4 bs \<noteq> CONTROL_MAGIC then Err (Framing BadMagic)
      else if bs ! 4 \<noteq> WIRE_VERSION then Err (Framing (UnsupportedVersion (bs ! 4)))
      else and_then (control_kind_try_from (bs ! 5)) (\<lambda>kind.
        let h = \<lparr>ch_kind = kind, ch_flags = read_u16 bs 6, ch_session_id = read_u64 bs 8,
                 ch_payload_len = read_u32 bs 16\<rparr> in
        and_then (validate_control_header h) (\<lambda>_. Ok h)))"

definition decode_control_packet :: "bytes \<Rightarrow> protocol_error + control_packet" where
  "decode_control_packet bs = and_then (decode_control_header bs) (\<lambda>h.
     let expected = CONTROL_HEADER_LEN + unat (ch_payload_len h) in
     if length bs \<noteq> expected then Err (Framing (PayloadLength expected (length bs)))
     else Ok \<lparr>cp_header = h, cp_payload = drop CONTROL_HEADER_LEN bs\<rparr>)"

definition encode_control_packet :: "control_header \<Rightarrow> bytes \<Rightarrow> protocol_error + bytes" where
  "encode_control_packet h payload =
     (if length payload \<noteq> unat (ch_payload_len h)
      then Err (Framing (PayloadLength (unat (ch_payload_len h)) (length payload)))
      else and_then (encode_control_header h) (\<lambda>encoded_header. Ok (encoded_header @ payload)))"

section \<open>Recovery requests\<close>

record recovery_request =
  rq_stream_id :: u32
  rq_codec_epoch :: u32
  rq_last_good_frame_id :: u64
  rq_first_missing_frame_id :: u64

definition RECOVERY_REQUEST_LEN :: nat where
  "RECOVERY_REQUEST_LEN = 24"

definition encode_recovery_request :: "recovery_request \<Rightarrow> bytes" where
  "encode_recovery_request r = to_be_bytes (rq_stream_id r) @ to_be_bytes (rq_codec_epoch r)
     @ to_be_bytes (rq_last_good_frame_id r) @ to_be_bytes (rq_first_missing_frame_id r)"

definition decode_recovery_request :: "bytes \<Rightarrow> protocol_error + recovery_request" where
  "decode_recovery_request bs =
     (if length bs \<noteq> RECOVERY_REQUEST_LEN
        then Err (Framing (PayloadLength RECOVERY_REQUEST_LEN (length bs)))
      else let r = \<lparr>rq_stream_id = read_u32 bs 0, rq_codec_epoch = read_u32 bs 4,
             rq_last_good_frame_id = read_u64 bs 8, rq_first_missing_frame_id = read_u64 bs 16\<rparr> in
        if rq_first_missing_frame_id r \<le> rq_last_good_frame_id r
        then Err (Session InvalidRecoveryRange) else Ok r)"

section \<open>Agreement of encoders and decoders\<close>

lemma control_kind_code_inverse [wire_simps]: "control_kind_try_from (control_kind_code k) = Ok k"
  by (cases k) (simp_all add: control_kind_try_from_def)

lemma control_kind_try_from_Ok: "control_kind_try_from b = Ok k \<Longrightarrow> b = control_kind_code k"
  unfolding control_kind_try_from_def by (simp split: if_split_asm; auto)

lemma stage_code_inverse [wire_simps]: "stage_try_from (stage_code s) = Ok s"
  by (cases s) (simp_all add: stage_try_from_def)

lemma stage_try_from_Ok: "stage_try_from b = Ok s \<longleftrightarrow> b = stage_code s"
  by (cases s) (auto simp: stage_try_from_def)

text \<open>The digests are arrays of 32 bytes.\<close>

definition wf_route_message :: "route_transition_message \<Rightarrow> bool" where
  "wf_route_message m \<longleftrightarrow>
     length (rm_route_digest m) = 32 \<and> length (rm_transcript_digest m) = 32"

lemma decode_route_message_bytes:
  assumes "wf_route_message m" and "validate_route_message m = Ok ()"
  shows "decode_route_message (route_message_bytes m) = Ok m"
  using assms
  by (cases m) (simp add: decode_route_message_def Let_def route_message_bytes_def
      wf_route_message_def ROUTE_MESSAGE_LEN_def read_u64_def wire_simps nth_append nth_Cons')

lemma route_message_bytes_decode:
  assumes "decode_route_message bs = Ok m"
  shows "wf_route_message m" "validate_route_message m = Ok ()" "route_message_bytes m = bs"
proof -
  have len: "length bs = 100" and res: "slice 2 2 bs = [0, 0]"
    and m: "m = \<lparr>rm_version = bs ! 0, rm_stage = rm_stage m, rm_sequence = read_u64 bs 4,
       rm_base_route_epoch = read_u64 bs 12, rm_next_route_epoch = read_u64 bs 20,
       rm_expires_at_ns = read_u64 bs 28, rm_route_digest = slice 36 32 bs,
       rm_transcript_digest = slice 68 32 bs\<rparr>"
    and stage: "bs ! 1 = stage_code (rm_stage m)"
    and valid: "validate_route_message m = Ok ()"
    using assms by (auto simp: decode_route_message_def Let_def ROUTE_MESSAGE_LEN_def
        stage_try_from_Ok split: if_splits)
  show "validate_route_message m = Ok ()" by (rule valid)
  show "wf_route_message m"
    using len by (subst m) (simp add: wf_route_message_def)
  have "bs = take 100 bs" using len by simp
  also have "\<dots> = concat (cut_fields 0 [2, 2, 8, 8, 8, 8, 32, 32] bs)"
    by (rule take_fields) simp
  also have "\<dots> = route_message_bytes m"
    using len res stage
    by (subst m) (simp add: route_message_bytes_def to_be_read slice_2
        del: add_2_eq_Suc add_2_eq_Suc')
  finally show "route_message_bytes m = bs" ..
qed

interpretation route_message_codec: wire_codec
  encode_route_message decode_route_message wf_route_message
  by unfold_locales
    (auto simp: encode_route_message_def decode_route_message_bytes route_message_bytes_decode)

lemma length_control_header_bytes [simp]: "length (control_header_bytes h) = CONTROL_HEADER_LEN"
  by (simp add: control_header_bytes_def CONTROL_MAGIC_def CONTROL_HEADER_LEN_def)

lemma control_header_bytes_fixed:
  "slice 0 4 (control_header_bytes h @ payload) = CONTROL_MAGIC"
  "(control_header_bytes h @ payload) ! 4 = WIRE_VERSION"
  "(control_header_bytes h @ payload) ! 5 = control_kind_code (ch_kind h)"
  "read_u16 (control_header_bytes h @ payload) 6 = ch_flags h"
  "read_u64 (control_header_bytes h @ payload) 8 = ch_session_id h"
  "read_u32 (control_header_bytes h @ payload) 16 = ch_payload_len h"
  by (simp_all add: control_header_bytes_def CONTROL_MAGIC_def read_u16_def read_u32_def read_u64_def
      wire_simps nth_append nth_Cons')

lemma control_header_bytes_read:
  assumes "CONTROL_HEADER_LEN \<le> length bs" and "slice 0 4 bs = CONTROL_MAGIC"
    and "bs ! 4 = WIRE_VERSION" and "bs ! 5 = control_kind_code kind"
  shows "control_header_bytes \<lparr>ch_kind = kind, ch_flags = read_u16 bs 6,
      ch_session_id = read_u64 bs 8, ch_payload_len = read_u32 bs 16\<rparr> = take CONTROL_HEADER_LEN bs"
  using assms
  by (subst take_fields [of "[4, 1, 1, 2, 8, 4]"])
    (simp_all add: control_header_bytes_def to_be_read slice_1 CONTROL_HEADER_LEN_def)

lemma decode_control_header_iff:
  "decode_control_header bs = Ok h \<longleftrightarrow> CONTROL_HEADER_LEN \<le> length bs
     \<and> validate_control_header h = Ok () \<and> take CONTROL_HEADER_LEN bs = control_header_bytes h"
  (is "?dec \<longleftrightarrow> ?enc")
proof
  assume ?dec
  then have "CONTROL_HEADER_LEN \<le> length bs" "slice 0 4 bs = CONTROL_MAGIC" "bs ! 4 = WIRE_VERSION"
    and "bs ! 5 = control_kind_code (ch_kind h)"
    and h: "h = \<lparr>ch_kind = ch_kind h, ch_flags = read_u16 bs 6, ch_session_id = read_u64 bs 8,
      ch_payload_len = read_u32 bs 16\<rparr>" and "validate_control_header h = Ok ()"
    by (auto simp: decode_control_header_def Let_def dest: control_kind_try_from_Ok
        split: if_splits)
  with control_header_bytes_read [of bs "ch_kind h"] show ?enc by simp
next
  assume enc: ?enc
  then have "bs = control_header_bytes h @ drop CONTROL_HEADER_LEN bs"
    by (metis append_take_drop_id)
  then obtain payload where "bs = control_header_bytes h @ payload" ..
  with enc show ?dec
    by (cases h) (simp add: decode_control_header_def Let_def control_header_bytes_fixed
        control_kind_code_inverse)
qed

lemma decode_control_packet_iff:
  "decode_control_packet bs = Ok p \<longleftrightarrow> validate_control_header (cp_header p) = Ok ()
     \<and> length (cp_payload p) = unat (ch_payload_len (cp_header p))
     \<and> bs = control_header_bytes (cp_header p) @ cp_payload p"
  (is "?dec \<longleftrightarrow> ?enc")
proof
  assume ?dec
  then show ?enc
    by (auto simp: decode_control_packet_def Let_def decode_control_header_iff split: if_splits)
      (metis append_take_drop_id)
next
  assume ?enc
  then have "decode_control_header bs = Ok (cp_header p)"
    and "length bs = CONTROL_HEADER_LEN + unat (ch_payload_len (cp_header p))"
    and "drop CONTROL_HEADER_LEN bs = cp_payload p"
    by (simp_all add: decode_control_header_iff)
  then show ?dec
    by (simp add: decode_control_packet_def)
qed

lemma encode_control_packet_iff:
  "encode_control_packet (cp_header p) (cp_payload p) = Ok bs \<longleftrightarrow> decode_control_packet bs = Ok p"
  by (auto simp: decode_control_packet_iff encode_control_packet_def encode_control_header_def)

interpretation control_packet_codec: wire_codec
  "\<lambda>p. encode_control_packet (cp_header p) (cp_payload p)" decode_control_packet "\<lambda>_. True"
  by unfold_locales (simp_all add: encode_control_packet_iff)

interpretation recovery_request_codec: wire_codec
  "\<lambda>r. Ok (encode_recovery_request r) :: protocol_error + bytes" decode_recovery_request
  "\<lambda>r. rq_last_good_frame_id r < rq_first_missing_frame_id r"
proof
  fix r bs
  show "decode_recovery_request bs = Ok r" if "rq_last_good_frame_id r < rq_first_missing_frame_id r"
    and "(Ok (encode_recovery_request r) :: protocol_error + bytes) = Ok bs"
    using that by (cases r) (auto simp: decode_recovery_request_def encode_recovery_request_def Let_def
        RECOVERY_REQUEST_LEN_def read_u32_def read_u64_def wire_simps)
next
  fix r bs
  assume dec: "decode_recovery_request bs = Ok r"
  then have len: "length bs = 24"
    and gap: "rq_last_good_frame_id r < rq_first_missing_frame_id r"
    by (auto simp: decode_recovery_request_def RECOVERY_REQUEST_LEN_def Let_def split: if_splits)
  have "bs = take 24 bs" using len by simp
  also have "\<dots> = concat (cut_fields 0 [4, 4, 8, 8] bs)"
    by (rule take_fields) simp
  also have "\<dots> = encode_recovery_request r"
    using dec len by (auto simp: decode_recovery_request_def encode_recovery_request_def Let_def
        to_be_read split: if_splits)
  finally show "rq_last_good_frame_id r < rq_first_missing_frame_id r
      \<and> (Ok (encode_recovery_request r) :: protocol_error + bytes) = Ok bs"
    using gap by simp
qed

section \<open>Properties\<close>

text \<open>
  The control packet codec, the route transition codec and the recovery request codec are
  exact: what decodes to a value is that value's one encoding, and every value the encoder accepts
  decodes to itself. (Digests are 32-byte arrays; a recovery request names a nonempty gap.)
\<close>

theorem control_codecs_exact:
  "(encode_control_packet (cp_header p) (cp_payload p) = Ok bs \<longleftrightarrow> decode_control_packet bs = Ok p)
   \<and> (decode_route_message bs = Ok m \<longleftrightarrow> wf_route_message m \<and> encode_route_message m = Ok bs)
   \<and> (decode_recovery_request bs = Ok r \<longleftrightarrow>
        rq_last_good_frame_id r < rq_first_missing_frame_id r \<and> encode_recovery_request r = bs)"
  using control_packet_codec.dec_iff [of bs p] route_message_codec.dec_iff [of bs m]
    recovery_request_codec.dec_iff [of bs r]
  by simp

end
