(* ===== verification/Replay.thy ===== *)
theory Replay
  imports Wire_Error
begin

text \<open>
  The anti-replay window and the epoch tracker of \<^verbatim>\<open>crates/protocol/src/lib.rs\<close>
  (\<^verbatim>\<open>AntiReplayFilter\<close>, \<^verbatim>\<open>EpochTracker\<close>), which the UDP transport puts in front of every
  authenticated packet. The bitmap is a 128-bit word. The specification the filter is refined to
  knows only the set of sequence numbers accepted so far.
\<close>

section \<open>Anti-replay window\<close>

record anti_replay_filter =
  ar_max_sequence :: u64
  ar_bitmap :: u128

definition WINDOW_SIZE :: u64 where
  "WINDOW_SIZE = 128"

definition new_filter :: anti_replay_filter where
  "new_filter = \<lparr>ar_max_sequence = 0, ar_bitmap = 0\<rparr>"

definition check :: "anti_replay_filter \<Rightarrow> u64 \<Rightarrow> protocol_error + unit" where
  "check f sequence =
     (if sequence = 0 then Err (Session (ReplayedPacket 0))
      else if sequence > ar_max_sequence f then Ok ()
      else let diff = ar_max_sequence f - sequence in
        if diff \<ge> WINDOW_SIZE then Err (Session (ReplayedPacket sequence))
        else if ar_bitmap f AND push_bit (unat diff) 1 \<noteq> 0
          then Err (Session (ReplayedPacket sequence))
        else Ok ())"

definition update :: "anti_replay_filter \<Rightarrow> u64 \<Rightarrow> anti_replay_filter" where
  "update f sequence =
     (if sequence > ar_max_sequence f then
        let shift = sequence - ar_max_sequence f in
        \<lparr>ar_max_sequence = sequence,
         ar_bitmap = (if shift \<ge> WINDOW_SIZE then 1
           else push_bit (unat shift) (ar_bitmap f) OR 1)\<rparr>
      else let diff = ar_max_sequence f - sequence in
        if diff < WINDOW_SIZE
        then f\<lparr>ar_bitmap := ar_bitmap f OR push_bit (unat diff) 1\<rparr>
        else f)"

definition check_and_update ::
  "anti_replay_filter \<Rightarrow> u64 \<Rightarrow> anti_replay_filter \<times> (protocol_error + unit)" where
  "check_and_update f sequence =
     (case check f sequence of
        Inl e \<Rightarrow> (f, Err e)
      | Inr _ \<Rightarrow> (update f sequence, Ok ()))"

section \<open>Epoch tracker\<close>

datatype epoch_action = EpochCurrent | EpochAdvanced u32 | EpochStale

record epoch_tracker =
  et_current_epoch :: u32

definition new_epoch_tracker :: "u32 \<Rightarrow> epoch_tracker" where
  "new_epoch_tracker initial_epoch = \<lparr>et_current_epoch = initial_epoch\<rparr>"

definition validate_packet_epoch :: "epoch_tracker \<Rightarrow> u32 \<Rightarrow> epoch_action" where
  "validate_packet_epoch t packet_epoch =
     (if packet_epoch = et_current_epoch t then EpochCurrent
      else if packet_epoch > et_current_epoch t then EpochAdvanced packet_epoch
      else EpochStale)"

definition advance_epoch :: "epoch_tracker \<Rightarrow> u32 \<Rightarrow> epoch_tracker \<times> (protocol_error + u32)" where
  "advance_epoch t new_epoch =
     (if new_epoch \<le> et_current_epoch t
      then (t, Err (Session (NonMonotonicEpoch new_epoch (et_current_epoch t))))
      else (t\<lparr>et_current_epoch := new_epoch\<rparr>, Ok new_epoch))"

section \<open>The window as a set of sequence numbers\<close>

text \<open>The numbers whose bit is set, as the filter would report them.\<close>

definition marked :: "anti_replay_filter \<Rightarrow> u64 \<Rightarrow> bool" where
  "marked f k \<longleftrightarrow> k \<le> ar_max_sequence f \<and> unat (ar_max_sequence f) - unat k < 128
     \<and> bit (ar_bitmap f) (unat (ar_max_sequence f) - unat k)"

lemma unat_word_diff: "b \<le> a \<Longrightarrow> unat (a - b) = unat a - unat b" for a b :: "'a::len word"
  by (rule unat_sub)

lemma and_exp_nonzero_iff: "w AND 2 ^ n \<noteq> 0 \<longleftrightarrow> bit w n" for w :: "'a::len word"
  by (simp add: and_exp_eq_0_iff_not_bit)

lemma check_ok_iff:
  "is_ok (check f k) \<longleftrightarrow> k \<noteq> 0
     \<and> (ar_max_sequence f < k
        \<or> unat (ar_max_sequence f) - unat k < 128 \<and> \<not> marked f k)"
  by (auto simp: check_def Let_def WINDOW_SIZE_def word_le_nat_alt word_less_nat_alt
      unat_word_diff and_exp_nonzero_iff marked_def not_less)

lemma check_and_update_fst:
  "fst (check_and_update f k) = (if is_ok (check f k) then update f k else f)"
  "is_ok (snd (check_and_update f k)) = is_ok (check f k)"
  by (auto simp: check_and_update_def split: sum.splits)

lemma max_update [simp]: "ar_max_sequence (update f k) = max (ar_max_sequence f) k"
  by (auto simp: update_def Let_def max_def)

lemma update_new_max:
  assumes "ar_max_sequence f < k"
  shows "marked (update f k) j \<longleftrightarrow> j = k \<or> marked f j \<and> unat k - unat j < 128"
proof -
  let ?m = "unat (ar_max_sequence f)"
  have m: "?m < unat k" using assms by (simp add: word_less_nat_alt)
  have shift: "unat (k - ar_max_sequence f) = unat k - ?m"
    using m by (intro unat_word_diff) (simp add: word_le_nat_alt)
  have bm: "ar_bitmap (update f k) = (if 128 \<le> unat k - ?m then 1
      else push_bit (unat k - ?m) (ar_bitmap f) OR 1)"
    using assms by (simp add: update_def Let_def WINDOW_SIZE_def word_le_nat_alt shift)
  show ?thesis
  proof (cases "unat j \<le> unat k \<and> unat k - unat j < 128")
    case False
    then show ?thesis
      using assms by (auto simp: marked_def max_def word_le_nat_alt word_less_nat_alt)
  next
    case True
    then have "bit (ar_bitmap (update f k)) (unat k - unat j) \<longleftrightarrow>
        j = k \<or> unat k - ?m \<le> unat k - unat j \<and> unat k - ?m < 128
          \<and> bit (ar_bitmap f) (unat k - unat j - (unat k - ?m))"
      by (auto simp: bm bit_or_iff bit_push_bit_iff bit_1_iff word_unat_eq_iff)
    moreover have "unat k - ?m \<le> unat k - unat j \<longleftrightarrow> unat j \<le> ?m"
      using m True by arith
    moreover have "unat k - unat j - (unat k - ?m) = ?m - unat j" if "unat j \<le> ?m"
      using m that by arith
    ultimately show ?thesis
      using True assms m
      by (auto simp: marked_def max_def word_le_nat_alt word_less_nat_alt)
  qed
qed

lemma update_in_window:
  assumes "k \<le> ar_max_sequence f" and "unat (ar_max_sequence f) - unat k < 128"
  shows "marked (update f k) j \<longleftrightarrow> j = k \<or> marked f j"
proof -
  let ?m = "unat (ar_max_sequence f)"
  have "update f k = f\<lparr>ar_bitmap := ar_bitmap f OR push_bit (?m - unat k) 1\<rparr>"
    using assms by (simp add: update_def Let_def WINDOW_SIZE_def word_less_nat_alt unat_word_diff
        not_less [symmetric])
  moreover have "?m - unat j = ?m - unat k \<longleftrightarrow> j = k" if "unat j \<le> ?m"
    using that assms by (auto simp: word_le_nat_alt word_unat_eq_iff)
  ultimately show ?thesis
    using assms by (auto simp: marked_def bit_or_iff bit_exp_iff word_le_nat_alt)
qed

text \<open>
  The specification: a number is acceptable if it is nonzero, was not accepted before, and no
  accepted number is 128 or more ahead of it.
\<close>

definition acceptable :: "u64 set \<Rightarrow> u64 \<Rightarrow> bool" where
  "acceptable A k \<longleftrightarrow> k \<noteq> 0 \<and> k \<notin> A \<and> (\<forall>a\<in>A. unat a < unat k + 128)"

definition represents :: "anti_replay_filter \<Rightarrow> u64 set \<Rightarrow> bool" where
  "represents f A \<longleftrightarrow> (\<forall>a\<in>A. a \<le> ar_max_sequence f) \<and> 0 \<notin> A
     \<and> (ar_max_sequence f \<noteq> 0 \<longrightarrow> ar_max_sequence f \<in> A)
     \<and> (\<forall>k. marked f k \<longleftrightarrow> k \<in> A \<and> unat (ar_max_sequence f) - unat k < 128)"

lemma represents_new: "represents new_filter {}"
  by (simp add: represents_def new_filter_def marked_def)

lemma represents_check:
  assumes "represents f A"
  shows "is_ok (check f k) \<longleftrightarrow> acceptable A k"
proof (cases "k = 0")
  case True
  then show ?thesis by (simp add: check_ok_iff acceptable_def)
next
  case False
  have "(\<forall>a\<in>A. unat a < unat k + 128) \<longleftrightarrow> unat (ar_max_sequence f) < unat k + 128"
  proof (cases "ar_max_sequence f = 0")
    case True
    with assms show ?thesis by (auto simp: represents_def word_le_nat_alt)
  next
    case False
    with assms show ?thesis
      by (auto simp: represents_def word_le_nat_alt intro: le_less_trans)
  qed
  moreover have "k \<notin> A" if "ar_max_sequence f < k"
    using assms that by (auto simp: represents_def not_le [symmetric])
  moreover have "unat (ar_max_sequence f) < unat k + 128 \<longleftrightarrow>
      ar_max_sequence f < k \<or> unat (ar_max_sequence f) - unat k < 128"
    by (auto simp: word_less_nat_alt)
  ultimately show ?thesis
    using assms False by (auto simp: check_ok_iff acceptable_def represents_def)
qed

lemma represents_update:
  assumes "represents f A" and "acceptable A k"
  shows "represents (update f k) (insert k A)"
proof (cases "ar_max_sequence f < k")
  case True
  have "unat (ar_max_sequence f) - unat j < 128" if "unat k - unat j < 128" for j
    using True that by (auto simp: word_less_nat_alt)
  with True assms update_new_max [OF True] show ?thesis
    by (auto simp: represents_def acceptable_def max_def word_less_nat_alt word_le_nat_alt)
next
  case False
  then have k: "k \<le> ar_max_sequence f" by simp
  moreover have "unat (ar_max_sequence f) - unat k < 128"
    using assms represents_check [OF assms(1), of k] False by (auto simp: check_ok_iff)
  ultimately show ?thesis
    using update_in_window [of k f] assms
    by (auto simp: represents_def acceptable_def max_def)
qed

lemma represents_run:
  "represents (fst (run check_and_update new_filter ks))
     (set (granted accept check_and_update new_filter ks))"
proof (induction ks rule: rev_induct)
  case Nil
  then show ?case by (simp add: represents_new)
next
  case (snoc k ks)
  then show ?case
    using represents_check [OF snoc] represents_update [OF snoc]
    by (simp add: granted_snoc run_snoc_fst check_and_update_fst)
qed

text \<open>
  A refused number stays refused, and an accepted one is refused from then on: the filter is a
  guard in the sense of \<open>once_only\<close> from every state, not only from the initial one.
\<close>

interpretation replay_guard: once_only check_and_update accept "\<lambda>f k. \<not> is_ok (check f k)"
proof
  fix f k j c
  show "\<not> \<not> is_ok (check f k)" if "accept c (snd (check_and_update f c)) = Some k"
    using that by (auto simp: check_and_update_fst split: if_splits)
  show "\<not> is_ok (check (fst (check_and_update f c)) k)"
    if "accept c (snd (check_and_update f c)) = Some k"
    using that update_new_max [of f k k] update_in_window [of k f k]
    by (cases "ar_max_sequence f < k")
      (auto simp: check_and_update_fst check_ok_iff max_def not_less split: if_splits)
  show "\<not> is_ok (check (fst (check_and_update f c)) k)" if "\<not> is_ok (check f k)"
    using that update_new_max [of f c k] update_in_window [of c f k]
    by (cases "ar_max_sequence f < c")
      (auto simp: check_and_update_fst check_ok_iff max_def word_less_nat_alt word_le_nat_alt
        not_less)
qed

interpretation epoch_guard: once_only advance_epoch accept "\<lambda>t e. e \<le> et_current_epoch t"
  by unfold_locales (auto simp: advance_epoch_def split: if_splits)

section \<open>Properties\<close>

text \<open>
  C16: the 128-bit sliding window implements its set specification exactly. After any history of
  calls, a number is accepted if and only if it is nonzero, has not been accepted before, and no
  accepted number is 128 or more ahead of it: nothing is accepted twice and no fresh number
  inside the window is refused, whatever the order of arrival.
\<close>

theorem replay_window_exact:
  "is_ok (snd (check_and_update (fst (run check_and_update new_filter ks)) k)) \<longleftrightarrow>
     acceptable (set (granted accept check_and_update new_filter ks)) k"
  using represents_check [OF represents_run] by (simp add: check_and_update_fst)

text \<open>
  C34: from any state of the filter, however it was reached, no sequence number is accepted twice;
  and no epoch is entered twice by the epoch tracker.
\<close>

theorem replay_and_epoch_at_most_once:
  "distinct (granted accept check_and_update f ks) \<and> distinct (granted accept advance_epoch t es)"
  by (simp add: replay_guard.granted_distinct epoch_guard.granted_distinct)

end
