(* ===== verification/Input.thy ===== *)
theory Input
  imports Contracts
begin

text \<open>
  The input lane, \<^verbatim>\<open>crates/input/src/lib.rs\<close>: the bounded wire format of keyboard and pointer
  events, and the receiver-side reconciler that suppresses stale messages and emits the platform
  actions. The array \<open>[u64; 8]\<close> of key bits is a list of eight words; signed integers are the
  words of their two's complement representation, which is all the code uses of them.
\<close>

section \<open>Input state\<close>

datatype input_error =
  IeMagic
| IeVersion u8
| IeReserved
| IePayloadLength
| IeEventKind u8
| IeBoolean u8
| IeKey u16
| IeButton u8
| IeCoordinate

definition MAX_KEY_CODE :: u16 where
  "MAX_KEY_CODE = 511"

definition KEY_WORDS :: nat where
  "KEY_WORDS = 8"

record input_state =
  is_key_words :: "u64 list"
  is_buttons :: u16

definition default_input_state :: input_state where
  "default_input_state = \<lparr>is_key_words = replicate KEY_WORDS 0, is_buttons = 0\<rparr>"

definition validate_key :: "u16 \<Rightarrow> input_error + unit" where
  "validate_key code = (if code > MAX_KEY_CODE then Err (IeKey code) else Ok ())"

definition set_key :: "input_state \<Rightarrow> u16 \<Rightarrow> bool \<Rightarrow> input_state \<times> (input_error + unit)" where
  "set_key s code pressed =
     (case validate_key code of
        Inl e \<Rightarrow> (s, Err e)
      | Inr _ \<Rightarrow>
          let word = unat (code div 64); b = unat (code mod 64); w = is_key_words s ! word in
          (s\<lparr>is_key_words := (is_key_words s)[word :=
             (if pressed then w OR push_bit b 1 else w AND NOT (push_bit b 1))]\<rparr>, Ok ()))"

definition key_pressed :: "input_state \<Rightarrow> u16 \<Rightarrow> bool" where
  "key_pressed s code =
     (if code > MAX_KEY_CODE then False
      else is_key_words s ! unat (code div 64) AND push_bit (unat (code mod 64)) 1 \<noteq> 0)"

definition set_button :: "input_state \<Rightarrow> u8 \<Rightarrow> bool \<Rightarrow> input_state \<times> (input_error + unit)" where
  "set_button s button pressed =
     (if button \<ge> 16 then (s, Err (IeButton button))
      else (s\<lparr>is_buttons := (if pressed then is_buttons s OR push_bit (unat button) 1
                else is_buttons s AND NOT (push_bit (unat button) 1))\<rparr>, Ok ()))"

definition button_pressed :: "input_state \<Rightarrow> u8 \<Rightarrow> bool" where
  "button_pressed s button \<longleftrightarrow> button < 16 \<and> is_buttons s AND push_bit (unat button) 1 \<noteq> 0"

definition is_empty :: "input_state \<Rightarrow> bool" where
  "is_empty s \<longleftrightarrow> is_buttons s = 0 \<and> list_all (\<lambda>w. w = 0) (is_key_words s)"

definition encode_state_into :: "input_state \<Rightarrow> bytes" where
  "encode_state_into s = concat (map to_be_bytes (is_key_words s)) @ to_be_bytes (is_buttons s)"

definition decode_state :: "bytes \<Rightarrow> input_error + input_state" where
  "decode_state bs =
     (if length bs \<noteq> KEY_WORDS * 8 + 2 then Err IePayloadLength
      else Ok \<lparr>is_key_words = map (\<lambda>index. read_u64 bs (index * 8)) [0..<KEY_WORDS],
               is_buttons = read_u16 bs (KEY_WORDS * 8)\<rparr>)"

section \<open>Events and messages\<close>

datatype input_event =
  EvKey u16 bool
| EvPointerButton u8 bool
| EvPointerMotionRelative i32 i32
| EvPointerMotionAbsolute u32 u32 u32 u32
| EvWheel i16 i16
| EvSnapshot input_state
| EvReleaseAll

record input_message =
  im_session_epoch :: u32
  im_sequence :: u64
  im_event :: input_event

record decoded_input_envelope =
  de_message :: input_message
  de_ack_requested :: bool

definition INPUT_MAGIC :: bytes where
  "INPUT_MAGIC = [0x4C, 0x44, 0x49, 0x4E]"

definition INPUT_VERSION :: u8 where
  "INPUT_VERSION = 1"

definition HEADER_LEN :: nat where
  "HEADER_LEN = 24"

definition MAX_MESSAGE_BYTES :: nat where
  "MAX_MESSAGE_BYTES = 256"

definition INPUT_FLAG_ACK_REQUESTED :: u32 where
  "INPUT_FLAG_ACK_REQUESTED = 1"

definition bool_byte :: "bool \<Rightarrow> u8" where
  "bool_byte b = (if b then 1 else 0)"

definition decode_bool :: "u8 \<Rightarrow> input_error + bool" where
  "decode_bool b = (if b = 0 then Ok False else if b = 1 then Ok True else Err (IeBoolean b))"

fun encode_event :: "input_event \<Rightarrow> input_error + u8 \<times> bytes" where
  "encode_event (EvKey code pressed) =
     and_then (validate_key code) (\<lambda>_. Ok (1, to_be_bytes code @ [bool_byte pressed]))"
| "encode_event (EvPointerButton button pressed) =
     (if button \<ge> 16 then Err (IeButton button) else Ok (2, [button, bool_byte pressed]))"
| "encode_event (EvPointerMotionRelative dx dy) = Ok (3, to_be_bytes dx @ to_be_bytes dy)"
| "encode_event (EvPointerMotionAbsolute x y width height) =
     (if width = 0 \<or> height = 0 \<or> x \<ge> width \<or> y \<ge> height then Err IeCoordinate
      else Ok (4, to_be_bytes x @ to_be_bytes y @ to_be_bytes width @ to_be_bytes height))"
| "encode_event (EvWheel horizontal vertical) =
     Ok (5, to_be_bytes horizontal @ to_be_bytes vertical)"
| "encode_event (EvSnapshot state) = Ok (6, encode_state_into state)"
| "encode_event EvReleaseAll = Ok (7, [])"

definition decode_event :: "u8 \<Rightarrow> bytes \<Rightarrow> input_error + input_event" where
  "decode_event kind payload =
     (if kind = 1 \<and> length payload = 3 then
        let code = read_u16 payload 0 in
        and_then (validate_key code) (\<lambda>_.
        and_then (decode_bool (payload ! 2)) (\<lambda>pressed. Ok (EvKey code pressed)))
      else if kind = 2 \<and> length payload = 2 then
        if payload ! 0 \<ge> 16 then Err (IeButton (payload ! 0))
        else and_then (decode_bool (payload ! 1)) (\<lambda>pressed.
          Ok (EvPointerButton (payload ! 0) pressed))
      else if kind = 3 \<and> length payload = 8 then
        Ok (EvPointerMotionRelative (read_u32 payload 0) (read_u32 payload 4))
      else if kind = 4 \<and> length payload = 16 then
        let event = EvPointerMotionAbsolute (read_u32 payload 0) (read_u32 payload 4)
              (read_u32 payload 8) (read_u32 payload 12) in
        and_then (encode_event event) (\<lambda>_. Ok event)
      else if kind = 5 \<and> length payload = 4 then
        Ok (EvWheel (read_u16 payload 0) (read_u16 payload 2))
      else if kind = 6 then and_then (decode_state payload) (\<lambda>s. Ok (EvSnapshot s))
      else if kind = 7 \<and> payload = [] then Ok EvReleaseAll
      else Err (IeEventKind kind))"

definition encode_with_flags :: "input_message \<Rightarrow> u32 \<Rightarrow> input_error + bytes" where
  "encode_with_flags m flags = and_then (encode_event (im_event m)) (\<lambda>(kind, payload).
     if length payload > MAX_MESSAGE_BYTES - HEADER_LEN then Err IePayloadLength
     else if length payload \<ge> 2 ^ 16 then Err IePayloadLength
     else Ok (INPUT_MAGIC @ [INPUT_VERSION, kind] @ to_be_bytes (of_nat (length payload) :: u16)
       @ to_be_bytes (im_session_epoch m) @ to_be_bytes (im_sequence m) @ to_be_bytes flags
       @ payload))"

definition encode_input :: "input_message \<Rightarrow> input_error + bytes" where
  "encode_input m = encode_with_flags m 0"

definition encode_ack_requested :: "input_message \<Rightarrow> input_error + bytes" where
  "encode_ack_requested m = encode_with_flags m INPUT_FLAG_ACK_REQUESTED"

definition decode_envelope :: "bytes \<Rightarrow> input_error + decoded_input_envelope" where
  "decode_envelope bs =
     (if length bs < HEADER_LEN \<or> length bs > MAX_MESSAGE_BYTES then Err IePayloadLength
      else if slice 0 4 bs \<noteq> INPUT_MAGIC then Err IeMagic
      else if bs ! 4 \<noteq> INPUT_VERSION then Err (IeVersion (bs ! 4))
      else let kind = bs ! 5; payload_len = unat (read_u16 bs 6); flags = read_u32 bs 20 in
        if flags AND NOT INPUT_FLAG_ACK_REQUESTED \<noteq> 0 then Err IeReserved
        else if HEADER_LEN + payload_len \<noteq> length bs then Err IePayloadLength
        else and_then (decode_event kind (drop HEADER_LEN bs)) (\<lambda>event.
          Ok \<lparr>de_message = \<lparr>im_session_epoch = read_u32 bs 8, im_sequence = read_u64 bs 12,
                im_event = event\<rparr>,
              de_ack_requested = (flags AND INPUT_FLAG_ACK_REQUESTED \<noteq> 0)\<rparr>))"

definition decode_input :: "bytes \<Rightarrow> input_error + input_message" where
  "decode_input bs = and_then (decode_envelope bs) (\<lambda>env.
     if de_ack_requested env then Err IeReserved else Ok (de_message env))"

section \<open>The reconciler\<close>

datatype applied_input =
  ApKey u16 bool
| ApPointerButton u8 bool
| ApPointerMotionRelative i32 i32
| ApPointerMotionAbsolute u32 u32 u32 u32
| ApWheel i16 i16

datatype reconcile_outcome =
  Applied "applied_input list"
| IgnoredStaleSequence
| IgnoredStaleEpoch

record input_reconciler =
  ir_epoch :: "u32 option"
  ir_epoch_retired :: bool
  ir_last_sequence :: "u64 option"
  ir_state :: input_state

definition new_reconciler :: input_reconciler where
  "new_reconciler = \<lparr>ir_epoch = None, ir_epoch_retired = False, ir_last_sequence = None,
     ir_state = default_input_state\<rparr>"

definition snapshot_actions :: "input_state \<Rightarrow> input_state \<Rightarrow> applied_input list" where
  "snapshot_actions current desired =
     map (\<lambda>code. ApKey code (key_pressed desired code))
       (filter (\<lambda>code. key_pressed current code \<noteq> key_pressed desired code)
         (map of_nat [0..<Suc (unat MAX_KEY_CODE)]))
     @ map (\<lambda>button. ApPointerButton button (button_pressed desired button))
       (filter (\<lambda>button. button_pressed current button \<noteq> button_pressed desired button)
         (map of_nat [0..<16]))"

definition reconcile_snapshot ::
  "input_reconciler \<Rightarrow> input_state \<Rightarrow> input_reconciler \<times> applied_input list" where
  "reconcile_snapshot r snapshot =
     (r\<lparr>ir_state := snapshot\<rparr>, snapshot_actions (ir_state r) snapshot)"

definition release_all :: "input_reconciler \<Rightarrow> input_reconciler \<times> applied_input list" where
  "release_all r = reconcile_snapshot r default_input_state"

fun apply_fresh :: "input_reconciler \<Rightarrow> input_event
    \<Rightarrow> input_reconciler \<times> (input_error + applied_input list)" where
  "apply_fresh r (EvKey code pressed) =
     (if key_pressed (ir_state r) code = pressed then (r, Ok [])
      else case set_key (ir_state r) code pressed of
          (s, Inl e) \<Rightarrow> (r\<lparr>ir_state := s\<rparr>, Err e)
        | (s, Inr _) \<Rightarrow> (r\<lparr>ir_state := s\<rparr>, Ok [ApKey code pressed]))"
| "apply_fresh r (EvPointerButton button pressed) =
     (if button_pressed (ir_state r) button = pressed then (r, Ok [])
      else case set_button (ir_state r) button pressed of
          (s, Inl e) \<Rightarrow> (r\<lparr>ir_state := s\<rparr>, Err e)
        | (s, Inr _) \<Rightarrow> (r\<lparr>ir_state := s\<rparr>, Ok [ApPointerButton button pressed]))"
| "apply_fresh r (EvPointerMotionRelative dx dy) = (r, Ok [ApPointerMotionRelative dx dy])"
| "apply_fresh r (EvPointerMotionAbsolute x y width height) =
     (r, Ok [ApPointerMotionAbsolute x y width height])"
| "apply_fresh r (EvWheel horizontal vertical) = (r, Ok [ApWheel horizontal vertical])"
| "apply_fresh r (EvSnapshot snapshot) = map_prod id Ok (reconcile_snapshot r snapshot)"
| "apply_fresh r EvReleaseAll = map_prod id Ok (release_all r)"

text \<open>
  \<open>apply\<close> in three parts: the sequence test and the fresh application at the end of the function,
  the switch to a newer epoch, and the epoch dispatch with the retirement test before it.
\<close>

definition apply_sequenced :: "input_reconciler \<Rightarrow> input_message
    \<Rightarrow> input_reconciler \<times> (input_error + reconcile_outcome)" where
  "apply_sequenced r m =
     (if is_some_and (ir_last_sequence r) (\<lambda>sequence. im_sequence m \<le> sequence)
      then (r, Ok IgnoredStaleSequence)
      else case apply_fresh r (im_event m) of
          (r', Inl e) \<Rightarrow> (r', Err e)
        | (r', Inr actions) \<Rightarrow>
            (r'\<lparr>ir_last_sequence := Some (im_sequence m)\<rparr>, Ok (Applied actions)))"

definition apply_newer_epoch :: "input_reconciler \<Rightarrow> input_message
    \<Rightarrow> input_reconciler \<times> (input_error + reconcile_outcome)" where
  "apply_newer_epoch r m =
     (let (r1, actions) = release_all r;
          r2 = r1\<lparr>ir_epoch := Some (im_session_epoch m), ir_epoch_retired := False,
                 ir_last_sequence := None\<rparr> in
      case apply_fresh r2 (im_event m) of
        (r', Inl e) \<Rightarrow> (r', Err e)
      | (r', Inr fresh) \<Rightarrow>
          (r'\<lparr>ir_last_sequence := Some (im_sequence m)\<rparr>, Ok (Applied (actions @ fresh))))"

definition apply_message :: "input_reconciler \<Rightarrow> input_message
    \<Rightarrow> input_reconciler \<times> (input_error + reconcile_outcome)" where
  "apply_message r m =
     (if ir_epoch_retired r
         \<and> is_some_and (ir_epoch r) (\<lambda>retired. im_session_epoch m \<le> retired)
      then (r, Ok IgnoredStaleEpoch)
      else let r = r\<lparr>ir_epoch_retired := False\<rparr> in
        case ir_epoch r of
          Some epoch \<Rightarrow>
            if im_session_epoch m < epoch then (r, Ok IgnoredStaleEpoch)
            else if im_session_epoch m > epoch then apply_newer_epoch r m
            else apply_sequenced r m
        | None \<Rightarrow> apply_sequenced
            (r\<lparr>ir_epoch := Some (im_session_epoch m), ir_epoch_retired := False\<rparr>) m)"

definition disconnect_release_plan :: "input_reconciler \<Rightarrow> input_reconciler \<times> applied_input list" where
  "disconnect_release_plan r =
     (let (r1, actions) = release_all r in
      (r1\<lparr>ir_epoch_retired := (ir_epoch r1 \<noteq> None), ir_last_sequence := None\<rparr>, actions))"

definition release_all_plan :: "input_reconciler \<Rightarrow> input_reconciler \<times> applied_input list" where
  "release_all_plan r = release_all r"

datatype input_cmd = ApplyMessage input_message | DisconnectPlan | ReleaseAllPlan

datatype input_reply =
  Reconciled "input_error + reconcile_outcome"
| Released "applied_input list"

fun input_step :: "input_reconciler \<Rightarrow> input_cmd \<Rightarrow> input_reconciler \<times> input_reply" where
  "input_step r (ApplyMessage m) = map_prod id Reconciled (apply_message r m)"
| "input_step r DisconnectPlan = map_prod id Released (disconnect_release_plan r)"
| "input_step r ReleaseAllPlan = map_prod id Released (release_all_plan r)"

section \<open>Key and button state\<close>

definition wf_state :: "input_state \<Rightarrow> bool" where
  "wf_state s \<longleftrightarrow> length (is_key_words s) = 8"

lemma wf_default [simp]: "wf_state default_input_state"
  by (simp add: wf_state_def default_input_state_def KEY_WORDS_def)

lemma and_power_nonzero_iff: "w AND 2 ^ n \<noteq> 0 \<longleftrightarrow> bit w n" for w :: "'a::len word"
  by (simp add: and_exp_eq_0_iff_not_bit)

lemma key_pressed_iff:
  "key_pressed s code \<longleftrightarrow> unat code < 512 \<and> bit (is_key_words s ! (unat code div 64)) (unat code mod 64)"
  by (auto simp: key_pressed_def MAX_KEY_CODE_def word_less_nat_alt unat_div_distrib unat_mod_distrib
      and_power_nonzero_iff)

lemma button_pressed_iff:
  "button_pressed s button \<longleftrightarrow> unat button < 16 \<and> bit (is_buttons s) (unat button)"
  by (auto simp: button_pressed_def word_less_nat_alt and_power_nonzero_iff)

lemma key_index_eq_iff:
  "unat a div 64 = unat b div 64 \<and> unat a mod 64 = unat b mod 64 \<longleftrightarrow> a = b" for a b :: u16
  by (metis div_mult_mod_eq word_unat_eq_iff)

lemma set_key_spec:
  assumes "wf_state s" and "unat code < 512"
  shows "snd (set_key s code pressed) = Ok ()"
    and "wf_state (fst (set_key s code pressed))"
    and "key_pressed (fst (set_key s code pressed)) c = (if c = code then pressed else key_pressed s c)"
    and "button_pressed (fst (set_key s code pressed)) b = button_pressed s b"
proof -
  have ok: "validate_key code = Ok ()"
    using assms by (simp add: validate_key_def MAX_KEY_CODE_def word_less_nat_alt)
  then show "snd (set_key s code pressed) = Ok ()"
    and "wf_state (fst (set_key s code pressed))"
    and "button_pressed (fst (set_key s code pressed)) b = button_pressed s b"
    using assms by (simp_all add: set_key_def Let_def wf_state_def button_pressed_iff)
  have word: "unat code div 64 < 8" using assms by arith
  have "bit (is_key_words (fst (set_key s code pressed)) ! (unat c div 64)) (unat c mod 64)
      = (if c = code then pressed else bit (is_key_words s ! (unat c div 64)) (unat c mod 64))"
  proof (cases "unat c div 64 = unat code div 64")
    case True
    with key_index_eq_iff [of c code] word assms ok show ?thesis
      by (auto simp: set_key_def Let_def wf_state_def unat_div_distrib unat_mod_distrib
          bit_or_iff bit_and_iff bit_not_iff bit_exp_iff)
  next
    case False
    with assms ok show ?thesis
      by (auto simp: set_key_def Let_def unat_div_distrib)
  qed
  then show "key_pressed (fst (set_key s code pressed)) c
      = (if c = code then pressed else key_pressed s c)"
    using assms by (auto simp: key_pressed_iff)
qed

lemma set_button_spec:
  assumes "unat button < 16"
  shows "snd (set_button s button pressed) = Ok ()"
    and "wf_state (fst (set_button s button pressed)) = wf_state s"
    and "button_pressed (fst (set_button s button pressed)) b
      = (if b = button then pressed else button_pressed s b)"
    and "key_pressed (fst (set_button s button pressed)) c = key_pressed s c"
  using assms
  by (auto simp: set_button_def word_le_nat_alt wf_state_def key_pressed_iff button_pressed_iff
      bit_or_iff bit_and_iff bit_not_iff bit_exp_iff word_unat_eq_iff)

lemma default_pressed [simp]:
  "\<not> key_pressed default_input_state code" "\<not> button_pressed default_input_state button"
  by (simp_all add: key_pressed_iff button_pressed_iff default_input_state_def KEY_WORDS_def
      nth_replicate)

section \<open>The platform behind the reconciler\<close>

text \<open>
  The platform holds keys and buttons down. It is strict: pressing what is down or releasing what
  is up is an error (\<open>None\<close>). Pointer motion and the wheel hold nothing.
\<close>

type_synonym platform = "(u16 \<Rightarrow> bool) \<times> (u8 \<Rightarrow> bool)"

fun perform :: "applied_input \<Rightarrow> platform \<Rightarrow> platform option" where
  "perform (ApKey code pressed) (ks, bs) =
     (if ks code = pressed then None else Some (ks(code := pressed), bs))"
| "perform (ApPointerButton button pressed) (ks, bs) =
     (if bs button = pressed then None else Some (ks, bs(button := pressed)))"
| "perform (ApPointerMotionRelative dx dy) p = Some p"
| "perform (ApPointerMotionAbsolute x y width height) p = Some p"
| "perform (ApWheel horizontal vertical) p = Some p"

fun perform_all :: "applied_input list \<Rightarrow> platform \<Rightarrow> platform option" where
  "perform_all [] p = Some p"
| "perform_all (a # as) p = Option.bind (perform a p) (perform_all as)"

lemma perform_all_append:
  "perform_all (as @ bs) p = Option.bind (perform_all as p) (perform_all bs)"
proof (induction as arbitrary: p)
  case (Cons a as)
  then show ?case by (cases "perform a p") simp_all
qed simp

definition held :: "input_state \<Rightarrow> platform" where
  "held s = (key_pressed s, button_pressed s)"

definition nothing_held :: platform where
  "nothing_held = ((\<lambda>_. False), (\<lambda>_. False))"

lemma held_default: "held default_input_state = nothing_held"
  by (simp add: held_def nothing_held_def fun_eq_iff)

lemma perform_changes:
  assumes act: "\<And>f c v. perform (A c v) (emb f)
      = (if f c = v then None else Some (emb (f(c := v))))"
    and "distinct cs"
  shows "perform_all (map (\<lambda>c. A c (g c)) (filter (\<lambda>c. f c \<noteq> g c) cs)) (emb f)
     = Some (emb (\<lambda>c. if c \<in> set cs then g c else f c))"
  using assms(2)
proof (induction cs arbitrary: f)
  case Nil
  then show ?case by simp
next
  case (Cons c cs)
  show ?case
  proof (cases "f c = g c")
    case True
    then have "(\<lambda>d. if d \<in> set cs then g d else f d) = (\<lambda>d. if d \<in> set (c # cs) then g d else f d)"
      by auto
    with True Cons show ?thesis by simp
  next
    case False
    let ?f = "f(c := g c)"
    have fltr: "filter (\<lambda>d. ?f d \<noteq> g d) cs = filter (\<lambda>d. f d \<noteq> g d) cs"
      using Cons.prems by (intro filter_cong) auto
    have upd: "(\<lambda>d. if d \<in> set cs then g d else ?f d) = (\<lambda>d. if d \<in> set (c # cs) then g d else f d)"
      by auto
    have "perform_all (map (\<lambda>c. A c (g c)) (filter (\<lambda>d. f d \<noteq> g d) cs)) (emb ?f)
        = Some (emb (\<lambda>d. if d \<in> set (c # cs) then g d else f d))"
      using Cons.IH [of ?f] Cons.prems by (simp only: fltr upd distinct.simps simp_thms)
    with False show ?thesis by (simp add: act)
  qed
qed

lemma perform_key_changes:
  "distinct cs \<Longrightarrow>
   perform_all (map (\<lambda>c. ApKey c (g c)) (filter (\<lambda>c. f c \<noteq> g c) cs)) (f, bs)
     = Some ((\<lambda>c. if c \<in> set cs then g c else f c), bs)"
  by (rule perform_changes [of ApKey "\<lambda>f. (f, bs)"]) simp_all

lemma perform_button_changes:
  "distinct cs \<Longrightarrow>
   perform_all (map (\<lambda>c. ApPointerButton c (g c)) (filter (\<lambda>c. f c \<noteq> g c) cs)) (ks, f)
     = Some (ks, (\<lambda>c. if c \<in> set cs then g c else f c))"
  by (rule perform_changes [of ApPointerButton "\<lambda>f. (ks, f)"]) simp_all

lemma distinct_of_nat: "n \<le> 2 ^ LENGTH('a) \<Longrightarrow> distinct (map of_nat [0..<n] :: 'a::len word list)"
  by (auto simp: distinct_map intro!: inj_onI) (metis less_le_trans unat_of_nat_small)

lemma in_of_nat_range:
  "n \<le> 2 ^ LENGTH('a) \<Longrightarrow> c \<in> set (map of_nat [0..<n]) \<longleftrightarrow> unat c < n" for c :: "'a::len word"
proof -
  assume n: "n \<le> 2 ^ LENGTH('a)"
  have "c = of_nat (unat c)" by simp
  with n show ?thesis by (auto simp: unat_of_nat_small image_iff intro!: bexI [of _ "unat c"])
qed

lemma snapshot_actions_perform: "perform_all (snapshot_actions s t) (held s) = Some (held t)"
proof -
  let ?cs = "map of_nat [0..<Suc (unat MAX_KEY_CODE)] :: u16 list"
  let ?bs = "map of_nat [0..<16] :: u8 list"
  have max: "Suc (unat MAX_KEY_CODE) = 512" by (simp add: MAX_KEY_CODE_def)
  have keys: "(\<lambda>c. if c \<in> set ?cs then key_pressed t c else key_pressed s c) = key_pressed t"
    unfolding max by (subst in_of_nat_range) (auto simp: key_pressed_iff fun_eq_iff)
  have buttons: "(\<lambda>c. if c \<in> set ?bs then button_pressed t c else button_pressed s c)
      = button_pressed t"
    by (subst in_of_nat_range) (auto simp: button_pressed_iff fun_eq_iff)
  have "distinct ?cs" "distinct ?bs"
    unfolding max by (rule distinct_of_nat, simp)+
  then show ?thesis
    by (simp only: snapshot_actions_def held_def perform_all_append perform_key_changes
        perform_button_changes keys buttons Option.bind.simps)
qed

section \<open>The reconciler keeps the platform in step\<close>

text \<open>The events the wire decoder can produce; a snapshot is an array of eight key words.\<close>

definition valid_event :: "input_event \<Rightarrow> bool" where
  "valid_event e \<longleftrightarrow> is_ok (encode_event e) \<and> (\<forall>s. e = EvSnapshot s \<longrightarrow> wf_state s)"

fun valid_cmd :: "input_cmd \<Rightarrow> bool" where
  "valid_cmd (ApplyMessage m) = valid_event (im_event m)"
| "valid_cmd DisconnectPlan = True"
| "valid_cmd ReleaseAllPlan = True"

fun actions :: "input_reply \<Rightarrow> applied_input list" where
  "actions (Reconciled (Inl e)) = []"
| "actions (Reconciled (Inr (Applied as))) = as"
| "actions (Reconciled (Inr IgnoredStaleSequence)) = []"
| "actions (Reconciled (Inr IgnoredStaleEpoch)) = []"
| "actions (Released as) = as"

lemma release_all_perform:
  "ir_state (fst (release_all r)) = default_input_state"
  "perform_all (snd (release_all r)) (held (ir_state r)) = Some nothing_held"
  by (simp_all add: release_all_def reconcile_snapshot_def snapshot_actions_perform
      flip: held_default)

lemma apply_fresh_valid:
  assumes "valid_event e" and "wf_state (ir_state r)"
  obtains r' as where "apply_fresh r e = (r', Ok as)" "wf_state (ir_state r')"
    "perform_all as (held (ir_state r)) = Some (held (ir_state r'))"
    "ir_epoch r' = ir_epoch r" "ir_epoch_retired r' = ir_epoch_retired r"
proof (cases e)
  case (EvKey code pressed)
  then have "unat code < 512"
    using assms(1) by (auto simp: valid_event_def validate_key_def MAX_KEY_CODE_def word_less_nat_alt
        is_ok_iff split: if_splits)
  then obtain s where s: "set_key (ir_state r) code pressed = (s, Ok ())" "wf_state s"
    "\<And>c. key_pressed s c = (if c = code then pressed else key_pressed (ir_state r) c)"
    "\<And>b. button_pressed s b = button_pressed (ir_state r) b"
    using set_key_spec [OF assms(2), of code pressed] by (metis prod.collapse)
  show ?thesis
  proof (cases "key_pressed (ir_state r) code = pressed")
    case True
    with EvKey assms(2) show ?thesis by (intro that [of r "[]"]) simp_all
  next
    case False
    with EvKey s show ?thesis
      by (intro that [of "r\<lparr>ir_state := s\<rparr>" "[ApKey code pressed]"])
        (auto simp: held_def fun_eq_iff)
  qed
next
  case (EvPointerButton button pressed)
  then have "unat button < 16"
    using assms(1) by (auto simp: valid_event_def word_le_nat_alt split: if_splits)
  then obtain s where s: "set_button (ir_state r) button pressed = (s, Ok ())" "wf_state s"
    "\<And>b. button_pressed s b = (if b = button then pressed else button_pressed (ir_state r) b)"
    "\<And>c. key_pressed s c = key_pressed (ir_state r) c"
    using set_button_spec [of button "ir_state r" pressed] assms(2) by (metis prod.collapse)
  show ?thesis
  proof (cases "button_pressed (ir_state r) button = pressed")
    case True
    with EvPointerButton assms(2) show ?thesis by (intro that [of r "[]"]) simp_all
  next
    case False
    with EvPointerButton s show ?thesis
      by (intro that [of "r\<lparr>ir_state := s\<rparr>" "[ApPointerButton button pressed]"])
        (auto simp: held_def fun_eq_iff)
  qed
qed (use assms that in \<open>auto simp: reconcile_snapshot_def release_all_def snapshot_actions_perform
      valid_event_def\<close>)

lemma apply_sequenced_perform:
  assumes "valid_event (im_event m)" and "wf_state (ir_state r)"
  shows "wf_state (ir_state (fst (apply_sequenced r m)))
    \<and> perform_all (actions (Reconciled (snd (apply_sequenced r m)))) (held (ir_state r))
        = Some (held (ir_state (fst (apply_sequenced r m))))"
  using assms
  by (cases rule: apply_fresh_valid [OF assms]) (simp add: apply_sequenced_def assms)

lemma apply_newer_epoch_perform:
  assumes "valid_event (im_event m)"
  shows "wf_state (ir_state (fst (apply_newer_epoch r m)))
    \<and> perform_all (actions (Reconciled (snd (apply_newer_epoch r m)))) (held (ir_state r))
        = Some (held (ir_state (fst (apply_newer_epoch r m))))"
proof -
  let ?r = "(fst (release_all r))\<lparr>ir_epoch := Some (im_session_epoch m), ir_epoch_retired := False,
                 ir_last_sequence := None\<rparr>"
  have state: "ir_state ?r = default_input_state"
    by (simp add: release_all_perform)
  then obtain r' as where fresh: "apply_fresh ?r (im_event m) = (r', Ok as)"
    "wf_state (ir_state r')" "perform_all as nothing_held = Some (held (ir_state r'))"
    using apply_fresh_valid [OF assms, of ?r] by (metis held_default wf_default)
  then have "apply_newer_epoch r m =
      (r'\<lparr>ir_last_sequence := Some (im_sequence m)\<rparr>, Ok (Applied (snd (release_all r) @ as)))"
    by (simp add: apply_newer_epoch_def split_beta Let_def)
  with fresh show ?thesis
    by (simp add: perform_all_append release_all_perform)
qed

lemma input_step_perform:
  assumes "valid_cmd c" and "wf_state (ir_state r)"
  shows "wf_state (ir_state (fst (input_step r c)))
    \<and> perform_all (actions (snd (input_step r c))) (held (ir_state r))
        = Some (held (ir_state (fst (input_step r c))))"
proof (cases c)
  case (ApplyMessage m)
  then have v: "valid_event (im_event m)" using assms by simp
  let ?r = "r\<lparr>ir_epoch_retired := False\<rparr>"
  show ?thesis
    using assms(2) ApplyMessage apply_sequenced_perform [OF v, of ?r]
      apply_newer_epoch_perform [OF v, of ?r]
      apply_sequenced_perform [OF v,
        of "r\<lparr>ir_epoch := Some (im_session_epoch m), ir_epoch_retired := False\<rparr>"]
    by (cases "ir_epoch r") (auto simp: apply_message_def Let_def)
next
  case DisconnectPlan
  then show ?thesis
    by (simp add: disconnect_release_plan_def split_beta Let_def release_all_perform held_default)
next
  case ReleaseAllPlan
  then show ?thesis
    by (simp add: release_all_plan_def release_all_perform held_default)
qed

lemma run_perform:
  assumes "list_all valid_cmd cs" and "wf_state (ir_state r)"
  shows "perform_all (concat (map actions (snd (run input_step r cs)))) (held (ir_state r))
    = Some (held (ir_state (fst (run input_step r cs))))"
  using assms
proof (induction cs arbitrary: r)
  case Nil
  then show ?case by simp
next
  case (Cons c cs)
  then show ?case
    using input_step_perform [of c r] by (simp add: perform_all_append)
qed

section \<open>Order of application\<close>

text \<open>
  Messages are ordered by epoch and then sequence number; \<open>position\<close> is that order as a number, and
  \<open>next_position\<close> the first position the reconciler still accepts.
\<close>

definition position :: "input_message \<Rightarrow> nat" where
  "position m = unat (im_session_epoch m) * 2 ^ 64 + unat (im_sequence m)"

definition next_position :: "input_reconciler \<Rightarrow> nat" where
  "next_position r = (case ir_epoch r of
     None \<Rightarrow> 0
   | Some epoch \<Rightarrow> if ir_epoch_retired r then (unat epoch + 1) * 2 ^ 64
       else (case ir_last_sequence r of
           None \<Rightarrow> unat epoch * 2 ^ 64
         | Some sequence \<Rightarrow> unat epoch * 2 ^ 64 + unat sequence + 1))"

fun applied_position :: "input_cmd \<Rightarrow> input_reply \<Rightarrow> nat option" where
  "applied_position (ApplyMessage m) (Reconciled (Inr (Applied as))) = Some (position m)"
| "applied_position c r = None"

lemma apply_fresh_keeps:
  "ir_epoch (fst (apply_fresh r e)) = ir_epoch r"
  "ir_epoch_retired (fst (apply_fresh r e)) = ir_epoch_retired r"
  "ir_last_sequence (fst (apply_fresh r e)) = ir_last_sequence r"
  by (cases e; auto simp: reconcile_snapshot_def release_all_def split: prod.splits sum.splits)+

lemma release_all_keeps [simp]:
  "ir_epoch (fst (release_all r)) = ir_epoch r"
  "ir_last_sequence (fst (release_all r)) = ir_last_sequence r"
  by (simp_all add: release_all_def reconcile_snapshot_def)

lemma epoch_before: "a < b \<Longrightarrow> (unat a + 1) * 2 ^ 64 \<le> unat b * 2 ^ 64" for a b :: u32
  by (simp add: word_less_nat_alt)

lemma sequence_bound: "unat s + 1 \<le> 2 ^ 64" for s :: u64
  using unsigned_less [of s, where 'a = nat] by simp

lemma next_position_state: "next_position (r\<lparr>ir_state := s\<rparr>) = next_position r"
  by (simp add: next_position_def cong: option.case_cong if_cong)

lemma next_position_le:
  "ir_epoch r = Some e \<Longrightarrow> next_position r \<le> (unat e + 1) * 2 ^ 64"
  using sequence_bound by (auto simp: next_position_def add.assoc split: option.splits)

lemma apply_sequenced_position:
  assumes "\<not> ir_epoch_retired r" and "ir_epoch r = Some (im_session_epoch m)"
  shows "next_position r \<le> next_position (fst (apply_sequenced r m))
    \<and> (\<forall>as. snd (apply_sequenced r m) = Ok (Applied as) \<longrightarrow>
        next_position r \<le> position m \<and> position m < next_position (fst (apply_sequenced r m)))"
proof (cases "is_some_and (ir_last_sequence r) (\<lambda>sequence. im_sequence m \<le> sequence)")
  case True
  then show ?thesis by (simp add: apply_sequenced_def)
next
  case False
  obtain r' res where fresh: "apply_fresh r (im_event m) = (r', res)" by fastforce
  have le: "next_position r \<le> position m"
    using assms False
    by (auto simp: next_position_def position_def is_some_and_iff word_le_nat_alt not_le
        split: option.splits)
  have keep: "ir_epoch r' = ir_epoch r" "ir_epoch_retired r' = ir_epoch_retired r"
      "ir_last_sequence r' = ir_last_sequence r"
    using apply_fresh_keeps [of r "im_event m"] by (simp_all add: fresh)
  have "next_position r' = next_position r"
    by (simp only: next_position_def keep)
  with assms False le keep show ?thesis
    by (cases res) (simp_all add: apply_sequenced_def fresh next_position_def position_def)
qed

lemma apply_newer_epoch_position:
  "unat (im_session_epoch m) * 2 ^ 64 \<le> next_position (fst (apply_newer_epoch r m))
    \<and> (\<forall>as. snd (apply_newer_epoch r m) = Ok (Applied as) \<longrightarrow>
        position m < next_position (fst (apply_newer_epoch r m)))"
proof -
  obtain r1 as where ra: "release_all r = (r1, as)" by fastforce
  let ?r = "r1\<lparr>ir_epoch := Some (im_session_epoch m), ir_epoch_retired := False,
                 ir_last_sequence := None\<rparr>"
  obtain r' res where fresh: "apply_fresh ?r (im_event m) = (r', res)" by fastforce
  have keep: "ir_epoch r' = Some (im_session_epoch m)" "\<not> ir_epoch_retired r'"
      "ir_last_sequence r' = None"
    using apply_fresh_keeps [of ?r "im_event m"] by (simp_all add: fresh)
  have "apply_newer_epoch r m = (case res of Inl e \<Rightarrow> (r', Err e) | Inr fresh \<Rightarrow>
      (r'\<lparr>ir_last_sequence := Some (im_sequence m)\<rparr>, Ok (Applied (as @ fresh))))"
    by (simp add: apply_newer_epoch_def Let_def ra fresh)
  with keep show ?thesis
    by (cases res) (simp_all add: next_position_def position_def)
qed

lemma apply_message_position:
  "next_position r \<le> next_position (fst (apply_message r m))
    \<and> (\<forall>as. snd (apply_message r m) = Ok (Applied as) \<longrightarrow>
        next_position r \<le> position m \<and> position m < next_position (fst (apply_message r m)))"
proof (cases "ir_epoch r")
  case None
  let ?r = "r\<lparr>ir_epoch := Some (im_session_epoch m), ir_epoch_retired := False\<rparr>"
  have "apply_message r m = apply_sequenced ?r m"
    using None by (simp add: apply_message_def Let_def)
  moreover have "next_position r = 0"
    using None by (simp add: next_position_def)
  ultimately show ?thesis
    using apply_sequenced_position [of ?r m] by simp
next
  case (Some e)
  let ?r = "r\<lparr>ir_epoch_retired := False\<rparr>"
  consider (stale) "im_session_epoch m < e" | (same) "im_session_epoch m = e"
    | (newer) "e < im_session_epoch m" by fastforce
  then show ?thesis
  proof cases
    case stale
    then show ?thesis
      using Some by (simp add: apply_message_def less_imp_le Let_def next_position_def)
  next
    case same
    show ?thesis
    proof (cases "ir_epoch_retired r")
      case True
      with same Some show ?thesis by (simp add: apply_message_def)
    next
      case False
      with same Some have "apply_message r m = apply_sequenced r m"
        by (cases r) (simp add: apply_message_def Let_def)
      with False same Some apply_sequenced_position [of r m] show ?thesis by simp
    qed
  next
    case newer
    have "next_position r \<le> unat (im_session_epoch m) * 2 ^ 64"
      using next_position_le [OF Some] epoch_before [OF newer] by (rule order_trans)
    moreover have "unat (im_session_epoch m) * 2 ^ 64 \<le> position m"
      by (simp add: position_def)
    moreover have "apply_message r m = apply_newer_epoch ?r m"
      using Some newer by (auto simp: apply_message_def Let_def)
    ultimately show ?thesis
      using apply_newer_epoch_position [of m ?r] by (auto intro: order_trans)
  qed
qed

interpretation input_order: fresh_issuer input_step "\<lambda>_. True" next_position applied_position
proof
  fix r c n
  show "next_position r \<le> next_position (fst (input_step r c))"
  proof (cases c)
    case (ApplyMessage m)
    then show ?thesis using apply_message_position [of r m] by simp
  next
    case DisconnectPlan
    then show ?thesis
      using next_position_le [of r]
      by (cases "ir_epoch r")
        (auto simp: disconnect_release_plan_def split_beta Let_def next_position_def)
  next
    case ReleaseAllPlan
    then show ?thesis
      by (simp add: release_all_plan_def release_all_def reconcile_snapshot_def next_position_state)
  qed
  show "next_position r \<le> n \<and> n < next_position (fst (input_step r c))"
    if "applied_position c (snd (input_step r c)) = Some n"
    using that apply_message_position
    by (cases "(c, snd (input_step r c))" rule: applied_position.cases) auto
qed simp

lemma apply_sequenced_epoch:
  "ir_epoch (fst (apply_sequenced r m)) = ir_epoch r"
  "ir_epoch_retired (fst (apply_sequenced r m)) = ir_epoch_retired r"
  using apply_fresh_keeps [of r "im_event m"]
  by (auto simp: apply_sequenced_def split: prod.split sum.split)

lemma apply_newer_epoch_epoch: "ir_epoch (fst (apply_newer_epoch r m)) = Some (im_session_epoch m)"
proof -
  let ?r = "(fst (release_all r))\<lparr>ir_epoch := Some (im_session_epoch m), ir_epoch_retired := False,
                 ir_last_sequence := None\<rparr>"
  show ?thesis
    using apply_fresh_keeps(1) [of ?r "im_event m"]
    by (auto simp: apply_newer_epoch_def split_beta Let_def split: prod.split sum.split)
qed

text \<open>
  \<open>past_epoch e r\<close>: the reconciler is past epoch \<open>e\<close>, because a newer one was opened or because \<open>e\<close>
  was retired by a disconnect. Messages of the epochs it is past change nothing, and no call
  brings such an epoch back.
\<close>

definition past_epoch :: "u32 \<Rightarrow> input_reconciler \<Rightarrow> bool" where
  "past_epoch e r \<longleftrightarrow> is_some_and (ir_epoch r) (\<lambda>current. e < current \<or> e = current \<and> ir_epoch_retired r)"

lemma retired_ignored:
  assumes "past_epoch e r" and "im_session_epoch m \<le> e"
  shows "apply_message r m = (r, Ok IgnoredStaleEpoch)"
proof -
  obtain current where c: "ir_epoch r = Some current"
    and e: "e < current \<or> e = current \<and> ir_epoch_retired r"
    using assms(1) by (auto simp: past_epoch_def is_some_and_iff)
  show ?thesis
  proof (cases "ir_epoch_retired r")
    case True
    then show ?thesis
      using c e assms(2) by (auto simp: apply_message_def)
  next
    case False
    then have "r\<lparr>ir_epoch_retired := False\<rparr> = r" by (cases r) simp
    moreover have "im_session_epoch m < current"
      using e False assms(2) by auto
    ultimately show ?thesis
      using c False by (simp add: apply_message_def Let_def)
  qed
qed

lemma retired_apply_message:
  assumes "past_epoch e r"
  shows "past_epoch e (fst (apply_message r m))"
proof (cases "im_session_epoch m \<le> e")
  case True
  then show ?thesis using assms by (simp add: retired_ignored)
next
  case False
  obtain current where c: "ir_epoch r = Some current"
    and e: "e < current \<or> e = current \<and> ir_epoch_retired r"
    using assms by (auto simp: past_epoch_def is_some_and_iff)
  show ?thesis
    using c e False
    by (auto simp: apply_message_def past_epoch_def Let_def apply_sequenced_epoch apply_newer_epoch_epoch not_le)
qed

lemma retired_step: "past_epoch e r \<Longrightarrow> past_epoch e (fst (input_step r c))"
proof (cases c)
  case (ApplyMessage m)
  then show "past_epoch e r \<Longrightarrow> ?thesis" by (simp add: retired_apply_message)
qed (auto simp: disconnect_release_plan_def release_all_plan_def release_all_def reconcile_snapshot_def
    past_epoch_def is_some_and_iff split_beta Let_def)

interpretation retirement: machine_invariant input_step "past_epoch e" for e
  by unfold_locales (rule retired_step)

lemma retired_never_applied:
  assumes "past_epoch e r" and "(ApplyMessage m, Reconciled (Ok (Applied as))) \<in> set (trace input_step r cs)"
  shows "e < im_session_epoch m"
  using assms(2)
proof (rule trace_memE)
  fix before
  let ?r = "fst (run input_step r before)"
  assume "Reconciled (Ok (Applied as)) = snd (input_step ?r (ApplyMessage m))"
  then have "snd (apply_message ?r m) \<noteq> Ok IgnoredStaleEpoch" by auto
  with retired_ignored [OF retirement.run_inv [OF assms(1)], of m before] show ?thesis
    by (cases "im_session_epoch m \<le> e") simp_all
qed

lemma disconnect_retires: "ir_epoch r = Some e \<Longrightarrow> past_epoch e (fst (input_step r DisconnectPlan))"
  by (simp add: disconnect_release_plan_def split_beta Let_def past_epoch_def)

text \<open>The epoch never goes back, and every message received is of it or of an older one.\<close>

definition epoch_reached :: "u32 \<Rightarrow> input_reconciler \<Rightarrow> bool" where
  "epoch_reached e r \<longleftrightarrow> is_some_and (ir_epoch r) (\<lambda>current. e \<le> current)"

lemma epoch_reached_message: "epoch_reached (im_session_epoch m) (fst (apply_message r m))"
  by (cases "ir_epoch r")
    (auto simp: apply_message_def epoch_reached_def Let_def apply_sequenced_epoch apply_newer_epoch_epoch
      is_some_and_iff)

lemma epoch_reached_step: "epoch_reached e r \<Longrightarrow> epoch_reached e (fst (input_step r c))"
proof (cases c)
  case (ApplyMessage m)
  moreover assume "epoch_reached e r"
  ultimately show ?thesis
    by (auto simp: apply_message_def epoch_reached_def Let_def apply_sequenced_epoch apply_newer_epoch_epoch
      is_some_and_iff)
qed (auto simp: disconnect_release_plan_def release_all_plan_def release_all_def reconcile_snapshot_def
    epoch_reached_def split_beta Let_def)

interpretation epoch_order: machine_invariant input_step "epoch_reached e" for e
  by unfold_locales (rule epoch_reached_step)

lemma received_epoch_reached:
  assumes "ApplyMessage m \<in> set cs"
  shows "epoch_reached (im_session_epoch m) (fst (run input_step r cs))"
proof -
  obtain before after where "cs = before @ ApplyMessage m # after"
    using split_list [OF assms] by blast
  then show ?thesis
    by (simp add: run_append_fst epoch_order.run_inv epoch_reached_message)
qed

lemma first_message_epoch:
  "ir_epoch (fst (apply_message new_reconciler m)) = Some (im_session_epoch m)"
  by (simp add: apply_message_def new_reconciler_def apply_sequenced_epoch Let_def)

lemma disconnect_keeps_epoch: "ir_epoch (fst (disconnect_release_plan r)) = ir_epoch r"
  by (simp add: disconnect_release_plan_def split_beta Let_def)

section \<open>The wire format\<close>

definition wf_event :: "input_event \<Rightarrow> bool" where
  "wf_event e \<longleftrightarrow> (\<forall>s. e = EvSnapshot s \<longrightarrow> wf_state s)"

lemma decode_bool_byte [wire_simps]: "decode_bool (bool_byte b) = Ok b"
  by (simp add: decode_bool_def bool_byte_def)

lemma decode_bool_Ok: "decode_bool w = Ok b \<longleftrightarrow> w = bool_byte b"
  by (auto simp: decode_bool_def bool_byte_def)

lemma length_eq_8_conv:
  "length xs = 8 \<Longrightarrow> \<exists>a b c d e f g h. xs = [a, b, c, d, e, f, g, h]"
  by (auto simp: length_Suc_conv numeral_eq_Suc)

lemma decode_encode_state:
  assumes "wf_state s"
  shows "decode_state (encode_state_into s) = Ok s"
proof -
  obtain a b c d e f g h where w: "is_key_words s = [a, b, c, d, e, f, g, h]"
    using assms length_eq_8_conv [of "is_key_words s"] by (auto simp: wf_state_def)
  then show ?thesis
    by (cases s) (simp add: decode_state_def encode_state_into_def KEY_WORDS_def upt_rec
        read_u64_def read_u16_def wire_simps)
qed

lemma encode_decode_state:
  assumes "decode_state bs = Ok s"
  shows "wf_state s" "encode_state_into s = bs"
proof -
  have len: "length bs = 66" and s: "s = \<lparr>is_key_words = map (\<lambda>index. read_u64 bs (index * 8)) [0..<8],
      is_buttons = read_u16 bs 64\<rparr>"
    using assms by (auto simp: decode_state_def KEY_WORDS_def split: if_splits)
  show "wf_state s" by (simp add: s wf_state_def)
  have "bs = take 66 bs" using len by simp
  also have "\<dots> = concat (cut_fields 0 [8, 8, 8, 8, 8, 8, 8, 8, 2] bs)"
    by (rule take_fields) simp
  also have "\<dots> = encode_state_into s"
    using len by (simp add: s encode_state_into_def upt_rec to_be_read)
  finally show "encode_state_into s = bs" ..
qed

lemma decode_encode_event:
  assumes "wf_event e" and "encode_event e = Ok (kind, payload)"
  shows "decode_event kind payload = Ok e"
  using assms
  by (cases e)
    (auto simp: decode_event_def wf_event_def decode_encode_state read_u16_def read_u32_def wire_simps
      nth_append split: if_splits)

lemma length_3_conv: "length xs = 3 \<Longrightarrow> xs = slice 0 2 xs @ [xs ! 2]"
  by (auto simp: slice_def length_Suc_conv numeral_eq_Suc)

lemma length_2_conv: "length xs = 2 \<Longrightarrow> xs = [xs ! 0, xs ! 1]"
  by (auto simp: length_Suc_conv numeral_eq_Suc)

lemma cut_whole: "sum_list ns = length xs \<Longrightarrow> concat (cut_fields 0 ns xs) = xs"
  by (simp add: concat_fields slice_full)

lemma encode_decode_event:
  assumes "decode_event kind payload = Ok e"
  shows "wf_event e \<and> encode_event e = Ok (kind, payload)"
  using assms
    cut_whole [of "[4, 4]" payload] cut_whole [of "[4, 4, 4, 4]" payload]
    cut_whole [of "[2, 2]" payload] length_3_conv [of payload] length_2_conv [of payload]
  by (auto simp: decode_event_def Let_def wf_event_def to_be_read decode_bool_Ok
      encode_decode_state split: if_splits simp del: add_2_eq_Suc add_2_eq_Suc')

lemma event_payload_length:
  "wf_event e \<Longrightarrow> encode_event e = Ok (kind, payload) \<Longrightarrow> length payload \<le> 66"
  by (cases e) (auto simp: encode_state_into_def length_concat comp_def sum_list_triv wf_event_def
      wf_state_def split: if_splits)

definition ack_flags :: "bool \<Rightarrow> u32" where
  "ack_flags ack = (if ack then INPUT_FLAG_ACK_REQUESTED else 0)"

text \<open>\<open>encode\<close> and \<open>encode_ack_requested\<close> as one encoder of envelopes.\<close>

definition encode_envelope :: "decoded_input_envelope \<Rightarrow> input_error + bytes" where
  "encode_envelope env =
     (if de_ack_requested env then encode_ack_requested (de_message env)
      else encode_input (de_message env))"

definition input_header :: "u8 \<Rightarrow> nat \<Rightarrow> input_message \<Rightarrow> bool \<Rightarrow> bytes" where
  "input_header kind n m ack = INPUT_MAGIC @ [INPUT_VERSION, kind] @ to_be_bytes (of_nat n :: u16)
     @ to_be_bytes (im_session_epoch m) @ to_be_bytes (im_sequence m) @ to_be_bytes (ack_flags ack)"

lemma encode_envelope_iff:
  assumes "wf_event (im_event (de_message env))"
  shows "encode_envelope env = Ok bs \<longleftrightarrow> (\<exists>kind payload.
    encode_event (im_event (de_message env)) = Ok (kind, payload)
    \<and> bs = input_header kind (length payload) (de_message env) (de_ack_requested env) @ payload)"
proof -
  have "encode_envelope env
      = encode_with_flags (de_message env) (ack_flags (de_ack_requested env))"
    by (simp add: encode_envelope_def encode_ack_requested_def encode_input_def ack_flags_def)
  then show ?thesis
    using event_payload_length [OF assms]
    by (cases "encode_event (im_event (de_message env))")
      (fastforce simp: encode_with_flags_def MAX_MESSAGE_BYTES_def HEADER_LEN_def input_header_def)+
qed

lemma input_header_fixed:
  "length (input_header kind n m ack) = HEADER_LEN"
  "slice 0 4 (input_header kind n m ack @ payload) = INPUT_MAGIC"
  "(input_header kind n m ack @ payload) ! 4 = INPUT_VERSION"
  "(input_header kind n m ack @ payload) ! 5 = kind"
  "read_u16 (input_header kind n m ack @ payload) 6 = of_nat n"
  "read_u32 (input_header kind n m ack @ payload) 8 = im_session_epoch m"
  "read_u64 (input_header kind n m ack @ payload) 12 = im_sequence m"
  "read_u32 (input_header kind n m ack @ payload) 20 = ack_flags ack"
  by (simp_all add: input_header_def INPUT_MAGIC_def HEADER_LEN_def read_u16_def read_u32_def
      read_u64_def wire_simps nth_append nth_Cons')

lemma flags_cases: "flags AND NOT 1 = 0 \<longleftrightarrow> flags = ack_flags (flags AND 1 \<noteq> 0)" for flags :: u32
proof -
  have "flags = (flags AND NOT 1) OR (flags AND 1)"
    by (rule bit_word_eqI) (auto simp: bit_simps)
  moreover have "flags AND 1 = 0 \<or> flags AND 1 = 1"
    by (simp add: and_one_eq mod2_eq_if)
  moreover have "(1 :: u32) AND NOT 1 = 0" by simp
  ultimately show ?thesis
    by (auto simp: ack_flags_def INPUT_FLAG_ACK_REQUESTED_def) 
qed

lemmas flags_cases_neg = flags_cases [simplified]

lemma ack_flags_simps:
  "ack_flags a AND - 2 = 0" "ack_flags a AND 1 = 0 \<longleftrightarrow> \<not> a"
  by (simp_all add: ack_flags_def INPUT_FLAG_ACK_REQUESTED_def)

lemma input_header_read:
  assumes "HEADER_LEN \<le> length bs" and "slice 0 4 bs = INPUT_MAGIC" and "bs ! 4 = INPUT_VERSION"
    and "HEADER_LEN + unat (read_u16 bs 6) = length bs" and "read_u32 bs 20 = ack_flags ack"
    and "im_session_epoch m = read_u32 bs 8" and "im_sequence m = read_u64 bs 12"
  shows "input_header (bs ! 5) (length bs - HEADER_LEN) m ack = take HEADER_LEN bs"
proof -
  have "length bs - HEADER_LEN = unat (read_u16 bs 6)"
    using assms by simp
  then have "(of_nat (length bs - HEADER_LEN) :: u16) = read_u16 bs 6"
    by simp
  moreover have "to_be_bytes (ack_flags ack) = slice 20 4 bs"
    using assms(1) by (simp add: to_be_read HEADER_LEN_def flip: assms(5))
  ultimately show ?thesis
    using assms
    by (subst take_fields [of "[4, 1, 1, 2, 4, 8, 4]"])
      (simp_all add: input_header_def to_be_read slice_1 HEADER_LEN_def)
qed

lemma decode_envelope_iff:
  "decode_envelope bs = Ok env \<longleftrightarrow>
     wf_event (im_event (de_message env)) \<and> encode_envelope env = Ok bs"
  (is "?dec \<longleftrightarrow> ?enc")
proof
  assume ?dec
  then have h: "HEADER_LEN \<le> length bs" "slice 0 4 bs = INPUT_MAGIC" "bs ! 4 = INPUT_VERSION"
      "HEADER_LEN + unat (read_u16 bs 6) = length bs"
    and flags: "read_u32 bs 20 = ack_flags (de_ack_requested env)"
    and m: "im_session_epoch (de_message env) = read_u32 bs 8"
      "im_sequence (de_message env) = read_u64 bs 12"
    and event: "decode_event (bs ! 5) (drop HEADER_LEN bs) = Ok (im_event (de_message env))"
    by (auto simp: decode_envelope_def Let_def flags_cases_neg INPUT_FLAG_ACK_REQUESTED_def
        split: if_splits)
  have "bs = input_header (bs ! 5) (length (drop HEADER_LEN bs)) (de_message env)
      (de_ack_requested env) @ drop HEADER_LEN bs"
    using input_header_read [OF h flags m] by simp
  with encode_decode_event [OF event] show ?enc
    by (auto simp: encode_envelope_iff)
next
  assume enc: ?enc
  then obtain kind payload where
    e: "encode_event (im_event (de_message env)) = Ok (kind, payload)" and
    bs: "bs = input_header kind (length payload) (de_message env) (de_ack_requested env) @ payload"
    by (auto simp: encode_envelope_iff)
  have len: "length payload \<le> 66"
    using enc e event_payload_length by blast
  then have "unat (of_nat (length payload) :: u16) = length payload"
    by (intro unat_of_nat_small) simp
  moreover have "decode_event kind payload = Ok (im_event (de_message env))"
    using enc e decode_encode_event by blast
  moreover have "\<lparr>de_message = \<lparr>im_session_epoch = im_session_epoch (de_message env),
      im_sequence = im_sequence (de_message env), im_event = im_event (de_message env)\<rparr>,
      de_ack_requested = de_ack_requested env\<rparr> = env"
    by simp
  ultimately show ?dec
    using len by (simp add: decode_envelope_def bs input_header_fixed HEADER_LEN_def
        MAX_MESSAGE_BYTES_def INPUT_FLAG_ACK_REQUESTED_def ack_flags_simps Let_def)
qed

interpretation input_codec: wire_codec encode_envelope decode_envelope
  "\<lambda>env. wf_event (im_event (de_message env))"
  by unfold_locales (auto simp: decode_envelope_iff)

lemma decoded_valid: "decode_envelope bs = Ok env \<Longrightarrow> valid_event (im_event (de_message env))"
  by (auto simp: decode_envelope_iff encode_envelope_iff valid_event_def wf_event_def)

section \<open>Properties\<close>

text \<open>
  The input codec is exact: a byte string decodes to an envelope precisely when it is the
  encoding of that envelope (with or without the acknowledgment flag), and the events it yields
  are within range.
\<close>

theorem input_codec_exact:
  "decode_envelope bs = Ok env \<longleftrightarrow>
     wf_event (im_event (de_message env))
     \<and> (if de_ack_requested env then encode_ack_requested (de_message env)
        else encode_input (de_message env)) = Ok bs"
  using input_codec.dec_iff [of bs env] by (simp add: encode_envelope_def)

text \<open>
  C3: the platform never gets out of step with the reconciler. Take any history of decoded
  messages, disconnects and focus losses, in any order and with any duplicates or stale epochs.
  The emitted actions never press a key or button that is down and never release one that is up,
  and what they leave held is exactly the reconciler's state.
\<close>

theorem platform_follows_reconciler:
  assumes "list_all valid_cmd cs"
  shows "perform_all (concat (map actions (snd (run input_step new_reconciler cs)))) nothing_held
    = Some (held (ir_state (fst (run input_step new_reconciler cs))))"
proof -
  have "ir_state new_reconciler = default_input_state"
    by (simp add: new_reconciler_def)
  then show ?thesis
    using run_perform [OF assms, of new_reconciler] by (simp add: held_default)
qed

theorem platform_follows_reconciler_witness:
  "perform_all (concat (map actions (snd (run input_step new_reconciler
      [ApplyMessage \<lparr>im_session_epoch = 1, im_sequence = 1, im_event = EvKey 4 True\<rparr>,
       ApplyMessage \<lparr>im_session_epoch = 2, im_sequence = 1, im_event = EvPointerButton 1 True\<rparr>,
       DisconnectPlan])))) nothing_held \<noteq> None"
  by (subst platform_follows_reconciler)
    (simp_all add: valid_event_def validate_key_def MAX_KEY_CODE_def word_le_nat_alt)

text \<open>
  C35: a disconnect leaves nothing held on the platform and retires the epoch for good: whatever is
  called afterwards (messages of newer epochs, further disconnects, a release of everything), a
  message of that or an older epoch is ignored and changes nothing.
\<close>

theorem disconnect_releases_and_retires:
  assumes "list_all valid_cmd cs" and "r = fst (run input_step new_reconciler (cs @ [DisconnectPlan]))"
  shows "perform_all (concat (map actions (snd (run input_step new_reconciler
        (cs @ [DisconnectPlan]))))) nothing_held = Some nothing_held
    \<and> (\<forall>e m later. ir_epoch r = Some e \<longrightarrow> im_session_epoch m \<le> e \<longrightarrow>
        apply_message (fst (run input_step r later)) m
          = (fst (run input_step r later), Ok IgnoredStaleEpoch))"
proof -
  let ?r = "fst (run input_step new_reconciler cs)"
  have r: "r = fst (disconnect_release_plan ?r)"
    using assms(2) by (simp add: run_append_fst)
  then have "ir_state r = default_input_state"
    by (simp add: disconnect_release_plan_def split_beta Let_def release_all_perform)
  moreover have "perform_all (concat (map actions (snd (run input_step new_reconciler
      (cs @ [DisconnectPlan]))))) nothing_held = Some (held (ir_state r))"
    using run_perform [of "cs @ [DisconnectPlan]" new_reconciler] assms
    by (simp add: new_reconciler_def held_default)
  moreover have "past_epoch e r" if "ir_epoch r = Some e" for e
    using disconnect_retires [of ?r e] that by (simp add: r disconnect_keeps_epoch)
  ultimately show ?thesis
    by (auto simp: held_default intro: retired_ignored retirement.run_inv)
qed

theorem disconnect_releases_and_retires_witness:
  "snd (apply_message (fst (run input_step (fst (run input_step new_reconciler
     ([ApplyMessage \<lparr>im_session_epoch = 5, im_sequence = 1, im_event = EvKey 4 True\<rparr>]
       @ [DisconnectPlan]))) [ReleaseAllPlan]))
     \<lparr>im_session_epoch = 5, im_sequence = 2, im_event = EvKey 4 True\<rparr>) = Ok IgnoredStaleEpoch"
proof -
  let ?cs = "[ApplyMessage \<lparr>im_session_epoch = 5, im_sequence = 1, im_event = EvKey 4 True\<rparr>]"
  let ?r = "fst (run input_step new_reconciler (?cs @ [DisconnectPlan]))"
  let ?m = "\<lparr>im_session_epoch = 5, im_sequence = 2, im_event = EvKey 4 True\<rparr>"
  have "list_all valid_cmd ?cs"
    by (simp add: valid_event_def validate_key_def MAX_KEY_CODE_def)
  moreover have "ir_epoch ?r = Some 5"
    by (simp add: first_message_epoch disconnect_keeps_epoch)
  moreover have "im_session_epoch ?m \<le> 5" by simp
  ultimately have "apply_message (fst (run input_step ?r [ReleaseAllPlan])) ?m
      = (fst (run input_step ?r [ReleaseAllPlan]), Ok IgnoredStaleEpoch)"
    using disconnect_releases_and_retires [of ?cs ?r] by blast
  then show ?thesis by (simp only: snd_conv)
qed

text \<open>
  C5: messages are applied in strictly increasing order of (epoch, sequence), over any history
  including disconnects: no message is applied twice, none after a later one, and none of a
  superseded epoch. Nor is one of a retired epoch: a message applied after a disconnect is of a newer
  epoch than every message received before that disconnect, applied or not.
\<close>

theorem input_applied_in_order:
  "sorted_wrt (<) (granted applied_position input_step r cs)
   \<and> (\<forall>before after m m' as. cs = before @ DisconnectPlan # after \<longrightarrow> ApplyMessage m \<in> set before \<longrightarrow>
        (ApplyMessage m', Reconciled (Ok (Applied as)))
          \<in> set (trace input_step (fst (run input_step r (before @ [DisconnectPlan]))) after) \<longrightarrow>
        im_session_epoch m < im_session_epoch m')"
proof -
  have "im_session_epoch m < im_session_epoch m'"
    if received: "ApplyMessage m \<in> set before" and applied: "(ApplyMessage m', Reconciled (Ok (Applied as)))
        \<in> set (trace input_step (fst (run input_step r (before @ [DisconnectPlan]))) after)"
    for before after m m' as
  proof -
    obtain e where e: "ir_epoch (fst (run input_step r before)) = Some e" "im_session_epoch m \<le> e"
      using received_epoch_reached [OF received, of r] by (auto simp: epoch_reached_def is_some_and_iff)
    have "past_epoch e (fst (run input_step r (before @ [DisconnectPlan])))"
      using disconnect_retires [OF e(1)] by (simp add: run_append_fst)
    with e(2) show ?thesis
      using retired_never_applied [OF _ applied] by (blast intro: le_less_trans)
  qed
  then show ?thesis
    using input_order.granted_increasing [of r cs] by blast
qed

theorem input_applied_in_order_witness:
  "im_session_epoch \<lparr>im_session_epoch = 1, im_sequence = 5, im_event = EvKey 4 True\<rparr> < 2
   \<and> sorted_wrt (<) (granted applied_position input_step new_reconciler
      [ApplyMessage \<lparr>im_session_epoch = 1, im_sequence = 5, im_event = EvKey 4 True\<rparr>, DisconnectPlan,
       ApplyMessage \<lparr>im_session_epoch = 2, im_sequence = 1, im_event = EvWheel 1 1\<rparr>])"
proof -
  let ?m = "\<lparr>im_session_epoch = 1, im_sequence = 5, im_event = EvKey 4 True\<rparr>"
  let ?m' = "\<lparr>im_session_epoch = 2, im_sequence = 1, im_event = EvWheel 1 1\<rparr>"
  let ?cs = "[ApplyMessage ?m] @ DisconnectPlan # [ApplyMessage ?m']"
  have "\<exists>as. (ApplyMessage ?m', Reconciled (Ok (Applied as)))
      \<in> set (trace input_step (fst (run input_step new_reconciler ([ApplyMessage ?m] @ [DisconnectPlan])))
          [ApplyMessage ?m'])"
    by (simp add: new_reconciler_def apply_message_def apply_sequenced_def apply_newer_epoch_def
        disconnect_release_plan_def release_all_def reconcile_snapshot_def set_key_def validate_key_def
        key_pressed_def default_input_state_def KEY_WORDS_def MAX_KEY_CODE_def Let_def word_le_nat_alt)
  moreover have "ApplyMessage ?m \<in> set [ApplyMessage ?m]" by simp
  ultimately show ?thesis
    using input_applied_in_order [of new_reconciler ?cs] by auto
qed

text \<open>
  An event outside the decoder's range can be lost between the release actions of an epoch switch:
  the reconciler forgets the held key, but the caller only sees the error.
\<close>

lemma epoch_switch_error_loses_releases:
  "let r = fst (input_step new_reconciler
         (ApplyMessage \<lparr>im_session_epoch = 1, im_sequence = 1, im_event = EvKey 4 True\<rparr>));
       m = \<lparr>im_session_epoch = 2, im_sequence = 1, im_event = EvKey 600 True\<rparr>
   in key_pressed (ir_state r) 4 \<and> snd (apply_message r m) = Err (IeKey 600)
      \<and> ir_state (fst (apply_message r m)) = default_input_state"
  by (simp add: Let_def new_reconciler_def apply_message_def apply_sequenced_def
      apply_newer_epoch_def release_all_def reconcile_snapshot_def set_key_def validate_key_def
      key_pressed_def default_input_state_def KEY_WORDS_def MAX_KEY_CODE_def)

end
