(* ===== verification/Lifecycle.thy ===== *)
theory Lifecycle
  imports Quic_Wire "HOL-Library.Sublist"
begin

text \<open>
  The lifecycle of one session: the state machine of \<^verbatim>\<open>crates/session/src/lib.rs\<close>, the stamp
  allocation and reconnect policy of \<^verbatim>\<open>crates/session/src/lifecycle.rs\<close>. The random source of the
  allocator is an argument: a function on its own state that fills eight bytes or fails.
\<close>

section \<open>The session state machine\<close>

datatype session_state =
  Idle | Connecting | Authenticating | Negotiating | Streaming | Recovering | Closing | Closed | Failed

datatype session_event =
  EStart | ETransportReady | EAuthenticated | ENegotiated | EContinuityLost
| ERecoveryFrameAccepted | EStop | ETransportClosed | EFail

record session_machine =
  sm_state :: session_state

record transition_error =
  te_state :: session_state
  te_event :: session_event

definition default_machine :: session_machine where
  "default_machine = \<lparr>sm_state = Idle\<rparr>"

fun session_next :: "session_state \<Rightarrow> session_event \<Rightarrow> session_state option" where
  "session_next Idle EStart = Some Connecting"
| "session_next Connecting ETransportReady = Some Authenticating"
| "session_next Authenticating EAuthenticated = Some Negotiating"
| "session_next Negotiating ENegotiated = Some Streaming"
| "session_next Streaming EContinuityLost = Some Recovering"
| "session_next Recovering ERecoveryFrameAccepted = Some Streaming"
| "session_next s EStop =
     (if s \<in> {Idle, Connecting, Authenticating, Negotiating, Streaming, Recovering}
      then Some Closing else None)"
| "session_next Closing ETransportClosed = Some Closed"
| "session_next s EFail =
     (if s \<in> {Idle, Connecting, Authenticating, Negotiating, Streaming, Recovering, Closing}
      then Some Failed else None)"
| "session_next s e = None"

definition apply_event :: "session_machine \<Rightarrow> session_event
    \<Rightarrow> session_machine \<times> (transition_error + session_state)" where
  "apply_event m event =
     (case session_next (sm_state m) event of
        None \<Rightarrow> (m, Err \<lparr>te_state = sm_state m, te_event = event\<rparr>)
      | Some next \<Rightarrow> (m\<lparr>sm_state := next\<rparr>, Ok next))"

section \<open>Reconnect policy\<close>

datatype product_stamp_allocation_error = RngFailure | ZeroSessionId | EpochExhausted

datatype reconnect_policy_error = TooManyAttempts

definition MAX_RECONNECT_ATTEMPTS :: u32 where
  "MAX_RECONNECT_ATTEMPTS = 8"

text \<open>Durations are milliseconds.\<close>

definition MAX_RECONNECT_DELAY :: u64 where
  "MAX_RECONNECT_DELAY = 2000"

definition RECONNECT_BASE_DELAY_MILLIS :: "u64 list" where
  "RECONNECT_BASE_DELAY_MILLIS = [100, 200, 400, 800, 1600]"

record reconnect_policy =
  rp_maximum_attempts :: u32

definition new_reconnect_policy :: "u32 \<Rightarrow> reconnect_policy_error + reconnect_policy" where
  "new_reconnect_policy maximum_attempts =
     (if maximum_attempts > MAX_RECONNECT_ATTEMPTS then Err TooManyAttempts
      else Ok \<lparr>rp_maximum_attempts = maximum_attempts\<rparr>)"

definition mix_session :: "u64 \<Rightarrow> u64 \<Rightarrow> u64" where
  "mix_session prior_session_id jitter_attempt =
     (let mixed = prior_session_id XOR (jitter_attempt * 0x9e3779b97f4a7c15);
          mixed = (mixed XOR drop_bit 30 mixed) * 0xbf58476d1ce4e5b9;
          mixed = (mixed XOR drop_bit 27 mixed) * 0x94d049bb133111eb
      in mixed XOR drop_bit 31 mixed)"

definition delay_for :: "reconnect_policy \<Rightarrow> u32 \<Rightarrow> u64 \<Rightarrow> u64 option" where
  "delay_for p attempt prior_session_id =
     (if attempt = 0 \<or> attempt > rp_maximum_attempts p then None
      else
        let schedule_index = unat (min (saturating_sub attempt 1) 4);
            base_millis = RECONNECT_BASE_DELAY_MILLIS ! schedule_index;
            jitter_span = base_millis div 4;
            jitter_attempt = ucast (min attempt 5);
            jitter_millis = mix_session prior_session_id jitter_attempt
              mod saturating_add jitter_span 1
        in Some (saturating_add base_millis jitter_millis))"

section \<open>Stamp allocation\<close>

record product_stamp_allocator =
  pa_next_generation :: u64
  pa_next_authorization_epoch :: u32
  pa_next_display_epoch :: u32
  pa_next_codec_epoch :: u32

definition new_allocator :: product_stamp_allocator where
  "new_allocator = \<lparr>pa_next_generation = 1, pa_next_authorization_epoch = 1,
     pa_next_display_epoch = 1, pa_next_codec_epoch = 1\<rparr>"

definition MAX_ZERO_ID_RETRIES :: nat where
  "MAX_ZERO_ID_RETRIES = 4"

type_synonym 'g rng = "'g \<Rightarrow> 'g \<times> (product_stamp_allocation_error + bytes)"

fun draw_session_id :: "'g rng \<Rightarrow> nat \<Rightarrow> 'g \<Rightarrow> 'g \<times> (product_stamp_allocation_error + u64)" where
  "draw_session_id fill 0 g = (g, Ok 0)"
| "draw_session_id fill (Suc n) g =
     (case fill g of
        (g', Inl e) \<Rightarrow> (g', Err e)
      | (g', Inr bs) \<Rightarrow>
          if from_be_bytes bs \<noteq> (0 :: u64) then (g', Ok (from_be_bytes bs))
          else draw_session_id fill n g')"

definition allocate_with :: "'g rng \<Rightarrow> product_stamp_allocator \<times> 'g
    \<Rightarrow> (product_stamp_allocator \<times> 'g) \<times> (product_stamp_allocation_error + session_stamp)" where
  "allocate_with fill st =
     (let (a, g) = st in
      case (checked_add (pa_next_generation a) 1, checked_add (pa_next_authorization_epoch a) 1,
            checked_add (pa_next_display_epoch a) 1, checked_add (pa_next_codec_epoch a) 1) of
        (Some generation', Some authorization', Some display', Some codec') \<Rightarrow>
          (case draw_session_id fill MAX_ZERO_ID_RETRIES g of
             (g', Inl e) \<Rightarrow> ((a, g'), Err e)
           | (g', Inr sid) \<Rightarrow>
               if sid = 0 then ((a, g'), Err ZeroSessionId)
               else ((\<lparr>pa_next_generation = generation', pa_next_authorization_epoch = authorization',
                       pa_next_display_epoch = display', pa_next_codec_epoch = codec'\<rparr>, g'),
                     Ok \<lparr>session_id = sid, generation = pa_next_generation a,
                         authorization_epoch = pa_next_authorization_epoch a,
                         display_epoch = pa_next_display_epoch a,
                         codec_epoch = pa_next_codec_epoch a, route_epoch = 1\<rparr>))
      | _ \<Rightarrow> (st, Err EpochExhausted))"

section \<open>The handshake comes before streaming\<close>

text \<open>The accepted events that each live state requires.\<close>

fun required :: "session_state \<Rightarrow> session_event list" where
  "required Connecting = [EStart]"
| "required Authenticating = [EStart, ETransportReady]"
| "required Negotiating = [EStart, ETransportReady, EAuthenticated]"
| "required Streaming = [EStart, ETransportReady, EAuthenticated, ENegotiated]"
| "required Recovering = [EStart, ETransportReady, EAuthenticated, ENegotiated]"
| "required s = []"

lemma apply_event_None:
  "session_next (sm_state m) e = None \<Longrightarrow>
     apply_event m e = (m, Err \<lparr>te_state = sm_state m, te_event = e\<rparr>)"
  by (simp add: apply_event_def)

lemma apply_event_Some:
  "session_next (sm_state m) e = Some t \<Longrightarrow> apply_event m e = (m\<lparr>sm_state := t\<rparr>, Ok t)"
  by (simp add: apply_event_def)

lemma required_step:
  assumes "session_next s e = Some t" and "subseq (required s) es"
  shows "subseq (required t) (es @ [e])"
proof -
  have keep: "subseq (required s) (es @ [e])"
    using list_emb_append_mono [OF assms(2), of "[]" "[e]"] by simp
  have ext: "subseq (required s @ [e]) (es @ [e])"
    using assms(2) by simp
  show ?thesis
    using assms(1) keep ext
    by (cases "(s, e)" rule: session_next.cases) (auto split: if_splits simp del: subseq_append)
qed

lemma required_run:
  "subseq (required (sm_state (fst (run apply_event default_machine es))))
     (granted accept apply_event default_machine es)"
proof (induction es rule: rev_induct)
  case Nil
  then show ?case by (simp add: default_machine_def)
next
  case (snoc e es)
  let ?m = "fst (run apply_event default_machine es)"
  show ?case
  proof (cases "session_next (sm_state ?m) e")
    case None
    with snoc show ?thesis
      by (simp add: granted_snoc run_snoc_fst apply_event_None)
  next
    case (Some t)
    with snoc required_step [OF Some] show ?thesis
      by (simp add: granted_snoc run_snoc_fst apply_event_Some)
  qed
qed

lemma terminal_step:
  "sm_state m \<in> {Closed, Failed} \<Longrightarrow> fst (apply_event m e) = m"
  by (cases e) (auto simp: apply_event_def)

interpretation terminal: machine_invariant apply_event "\<lambda>m'. m' = m \<and> sm_state m \<in> {Closed, Failed}"
  for m
  by unfold_locales (auto simp: terminal_step)

section \<open>Fresh stamps\<close>

text \<open>From \<open>new\<close> on the four counters move in lockstep and never return to zero.\<close>

definition allocator_inv :: "product_stamp_allocator \<Rightarrow> bool" where
  "allocator_inv a \<longleftrightarrow> 0 < unat (pa_next_generation a)
     \<and> unat (pa_next_authorization_epoch a) = unat (pa_next_generation a)
     \<and> unat (pa_next_display_epoch a) = unat (pa_next_generation a)
     \<and> unat (pa_next_codec_epoch a) = unat (pa_next_generation a)"

definition allocate_step :: "'g rng \<Rightarrow> product_stamp_allocator \<times> 'g \<Rightarrow> unit
    \<Rightarrow> (product_stamp_allocator \<times> 'g) \<times> (product_stamp_allocation_error + session_stamp)" where
  "allocate_step fill st u = allocate_with fill st"

definition issued_stamp :: "unit \<Rightarrow> product_stamp_allocation_error + session_stamp
    \<Rightarrow> session_stamp option" where
  "issued_stamp u r = (case r of Inl _ \<Rightarrow> None | Inr stamp \<Rightarrow> Some stamp)"

lemma allocate_with_cases:
  assumes "allocator_inv a"
  obtains (failed) g' e where "allocate_with fill (a, g) = ((a, g'), Err e)"
  | (issued) a' g' stamp where "allocate_with fill (a, g) = ((a', g'), Ok stamp)"
      "allocator_inv a'" "unat (pa_next_generation a') = unat (pa_next_generation a) + 1"
      "session_id stamp \<noteq> 0" "route_epoch stamp = 1"
      "unat (generation stamp) = unat (pa_next_generation a)"
      "unat (authorization_epoch stamp) = unat (pa_next_generation a)"
      "unat (display_epoch stamp) = unat (pa_next_generation a)"
      "unat (codec_epoch stamp) = unat (pa_next_generation a)"
proof (cases "allocate_with fill (a, g) = ((a, g), Err EpochExhausted)")
  case True
  then show ?thesis by (rule failed)
next
  case False
  then obtain g1 a1 d1 c1 where nxt: "checked_add (pa_next_generation a) 1 = Some g1"
      "checked_add (pa_next_authorization_epoch a) 1 = Some a1"
      "checked_add (pa_next_display_epoch a) 1 = Some d1"
      "checked_add (pa_next_codec_epoch a) 1 = Some c1"
    by (auto simp: allocate_with_def split: option.splits)
  obtain g' res where draw: "draw_session_id fill MAX_ZERO_ID_RETRIES g = (g', res)" by fastforce
  show ?thesis
  proof (cases res)
    case (Inl e)
    with nxt draw show ?thesis by (intro failed [of g' e]) (simp add: allocate_with_def)
  next
    case (Inr sid)
    show ?thesis
    proof (cases "sid = 0")
      case True
      with nxt draw Inr show ?thesis
        by (intro failed [of g' ZeroSessionId]) (simp add: allocate_with_def)
    next
      case False
      with nxt draw Inr have "allocate_with fill (a, g) = ((\<lparr>pa_next_generation = g1,
          pa_next_authorization_epoch = a1, pa_next_display_epoch = d1, pa_next_codec_epoch = c1\<rparr>, g'),
          Ok \<lparr>session_id = sid, generation = pa_next_generation a,
            authorization_epoch = pa_next_authorization_epoch a,
            display_epoch = pa_next_display_epoch a,
            codec_epoch = pa_next_codec_epoch a, route_epoch = 1\<rparr>)"
        by (simp add: allocate_with_def)
      then show ?thesis
        by (rule issued)
          (use False assms nxt in \<open>simp_all add: allocator_inv_def checked_add_Some_iff\<close>)
    qed
  qed
qed

interpretation stamps: fresh_issuer "allocate_step fill" "\<lambda>st. allocator_inv (fst st)"
    "\<lambda>st. unat (pa_next_generation (fst st))"
    "\<lambda>u r. map_option (unat \<circ> generation) (issued_stamp u r)" for fill
proof
  fix st :: "product_stamp_allocator \<times> 'a" and u n
  assume inv: "allocator_inv (fst st)"
  note cases = allocate_with_cases [OF inv, of fill "snd st", simplified]
  show "allocator_inv (fst (fst (allocate_step fill st u)))"
    using inv by (cases rule: cases) (simp_all add: allocate_step_def)
  show "unat (pa_next_generation (fst st))
      \<le> unat (pa_next_generation (fst (fst (allocate_step fill st u))))"
    by (cases rule: cases) (simp_all add: allocate_step_def)
  show "unat (pa_next_generation (fst st)) \<le> n
      \<and> n < unat (pa_next_generation (fst (fst (allocate_step fill st u))))"
    if "map_option (unat \<circ> generation) (issued_stamp u (snd (allocate_step fill st u))) = Some n"
    using that by (cases rule: cases) (auto simp: allocate_step_def issued_stamp_def)
qed

lemma allocator_inv_new: "allocator_inv new_allocator"
  by (simp add: allocator_inv_def new_allocator_def)

text \<open>All counters of an issued stamp carry the same number.\<close>

definition stamp_number :: "session_stamp \<Rightarrow> nat \<Rightarrow> bool" where
  "stamp_number stamp n \<longleftrightarrow> session_id stamp \<noteq> 0 \<and> route_epoch stamp = 1 \<and> 0 < n
     \<and> unat (generation stamp) = n \<and> unat (authorization_epoch stamp) = n
     \<and> unat (display_epoch stamp) = n \<and> unat (codec_epoch stamp) = n"

lemma issued_stamp_number:
  assumes "allocator_inv (fst st)"
    and "stamp \<in> set (granted issued_stamp (allocate_step fill) st us)"
  shows "stamp_number stamp (unat (generation stamp))"
  using assms
proof (induction us arbitrary: st)
  case Nil
  then show ?case by simp
next
  case (Cons u us)
  note cases = allocate_with_cases [OF Cons.prems(1), of fill "snd st", simplified]
  have later: "stamp_number stamp (unat (generation stamp))"
    if "stamp \<in> set (granted issued_stamp (allocate_step fill) (fst (allocate_step fill st u)) us)"
    using Cons.IH [OF stamps.step_inv [OF Cons.prems(1)] that] .
  have now: "stamp_number stamp (unat (generation stamp))"
    if "issued_stamp u (snd (allocate_step fill st u)) = Some stamp"
    using that Cons.prems(1)
    by (cases rule: cases)
      (auto simp: allocate_step_def issued_stamp_def stamp_number_def allocator_inv_def)
  show ?case
    using Cons.prems(2) later now by (auto split: option.splits)
qed

lemma granted_map_option:
  "granted (\<lambda>c r. map_option f (grant c r)) step s cs = map f (granted grant step s cs)"
  by (induction cs arbitrary: s) (simp_all split: option.splits)

section \<open>Reconnect delays\<close>

lemma schedule_index_cases:
  fixes attempt :: u32
  assumes "attempt \<noteq> 0"
  shows "unat (min (saturating_sub attempt 1) 4) = min (unat attempt - 1) 4"
  by (auto simp: min_def word_le_nat_alt unat_saturating_sub)

lemma saturating_add_small:
  fixes a b :: "'a::len word"
  assumes "unat a + unat b < 2 ^ LENGTH('a)"
  shows "unat (saturating_add a b) = unat a + unat b"
  using assms by (simp add: unat_saturating_add)

definition base_millis_at :: "nat \<Rightarrow> nat" where
  "base_millis_at i = 100 * 2 ^ i"

lemma reconnect_base:
  assumes "i < 5"
  shows "unat (RECONNECT_BASE_DELAY_MILLIS ! i) = base_millis_at i"
proof -
  have "i = 0 \<or> i = 1 \<or> i = 2 \<or> i = 3 \<or> i = 4" using assms by arith
  then show ?thesis
    by (elim disjE) (simp_all add: RECONNECT_BASE_DELAY_MILLIS_def base_millis_at_def)
qed

lemma jittered_bounds:
  fixes base m :: u64
  assumes "unat base \<le> 1600"
  defines "d \<equiv> saturating_add base (m mod saturating_add (base div 4) 1)"
  shows "unat base \<le> unat d" "unat d \<le> unat base + unat base div 4"
proof -
  have span: "unat (saturating_add (base div 4) 1) = unat base div 4 + 1"
    using assms by (subst saturating_add_small) (simp_all add: unat_div_distrib)
  then have jitter: "unat (m mod saturating_add (base div 4) 1) \<le> unat base div 4"
    by (simp add: unat_mod_distrib less_Suc_eq_le [symmetric])
  then have "unat d = unat base + unat (m mod saturating_add (base div 4) 1)"
    unfolding d_def using assms by (intro saturating_add_small) simp
  with jitter show "unat base \<le> unat d" "unat d \<le> unat base + unat base div 4"
    by simp_all
qed

lemma delay_for_bounds:
  assumes "attempt \<noteq> 0" and "attempt \<le> rp_maximum_attempts p"
  defines "b \<equiv> base_millis_at (min (unat attempt - 1) 4)"
  obtains d where "delay_for p attempt sid = Some d" "b \<le> unat d" "unat d \<le> b + b div 4"
proof -
  let ?i = "unat (min (saturating_sub attempt 1) 4)"
  let ?base = "RECONNECT_BASE_DELAY_MILLIS ! ?i"
  have i: "?i = min (unat attempt - 1) 4" using assms(1) by (rule schedule_index_cases)
  then have base: "unat ?base = b" by (simp add: b_def reconnect_base)
  moreover have "b \<le> 1600"
    by (simp add: b_def base_millis_at_def) (use power_increasing [of "min (unat attempt - 1) 4" 4 "2::nat"] in simp)
  ultimately have "unat ?base \<le> 1600" by simp
  from jittered_bounds [OF this, of "mix_session sid (ucast (min attempt 5))"] assms(1,2) base
  show ?thesis by (intro that) (auto simp: delay_for_def Let_def)
qed

lemma base_millis_step: "i < j \<Longrightarrow> base_millis_at i + base_millis_at i div 4 \<le> base_millis_at j"
proof -
  assume "i < j"
  then have "2 * 2 ^ i \<le> (2 :: nat) ^ j"
    by (metis Suc_leI one_le_numeral power_Suc power_increasing)
  then show ?thesis by (simp add: base_millis_at_def)
qed

lemma delay_for_same_slot:
  assumes "a \<noteq> 0" "b \<noteq> 0" "a \<le> rp_maximum_attempts p" "b \<le> rp_maximum_attempts p"
    and "5 \<le> a" "5 \<le> b"
  shows "delay_for p a sid = delay_for p b sid"
proof -
  have "saturating_sub a 1 \<ge> 4" "saturating_sub b 1 \<ge> 4"
    using assms by (auto simp: word_le_nat_alt unat_saturating_sub)
  with assms show ?thesis
    by (simp add: delay_for_def Let_def min_absorb2 not_less [symmetric])
qed

section \<open>Properties\<close>

text \<open>
  A session streams or recovers only after it accepted start, transport ready, authenticated and
  negotiated, in that order; and once it is closed or failed no event ever moves it again.
\<close>

theorem streaming_needs_handshake:
  fixes es
  defines "m \<equiv> fst (run apply_event default_machine es)"
  shows "(sm_state m \<in> {Streaming, Recovering} \<longrightarrow>
      subseq [EStart, ETransportReady, EAuthenticated, ENegotiated]
        (granted accept apply_event default_machine es))
    \<and> (sm_state m \<in> {Closed, Failed} \<longrightarrow> fst (run apply_event m fs) = m)"
proof -
  have "fst (run apply_event m fs) = m" if "sm_state m \<in> {Closed, Failed}"
    using terminal.run_inv [of m m fs] that by simp
  moreover have "subseq [EStart, ETransportReady, EAuthenticated, ENegotiated]
        (granted accept apply_event default_machine es)" if "sm_state m \<in> {Streaming, Recovering}"
    using required_run [of es] that unfolding m_def by auto
  ultimately show ?thesis by blast
qed

theorem streaming_needs_handshake_witness:
  "subseq [EStart, ETransportReady, EAuthenticated, ENegotiated]
     (granted accept apply_event default_machine
       [EStart, ETransportReady, ENegotiated, EAuthenticated, ENegotiated, EContinuityLost])"
  using streaming_needs_handshake
    [of "[EStart, ETransportReady, ENegotiated, EAuthenticated, ENegotiated, EContinuityLost]"]
  by (simp add: apply_event_def default_machine_def)

text \<open>
  C17: over any history of allocations and for any random source, the stamps issued by one allocator
  strictly increase in generation, authorization, display and codec epoch alike, and each has a
  nonzero session identifier, nonzero epochs and route epoch one: a stale stamp never equals a
  later one in any field that fences it.
\<close>

theorem stamps_strictly_fresh:
  fixes fill g us
  defines "stamps \<equiv> granted issued_stamp (allocate_step fill) (new_allocator, g) us"
  shows "sorted_wrt (\<lambda>a b. generation a < generation b
        \<and> authorization_epoch a < authorization_epoch b
        \<and> display_epoch a < display_epoch b \<and> codec_epoch a < codec_epoch b) stamps
    \<and> list_all (\<lambda>s. validate_media s = Ok () \<and> route_epoch s = 1) stamps"
proof -
  have inv: "allocator_inv (fst (new_allocator, g))" by (simp add: allocator_inv_new)
  note num = issued_stamp_number [OF inv, of _ fill us, folded stamps_def]
  have "sorted_wrt (<) (map (unat \<circ> generation) stamps)"
    using stamps.granted_increasing [OF inv, of fill us]
    by (simp only: granted_map_option stamps_def)
  then have "sorted_wrt (\<lambda>a b. unat (generation a) < unat (generation b)) stamps"
    by (simp add: sorted_wrt_map)
  then have "sorted_wrt (\<lambda>a b. generation a < generation b
        \<and> authorization_epoch a < authorization_epoch b
        \<and> display_epoch a < display_epoch b \<and> codec_epoch a < codec_epoch b) stamps"
    by (rule sorted_wrt_mono_rel [rotated])
      (use num in \<open>auto simp: stamp_number_def word_less_nat_alt\<close>)
  moreover have "validate_media s = Ok () \<and> route_epoch s = 1" if "s \<in> set stamps" for s
    using num [OF that]
    by (auto simp: stamp_number_def validate_media_def validate_pending_def unsigned_eq_0_iff)
  ultimately show ?thesis by (simp add: list_all_iff)
qed

text \<open>
  The reconnect policy is bounded. Exactly the attempts from one to the maximum have a delay;
  it is between 100 ms and 2 s, deterministic for a session, and never shrinks from one attempt to
  a later one.
\<close>

theorem reconnect_delay_bounded:
  "(delay_for p a sid \<noteq> None \<longleftrightarrow> a \<noteq> 0 \<and> a \<le> rp_maximum_attempts p)
   \<and> (delay_for p a sid = Some d \<longrightarrow> 100 \<le> d \<and> d \<le> MAX_RECONNECT_DELAY)
   \<and> (a \<le> b \<longrightarrow> delay_for p a sid = Some d \<longrightarrow> delay_for p b sid = Some e \<longrightarrow> d \<le> e)"
proof -
  have some: "delay_for p a sid \<noteq> None \<longleftrightarrow> a \<noteq> 0 \<and> a \<le> rp_maximum_attempts p" for a
    by (auto simp: delay_for_def Let_def)
  have bounds: "base_millis_at (min (unat a - 1) 4) \<le> unat d"
      "unat d \<le> base_millis_at (min (unat a - 1) 4) + base_millis_at (min (unat a - 1) 4) div 4"
    if "delay_for p a sid = Some d" for a d
    using that some [of a] delay_for_bounds [of a p sid] by (metis option.distinct(1) option.inject)+
  have "100 \<le> d \<and> d \<le> MAX_RECONNECT_DELAY" if "delay_for p a sid = Some d"
  proof -
    have "(2 :: nat) ^ min (unat a - 1) 4 \<le> 2 ^ 4" by (rule power_increasing) simp_all
    then have "100 \<le> base_millis_at (min (unat a - 1) 4)" "base_millis_at (min (unat a - 1) 4) \<le> 1600"
      by (simp_all add: base_millis_at_def)
    with bounds [OF that] have "100 \<le> unat d" "unat d \<le> 2000"
      by linarith+
    then show ?thesis by (simp add: word_le_nat_alt MAX_RECONNECT_DELAY_def)
  qed
  moreover have "d \<le> e"
    if ab: "a \<le> b" and d: "delay_for p a sid = Some d" and e: "delay_for p b sid = Some e"
  proof (cases "min (unat a - 1) 4 < min (unat b - 1) 4")
    case True
    from base_millis_step [OF this] bounds [OF d] bounds [OF e] show ?thesis
      by (simp add: word_le_nat_alt)
  next
    case False
    have "a \<noteq> 0" "b \<noteq> 0" "a \<le> rp_maximum_attempts p" "b \<le> rp_maximum_attempts p"
      using some d e by fastforce+
    note range = this
    have "0 < unat a" "unat a \<le> unat b"
      using range(1) ab by (simp_all add: word_le_nat_alt unat_gt_0)
    with False have "unat a = unat b \<or> 5 \<le> unat a \<and> 5 \<le> unat b" by linarith
    then have "a = b \<or> 5 \<le> a \<and> 5 \<le> b"
      by (simp add: word_le_nat_alt word_unat_eq_iff)
    then have "delay_for p a sid = delay_for p b sid"
      using delay_for_same_slot [OF range] by blast
    with d e show ?thesis by simp
  qed
  ultimately show ?thesis using some by blast
qed

theorem reconnect_delay_bounded_witness:
  "\<exists>d. delay_for \<lparr>rp_maximum_attempts = 8\<rparr> 3 41 = Some d \<and> d \<le> MAX_RECONNECT_DELAY"
proof -
  obtain d where d: "delay_for \<lparr>rp_maximum_attempts = 8\<rparr> 3 41 = Some d"
    using reconnect_delay_bounded [of "\<lparr>rp_maximum_attempts = 8\<rparr>" 3 41, THEN conjunct1]
    by (auto simp: not_None_eq)
  with reconnect_delay_bounded [of "\<lparr>rp_maximum_attempts = 8\<rparr>" 3 41 d] show ?thesis by blast
qed

end
