(* ===== verification/Authorization.thy ===== *)
theory Authorization
  imports Contracts
begin

text \<open>
  The host access policy, \<^verbatim>\<open>crates/session/src/authorization.rs\<close>: pairing, pinning, admission of
  verified connections, capability grants, expiry and revocation.

  Newtypes over arrays and integers are the arrays and integers. What the operating system's
  random source yields is an argument of the operations that draw from it (\<open>None\<close> is its failure);
  \<open>generate_session_id\<close>, which draws until a nonzero value, takes the list of draws and returns
  \<open>None\<close> while they do not decide it.
\<close>

section \<open>Data\<close>

datatype (plugins only: code) access_error =
  InvalidFingerprint
| InvalidSessionId
| InvalidAuthorizationEpoch
| InvalidCapabilities
| InvalidTtl
| InvalidExpiry
| InvalidPairingSecret
| ViewCapabilityRequired
| DeviceAlreadyPinned
| DeviceNotPinned
| PinnedDeviceLimit
| PairingInProgress
| NoPendingPairing
| PairingMismatch
| PairingExpired
| PairingAlreadyConfirmed
| PairingNotConfirmed
| StalePairingHandle
| ConnectionExists
| NoActiveConnection
| StaleConnectionContext
| SessionInProgress
| SessionApprovalPending
| StaleSessionHandle
| ActiveSessionExists
| NoPendingSession
| ApprovalExceedsRequest
| AuthorizationExpired
| AccessRngFailure

type_synonym device_fingerprint = bytes
type_synonym capability_set = u8

definition MAX_PINNED_DEVICES :: nat where
  "MAX_PINNED_DEVICES = 64"

definition MAX_PAIRING_TTL_NS :: u64 where
  "MAX_PAIRING_TTL_NS = 5 * 60 * 1000000000"

definition MAX_SESSION_TTL_NS :: u64 where
  "MAX_SESSION_TTL_NS = 24 * 60 * 60 * 1000000000"

definition new_fingerprint :: "bytes \<Rightarrow> access_error + device_fingerprint" where
  "new_fingerprint bs = (if list_all (\<lambda>b. b = 0) bs then Err InvalidFingerprint else Ok bs)"

definition new_session_id :: "u64 \<Rightarrow> access_error + u64" where
  "new_session_id v = (if v = 0 then Err InvalidSessionId else Ok v)"

datatype capability = CapView | CapInput

fun capability_bits :: "capability \<Rightarrow> u8" where
  "capability_bits CapView = 1"
| "capability_bits CapInput = 2"

definition CAPABILITY_MASK :: u8 where
  "CAPABILITY_MASK = capability_bits CapView OR capability_bits CapInput"

definition capability_set_from_bits :: "u8 \<Rightarrow> access_error + capability_set" where
  "capability_set_from_bits bits =
     (if bits = 0 \<or> bits AND NOT CAPABILITY_MASK \<noteq> 0 then Err InvalidCapabilities else Ok bits)"

definition view_only :: capability_set where
  "view_only = capability_bits CapView"

definition view_and_input :: capability_set where
  "view_and_input = capability_bits CapView OR capability_bits CapInput"

definition caps_contains :: "capability_set \<Rightarrow> capability \<Rightarrow> bool" where
  "caps_contains s c \<longleftrightarrow> s AND capability_bits c \<noteq> 0"

definition is_subset_of :: "capability_set \<Rightarrow> capability_set \<Rightarrow> bool" where
  "is_subset_of s requested \<longleftrightarrow> s AND NOT requested = 0"

record connection_context =
  cc_device :: device_fingerprint
  cc_session_id :: u64
  cc_authorization_epoch :: u32

record pairing_cancellation_handle =
  pc_device :: device_fingerprint
  pc_generation :: u64
  pc_nonce :: bytes

record pairing_invitation =
  pi_device :: device_fingerprint
  pi_secret :: bytes
  pi_cancellation_handle :: pairing_cancellation_handle
  pi_expires_at_ns :: u64

record pairing_proof =
  pp_device :: device_fingerprint
  pp_secret :: bytes

record pairing_approval_handle =
  pa_device :: device_fingerprint
  pa_generation :: u64
  pa_nonce :: bytes

record session_request_handle =
  sr_device :: device_fingerprint
  sr_session_id :: u64
  sr_authorization_epoch :: u32
  sr_requested_capabilities :: capability_set
  sr_generation :: u64
  sr_nonce :: bytes

record session_authorization =
  sa_device :: device_fingerprint
  sa_session_id :: u64
  sa_authorization_epoch :: u32
  sa_capabilities :: capability_set
  sa_expires_at_ns :: u64

record pending_pairing =
  pd_device :: device_fingerprint
  pd_secret :: bytes
  pd_cancellation_handle :: pairing_cancellation_handle
  pd_expires_at_ns :: u64
  pd_generation :: u64

record pending_approval =
  pv_handle :: pairing_approval_handle
  pv_cancellation_handle :: pairing_cancellation_handle
  pv_expires_at_ns :: u64

datatype pairing_state =
  PairingIdle
| AwaitingProof pending_pairing
| AwaitingHostApproval pending_approval

record host_access_policy =
  hp_pinned_devices :: "device_fingerprint list"
  hp_next_epoch :: u32
  hp_next_generation :: u64
  hp_pairing :: pairing_state
  hp_active_connection :: "connection_context option"
  hp_pending_session :: "session_request_handle option"
  hp_active_session :: "session_authorization option"

definition default_policy :: host_access_policy where
  "default_policy = \<lparr>hp_pinned_devices = [], hp_next_epoch = 1, hp_next_generation = 1,
     hp_pairing = PairingIdle, hp_active_connection = None, hp_pending_session = None,
     hp_active_session = None\<rparr>"

section \<open>Operations\<close>

definition random_bytes :: "bytes option \<Rightarrow> access_error + bytes" where
  "random_bytes draw = (case draw of None \<Rightarrow> Err AccessRngFailure | Some bs \<Rightarrow> Ok bs)"

fun generate_session_id :: "bytes option list \<Rightarrow> (access_error + u64) option" where
  "generate_session_id [] = None"
| "generate_session_id (draw # draws) =
     (case random_bytes draw of
        Inl e \<Rightarrow> Some (Err e)
      | Inr bs \<Rightarrow> if le_val bs \<noteq> (0 :: u64) then Some (Ok (le_val bs))
          else generate_session_id draws)"

definition new_pairing_proof ::
  "device_fingerprint \<Rightarrow> bytes \<Rightarrow> access_error + pairing_proof" where
  "new_pairing_proof device secret =
     (if list_all (\<lambda>b. b = 0) secret then Err InvalidPairingSecret
      else Ok \<lparr>pp_device = device, pp_secret = secret\<rparr>)"

definition proof_from_invitation :: "pairing_invitation \<Rightarrow> pairing_proof" where
  "proof_from_invitation invitation = \<lparr>pp_device = pi_device invitation, pp_secret = pi_secret invitation\<rparr>"

definition is_pinned :: "host_access_policy \<Rightarrow> device_fingerprint \<Rightarrow> bool" where
  "is_pinned p device \<longleftrightarrow> device \<in> set (hp_pinned_devices p)"

definition pin :: "host_access_policy \<Rightarrow> device_fingerprint
    \<Rightarrow> host_access_policy \<times> (access_error + unit)" where
  "pin p device =
     (if is_pinned p device then (p, Err DeviceAlreadyPinned)
      else if length (hp_pinned_devices p) \<ge> MAX_PINNED_DEVICES then (p, Err PinnedDeviceLimit)
      else (p\<lparr>hp_pinned_devices := hp_pinned_devices p @ [device]\<rparr>, Ok ()))"

fun pin_all :: "host_access_policy \<Rightarrow> device_fingerprint list \<Rightarrow> access_error + host_access_policy" where
  "pin_all p [] = Ok p"
| "pin_all p (d # ds) = (case pin p d of (p', Inl e) \<Rightarrow> Err e | (p', Inr _) \<Rightarrow> pin_all p' ds)"

definition from_pinned_devices :: "device_fingerprint list \<Rightarrow> access_error + host_access_policy" where
  "from_pinned_devices devices = pin_all default_policy devices"

definition expire_active :: "host_access_policy \<Rightarrow> u64 \<Rightarrow> host_access_policy" where
  "expire_active p now_ns =
     (if is_some_and (hp_active_session p) (\<lambda>a. sa_expires_at_ns a \<le> now_ns)
      then p\<lparr>hp_active_session := None, hp_active_connection := None, hp_pending_session := None\<rparr>
      else p)"

definition expire_pairing :: "host_access_policy \<Rightarrow> u64 \<Rightarrow> host_access_policy \<times> bool" where
  "expire_pairing p now_ns =
     (case hp_pairing p of
        AwaitingProof pending \<Rightarrow>
          if pd_expires_at_ns pending \<le> now_ns then (p\<lparr>hp_pairing := PairingIdle\<rparr>, True) else (p, False)
      | AwaitingHostApproval pending \<Rightarrow>
          if pv_expires_at_ns pending \<le> now_ns then (p\<lparr>hp_pairing := PairingIdle\<rparr>, True) else (p, False)
      | PairingIdle \<Rightarrow> (p, False))"

definition begin_pairing :: "host_access_policy \<Rightarrow> device_fingerprint \<Rightarrow> u64 \<Rightarrow> u64
    \<Rightarrow> bytes option \<Rightarrow> bytes option \<Rightarrow> host_access_policy \<times> (access_error + pairing_invitation)" where
  "begin_pairing p0 device ttl_ns now_ns secret_draw nonce_draw =
     (let p = expire_active (fst (expire_pairing p0 now_ns)) now_ns in
      if is_pinned p device then (p, Err DeviceAlreadyPinned)
      else if length (hp_pinned_devices p) \<ge> MAX_PINNED_DEVICES then (p, Err PinnedDeviceLimit)
      else if hp_pairing p \<noteq> PairingIdle then (p, Err PairingInProgress)
      else if hp_pending_session p \<noteq> None \<or> hp_active_session p \<noteq> None
          \<or> hp_active_connection p \<noteq> None then (p, Err SessionInProgress)
      else if ttl_ns = 0 \<or> ttl_ns > MAX_PAIRING_TTL_NS then (p, Err InvalidTtl)
      else case checked_add now_ns ttl_ns of
          None \<Rightarrow> (p, Err InvalidExpiry)
        | Some expires_at_ns \<Rightarrow>
      (case random_bytes secret_draw of Inl e \<Rightarrow> (p, Err e) | Inr secret \<Rightarrow>
      (case random_bytes nonce_draw of Inl e \<Rightarrow> (p, Err e) | Inr nonce \<Rightarrow>
      (case checked_add (hp_next_generation p) 1 of
          None \<Rightarrow> (p, Err InvalidAuthorizationEpoch)
        | Some following \<Rightarrow>
            let generation = hp_next_generation p;
                cancellation_handle =
                  \<lparr>pc_device = device, pc_generation = generation, pc_nonce = nonce\<rparr>
            in (p\<lparr>hp_next_generation := following,
                  hp_pairing := AwaitingProof \<lparr>pd_device = device, pd_secret = secret,
                    pd_cancellation_handle = cancellation_handle,
                    pd_expires_at_ns = expires_at_ns, pd_generation = generation\<rparr>\<rparr>,
                Ok \<lparr>pi_device = device, pi_secret = secret,
                    pi_cancellation_handle = cancellation_handle,
                    pi_expires_at_ns = expires_at_ns\<rparr>)))))"

definition confirm_pairing :: "host_access_policy \<Rightarrow> pairing_proof \<Rightarrow> u64 \<Rightarrow> bytes option
    \<Rightarrow> host_access_policy \<times> (access_error + pairing_approval_handle)" where
  "confirm_pairing p proof now_ns nonce_draw =
     (case hp_pairing p of
        AwaitingProof pending \<Rightarrow>
          let p' = p\<lparr>hp_pairing := PairingIdle\<rparr> in
          if pd_expires_at_ns pending \<le> now_ns then (p', Err PairingExpired)
          else if pp_device proof \<noteq> pd_device pending \<or> pp_secret proof \<noteq> pd_secret pending
            then (p', Err PairingMismatch)
          else (case random_bytes nonce_draw of Inl e \<Rightarrow> (p', Err e) | Inr nonce \<Rightarrow>
            let handle = \<lparr>pa_device = pd_device pending, pa_generation = pd_generation pending,
                          pa_nonce = nonce\<rparr>
            in (p'\<lparr>hp_pairing := AwaitingHostApproval \<lparr>pv_handle = handle,
                  pv_cancellation_handle = pd_cancellation_handle pending,
                  pv_expires_at_ns = pd_expires_at_ns pending\<rparr>\<rparr>, Ok handle))
      | AwaitingHostApproval _ \<Rightarrow> (p, Err PairingAlreadyConfirmed)
      | PairingIdle \<Rightarrow> (p, Err NoPendingPairing))"

definition approve_pairing :: "host_access_policy \<Rightarrow> pairing_approval_handle \<Rightarrow> u64
    \<Rightarrow> host_access_policy \<times> (access_error + unit)" where
  "approve_pairing p handle now_ns =
     (case hp_pairing p of
        AwaitingHostApproval pending \<Rightarrow>
          if pv_handle pending \<noteq> handle then (p, Err StalePairingHandle)
          else if pv_expires_at_ns pending \<le> now_ns
            then (p\<lparr>hp_pairing := PairingIdle\<rparr>, Err PairingExpired)
          else pin (p\<lparr>hp_pairing := PairingIdle\<rparr>) (pa_device handle)
      | AwaitingProof _ \<Rightarrow> (p, Err PairingNotConfirmed)
      | PairingIdle \<Rightarrow> (p, Err NoPendingPairing))"

definition reject_pairing :: "host_access_policy \<Rightarrow> pairing_approval_handle
    \<Rightarrow> host_access_policy \<times> (access_error + unit)" where
  "reject_pairing p handle =
     (case hp_pairing p of
        AwaitingHostApproval pending \<Rightarrow>
          if pv_handle pending \<noteq> handle then (p, Err StalePairingHandle)
          else (p\<lparr>hp_pairing := PairingIdle\<rparr>, Ok ())
      | AwaitingProof _ \<Rightarrow> (p, Err PairingNotConfirmed)
      | PairingIdle \<Rightarrow> (p, Err NoPendingPairing))"

definition cancel_pairing :: "host_access_policy \<Rightarrow> pairing_cancellation_handle
    \<Rightarrow> host_access_policy \<times> (access_error + unit)" where
  "cancel_pairing p handle =
     (case hp_pairing p of
        AwaitingProof pending \<Rightarrow>
          if pd_cancellation_handle pending \<noteq> handle then (p, Err StalePairingHandle)
          else (p\<lparr>hp_pairing := PairingIdle\<rparr>, Ok ())
      | AwaitingHostApproval pending \<Rightarrow>
          if pv_cancellation_handle pending \<noteq> handle then (p, Err StalePairingHandle)
          else (p\<lparr>hp_pairing := PairingIdle\<rparr>, Ok ())
      | PairingIdle \<Rightarrow> (p, Err NoPendingPairing))"

text \<open>\<open>None\<close>: the draws do not yet decide the session identifier.\<close>

definition register_verified_one_rtt_connection :: "host_access_policy \<Rightarrow> device_fingerprint \<Rightarrow> u64
    \<Rightarrow> bytes option list \<Rightarrow> (host_access_policy \<times> (access_error + connection_context)) option" where
  "register_verified_one_rtt_connection p0 device now_ns draws =
     (let p = expire_active (fst (expire_pairing p0 now_ns)) now_ns in
      if \<not> is_pinned p device then Some (p, Err DeviceNotPinned)
      else if hp_pairing p \<noteq> PairingIdle then Some (p, Err PairingInProgress)
      else case generate_session_id draws of
          None \<Rightarrow> None
        | Some (Inl e) \<Rightarrow> Some (p, Err e)
        | Some (Inr sid) \<Rightarrow>
            (case checked_add (hp_next_epoch p) 1 of
               None \<Rightarrow> Some (p, Err InvalidAuthorizationEpoch)
             | Some following \<Rightarrow>
                 let context = \<lparr>cc_device = device, cc_session_id = sid,
                       cc_authorization_epoch = hp_next_epoch p\<rparr>
                 in Some (p\<lparr>hp_next_epoch := following, hp_pending_session := None,
                         hp_active_session := None, hp_active_connection := Some context\<rparr>,
                       Ok context)))"

definition close_connection :: "host_access_policy \<Rightarrow> connection_context
    \<Rightarrow> host_access_policy \<times> session_authorization option" where
  "close_connection p context =
     (if hp_active_connection p = Some context
      then (p\<lparr>hp_active_connection := None, hp_pending_session := None, hp_active_session := None\<rparr>,
            hp_active_session p)
      else (p, None))"

definition request_session :: "host_access_policy \<Rightarrow> connection_context \<Rightarrow> capability_set
    \<Rightarrow> bytes option \<Rightarrow> host_access_policy \<times> (access_error + session_request_handle)" where
  "request_session p context requested_capabilities nonce_draw =
     (if hp_pairing p \<noteq> PairingIdle then (p, Err PairingInProgress)
      else if \<not> is_pinned p (cc_device context) then (p, Err DeviceNotPinned)
      else case hp_active_connection p of
          None \<Rightarrow> (p, Err StaleConnectionContext)
        | Some active_conn \<Rightarrow>
      if active_conn \<noteq> context then (p, Err StaleConnectionContext)
      else if hp_active_session p \<noteq> None then (p, Err ActiveSessionExists)
      else if hp_pending_session p \<noteq> None then (p, Err SessionApprovalPending)
      else if \<not> caps_contains requested_capabilities CapView then (p, Err ViewCapabilityRequired)
      else case checked_add (hp_next_generation p) 1 of
          None \<Rightarrow> (p, Err InvalidAuthorizationEpoch)
        | Some following \<Rightarrow>
            let generation = hp_next_generation p; p' = p\<lparr>hp_next_generation := following\<rparr> in
            (case random_bytes nonce_draw of Inl e \<Rightarrow> (p', Err e) | Inr nonce \<Rightarrow>
              let handle = \<lparr>sr_device = cc_device context, sr_session_id = cc_session_id context,
                    sr_authorization_epoch = cc_authorization_epoch context,
                    sr_requested_capabilities = requested_capabilities,
                    sr_generation = generation, sr_nonce = nonce\<rparr>
              in (p'\<lparr>hp_pending_session := Some handle\<rparr>, Ok handle)))"

definition approve_session :: "host_access_policy \<Rightarrow> session_request_handle \<Rightarrow> capability_set
    \<Rightarrow> u64 \<Rightarrow> u64 \<Rightarrow> host_access_policy \<times> (access_error + session_authorization)" where
  "approve_session p0 handle capabilities ttl_ns now_ns =
     (let p = expire_active p0 now_ns in
      if ttl_ns = 0 \<or> ttl_ns > MAX_SESSION_TTL_NS then (p, Err InvalidTtl)
      else case checked_add now_ns ttl_ns of
          None \<Rightarrow> (p, Err InvalidExpiry)
        | Some expires_at_ns \<Rightarrow>
      (case hp_pending_session p of
          None \<Rightarrow> (p, Err NoPendingSession)
        | Some pending \<Rightarrow>
      if pending \<noteq> handle then (p, Err StaleSessionHandle)
      else if \<not> is_pinned p (sr_device pending)
        then (p\<lparr>hp_pending_session := None\<rparr>, Err DeviceNotPinned)
      else case hp_active_connection p of
          None \<Rightarrow> (p\<lparr>hp_pending_session := None\<rparr>, Err StaleConnectionContext)
        | Some active_conn \<Rightarrow>
      if cc_device active_conn \<noteq> sr_device pending
          \<or> cc_session_id active_conn \<noteq> sr_session_id pending
          \<or> cc_authorization_epoch active_conn \<noteq> sr_authorization_epoch pending
        then (p\<lparr>hp_pending_session := None\<rparr>, Err StaleConnectionContext)
      else if \<not> caps_contains capabilities CapView
          \<or> \<not> is_subset_of capabilities (sr_requested_capabilities pending)
        then (p, Err ApprovalExceedsRequest)
      else
        let authorization = \<lparr>sa_device = sr_device pending, sa_session_id = sr_session_id pending,
              sa_authorization_epoch = sr_authorization_epoch pending,
              sa_capabilities = capabilities, sa_expires_at_ns = expires_at_ns\<rparr>
        in (p\<lparr>hp_pending_session := None, hp_active_session := Some authorization\<rparr>,
            Ok authorization)))"

definition reject_session :: "host_access_policy \<Rightarrow> session_request_handle
    \<Rightarrow> host_access_policy \<times> (access_error + unit)" where
  "reject_session p handle =
     (case hp_pending_session p of
        None \<Rightarrow> (p, Err NoPendingSession)
      | Some pending \<Rightarrow>
          if pending \<noteq> handle then (p, Err StaleSessionHandle)
          else (p\<lparr>hp_pending_session := None\<rparr>, Ok ()))"

definition revoke_active :: "host_access_policy \<Rightarrow> host_access_policy \<times> session_authorization option" where
  "revoke_active p =
     (p\<lparr>hp_pending_session := None, hp_active_connection := None, hp_active_session := None\<rparr>,
      hp_active_session p)"

definition pairing_for :: "pairing_state \<Rightarrow> device_fingerprint \<Rightarrow> bool" where
  "pairing_for s device = (case s of
     AwaitingProof pending \<Rightarrow> pd_device pending = device
   | AwaitingHostApproval pending \<Rightarrow> pa_device (pv_handle pending) = device
   | PairingIdle \<Rightarrow> False)"

definition revoke_device :: "host_access_policy \<Rightarrow> device_fingerprint
    \<Rightarrow> host_access_policy \<times> (access_error + session_authorization option)" where
  "revoke_device p device =
     (if \<not> is_pinned p device then (p, Err DeviceNotPinned)
      else
        let p1 = p\<lparr>hp_pinned_devices := remove1 device (hp_pinned_devices p)\<rparr>;
            p2 = (if is_some_and (hp_active_connection p1) (\<lambda>conn. cc_device conn = device)
                  then p1\<lparr>hp_active_connection := None\<rparr> else p1);
            p3 = (if is_some_and (hp_pending_session p2) (\<lambda>request. sr_device request = device)
                  then p2\<lparr>hp_pending_session := None\<rparr> else p2);
            p4 = (if pairing_for (hp_pairing p3) device
                  then p3\<lparr>hp_pairing := PairingIdle\<rparr> else p3)
        in if is_some_and (hp_active_session p4) (\<lambda>grant. sa_device grant = device)
           then (p4\<lparr>hp_active_session := None\<rparr>, Ok (hp_active_session p4))
           else (p4, Ok None))"

definition active_grant :: "host_access_policy \<Rightarrow> u64
    \<Rightarrow> host_access_policy \<times> session_authorization option" where
  "active_grant p now_ns = (let p' = expire_active p now_ns in (p', hp_active_session p'))"

definition is_authorized :: "host_access_policy \<Rightarrow> session_authorization \<Rightarrow> capability \<Rightarrow> u64
    \<Rightarrow> host_access_policy \<times> bool" where
  "is_authorized p grant capability now_ns =
     (let (p', active) = active_grant p now_ns in
      (p', is_some_and active (\<lambda>a. a = grant \<and> caps_contains (sa_capabilities a) capability
         \<and> is_some_and (hp_active_connection p') (\<lambda>conn.
             cc_device conn = sa_device grant \<and> cc_session_id conn = sa_session_id grant
             \<and> cc_authorization_epoch conn = sa_authorization_epoch grant))))"

section \<open>Histories of calls\<close>

datatype access_cmd =
  BeginPairing device_fingerprint u64 u64 "bytes option" "bytes option"
| ConfirmPairing pairing_proof u64 "bytes option"
| ApprovePairing pairing_approval_handle u64
| RejectPairing pairing_approval_handle
| CancelPairing pairing_cancellation_handle
| ExpirePairing u64
| RegisterConnection device_fingerprint u64 "bytes option list"
| CloseConnection connection_context
| RequestSession connection_context capability_set "bytes option"
| ApproveSession session_request_handle capability_set u64 u64
| RejectSession session_request_handle
| RevokeActive
| RevokeDevice device_fingerprint
| ActiveGrant u64
| IsAuthorized session_authorization capability u64

datatype access_reply =
  RInvitation "access_error + pairing_invitation"
| RApproval "access_error + pairing_approval_handle"
| RUnit "access_error + unit"
| RBool bool
| RContext "access_error + connection_context"
| RRequest "access_error + session_request_handle"
| RGrant "access_error + session_authorization"
| RRevoked "session_authorization option"
| RRevokedDevice "access_error + session_authorization option"
| RNoReturn

fun access_step :: "host_access_policy \<Rightarrow> access_cmd \<Rightarrow> host_access_policy \<times> access_reply" where
  "access_step p (BeginPairing d ttl now s n) = map_prod id RInvitation (begin_pairing p d ttl now s n)"
| "access_step p (ConfirmPairing proof now n) = map_prod id RApproval (confirm_pairing p proof now n)"
| "access_step p (ApprovePairing h now) = map_prod id RUnit (approve_pairing p h now)"
| "access_step p (RejectPairing h) = map_prod id RUnit (reject_pairing p h)"
| "access_step p (CancelPairing h) = map_prod id RUnit (cancel_pairing p h)"
| "access_step p (ExpirePairing now) = map_prod id RBool (expire_pairing p now)"
| "access_step p (RegisterConnection d now draws) =
     (case register_verified_one_rtt_connection p d now draws of
        None \<Rightarrow> (p, RNoReturn) | Some (p', r) \<Rightarrow> (p', RContext r))"
| "access_step p (CloseConnection c) = map_prod id RRevoked (close_connection p c)"
| "access_step p (RequestSession c caps n) = map_prod id RRequest (request_session p c caps n)"
| "access_step p (ApproveSession h caps ttl now) = map_prod id RGrant (approve_session p h caps ttl now)"
| "access_step p (RejectSession h) = map_prod id RUnit (reject_session p h)"
| "access_step p RevokeActive = map_prod id RRevoked (revoke_active p)"
| "access_step p (RevokeDevice d) = map_prod id RRevokedDevice (revoke_device p d)"
| "access_step p (ActiveGrant now) = map_prod id RRevoked (active_grant p now)"
| "access_step p (IsAuthorized g c now) = map_prod id RBool (is_authorized p g c now)"

section \<open>The invariant of the policy\<close>

text \<open>
  A request or a grant is bound to a connection when it carries the connection's device, session
  identifier and epoch.
\<close>

definition request_bound :: "connection_context \<Rightarrow> session_request_handle \<Rightarrow> bool" where
  "request_bound c h \<longleftrightarrow> cc_device c = sr_device h \<and> cc_session_id c = sr_session_id h
     \<and> cc_authorization_epoch c = sr_authorization_epoch h"

definition grant_bound :: "connection_context \<Rightarrow> session_authorization \<Rightarrow> bool" where
  "grant_bound c a \<longleftrightarrow> cc_device c = sa_device a \<and> cc_session_id c = sa_session_id a
     \<and> cc_authorization_epoch c = sa_authorization_epoch a"

fun pairing_ok :: "device_fingerprint list \<Rightarrow> pairing_state \<Rightarrow> bool" where
  "pairing_ok pins PairingIdle \<longleftrightarrow> True"
| "pairing_ok pins (AwaitingProof pending) \<longleftrightarrow>
     pd_device pending \<notin> set pins \<and> length pins < MAX_PINNED_DEVICES"
| "pairing_ok pins (AwaitingHostApproval pending) \<longleftrightarrow>
     pa_device (pv_handle pending) \<notin> set pins \<and> length pins < MAX_PINNED_DEVICES"

definition connection_ok :: "host_access_policy \<Rightarrow> connection_context \<Rightarrow> bool" where
  "connection_ok p c \<longleftrightarrow> hp_pairing p = PairingIdle \<and> is_pinned p (cc_device c)
     \<and> cc_session_id c \<noteq> 0 \<and> cc_authorization_epoch c < hp_next_epoch p"

definition policy_inv :: "host_access_policy \<Rightarrow> bool" where
  "policy_inv p \<longleftrightarrow>
     distinct (hp_pinned_devices p) \<and> length (hp_pinned_devices p) \<le> MAX_PINNED_DEVICES
   \<and> pairing_ok (hp_pinned_devices p) (hp_pairing p)
   \<and> (\<forall>c. hp_active_connection p = Some c \<longrightarrow> connection_ok p c)
   \<and> (\<forall>h. hp_pending_session p = Some h \<longrightarrow>
        (\<exists>c. hp_active_connection p = Some c \<and> request_bound c h)
        \<and> caps_contains (sr_requested_capabilities h) CapView)
   \<and> (\<forall>a. hp_active_session p = Some a \<longrightarrow> hp_pending_session p = None
        \<and> (\<exists>c. hp_active_connection p = Some c \<and> grant_bound c a)
        \<and> caps_contains (sa_capabilities a) CapView)"

lemmas policy_simps = connection_ok_def request_bound_def grant_bound_def is_pinned_def

lemma policy_inv_default [simp]: "policy_inv default_policy"
  by (simp add: policy_inv_def default_policy_def)

lemma policy_inv_expire_active: "policy_inv p \<Longrightarrow> policy_inv (expire_active p now)"
  by (auto simp: policy_inv_def expire_active_def)

lemma policy_inv_no_pairing: "policy_inv p \<Longrightarrow> policy_inv (p\<lparr>hp_pairing := PairingIdle\<rparr>)"
  by (auto simp: policy_inv_def policy_simps)

lemma policy_inv_no_connection:
  "policy_inv p \<Longrightarrow> policy_inv (p\<lparr>hp_active_connection := None, hp_pending_session := None,
     hp_active_session := None\<rparr>)"
  by (auto simp: policy_inv_def policy_simps)

lemma policy_inv_expire_pairing: "policy_inv p \<Longrightarrow> policy_inv (fst (expire_pairing p now))"
  by (simp add: expire_pairing_def policy_inv_no_pairing split: pairing_state.split)

lemma policy_inv_idle:
  "policy_inv p \<Longrightarrow> hp_pairing p \<noteq> PairingIdle \<Longrightarrow>
     hp_active_connection p = None \<and> hp_pending_session p = None \<and> hp_active_session p = None"
  unfolding policy_inv_def connection_ok_def by (metis not_None_eq)

lemma checked_add_1:
  fixes a :: "'a::len word"
  assumes "checked_add a 1 = Some b"
  shows "a < b"
  using assms by (simp add: checked_add_Some_iff word_less_nat_alt)

section \<open>Outcomes of the operations\<close>

text \<open>
  For each operation that hands something out: a refusal leaves the policy as the expiry checks
  left it, and success pins down the guards that held, the reply and the new state.
\<close>

abbreviation expired :: "host_access_policy \<Rightarrow> u64 \<Rightarrow> host_access_policy" where
  "expired p now \<equiv> expire_active (fst (expire_pairing p now)) now"

lemma begin_pairing_Err:
  "begin_pairing p d ttl now s n = (p', Err e) \<Longrightarrow> p' = expired p now"
  by (auto simp: begin_pairing_def Let_def split: if_splits option.splits sum.splits)

lemma begin_pairing_Ok:
  assumes "begin_pairing p d ttl now s n = (p', Ok invitation)"
  obtains secret nonce following where
    "pi_device invitation = d" "pi_secret invitation = secret"
    "pc_generation (pi_cancellation_handle invitation) = hp_next_generation (expired p now)"
    "checked_add now ttl = Some (pi_expires_at_ns invitation)" "0 < ttl" "ttl \<le> MAX_PAIRING_TTL_NS"
    "\<not> is_pinned (expired p now) d"
    "length (hp_pinned_devices (expired p now)) < MAX_PINNED_DEVICES"
    "hp_pairing (expired p now) = PairingIdle" "hp_active_connection (expired p now) = None"
    "hp_pending_session (expired p now) = None" "hp_active_session (expired p now) = None"
    "checked_add (hp_next_generation (expired p now)) 1 = Some following"
    "p' = (expired p now)\<lparr>hp_next_generation := following,
       hp_pairing := AwaitingProof \<lparr>pd_device = d, pd_secret = secret,
         pd_cancellation_handle = pi_cancellation_handle invitation,
         pd_expires_at_ns = pi_expires_at_ns invitation,
         pd_generation = hp_next_generation (expired p now)\<rparr>\<rparr>"
proof -
  obtain exp secret nonce following where *: "checked_add now ttl = Some exp"
    "random_bytes s = Ok secret" "random_bytes n = Ok nonce"
    "checked_add (hp_next_generation (expired p now)) 1 = Some following"
    and g: "\<not> is_pinned (expired p now) d"
    "\<not> length (hp_pinned_devices (expired p now)) \<ge> MAX_PINNED_DEVICES"
    "hp_pairing (expired p now) = PairingIdle"
    "hp_active_connection (expired p now) = None"
    "hp_pending_session (expired p now) = None" "hp_active_session (expired p now) = None"
    "\<not> (ttl = 0 \<or> ttl > MAX_PAIRING_TTL_NS)"
    using assms by (auto simp: begin_pairing_def Let_def split: if_splits option.splits sum.splits)
  show thesis
    using assms * g
    by (intro that [of secret following])
      (auto simp: begin_pairing_def Let_def word_neq_0_conv)
qed

lemma confirm_pairing_Err:
  "confirm_pairing p proof now n = (p', Err e) \<Longrightarrow> p' = p \<or> p' = p\<lparr>hp_pairing := PairingIdle\<rparr>"
  by (auto simp: confirm_pairing_def Let_def split: if_splits pairing_state.splits sum.splits)

lemma confirm_pairing_Ok:
  assumes "confirm_pairing p proof now n = (p', Ok h)"
  obtains pending where
    "hp_pairing p = AwaitingProof pending" "now < pd_expires_at_ns pending"
    "pp_device proof = pd_device pending" "pp_secret proof = pd_secret pending"
    "pa_device h = pd_device pending" "pa_generation h = pd_generation pending"
    "p' = p\<lparr>hp_pairing := AwaitingHostApproval \<lparr>pv_handle = h,
       pv_cancellation_handle = pd_cancellation_handle pending,
       pv_expires_at_ns = pd_expires_at_ns pending\<rparr>\<rparr>"
  using assms
  by (auto simp: confirm_pairing_def Let_def split: if_splits pairing_state.splits sum.splits)

lemma pin_Ok: "pin p d = (p', Ok u) \<longleftrightarrow> \<not> is_pinned p d
    \<and> length (hp_pinned_devices p) < MAX_PINNED_DEVICES
    \<and> p' = p\<lparr>hp_pinned_devices := hp_pinned_devices p @ [d]\<rparr>"
  by (auto simp: pin_def)

lemma pin_Err: "pin p d = (p', Err e) \<Longrightarrow> p' = p"
  by (auto simp: pin_def split: if_splits)

lemma approve_pairing_Err:
  "approve_pairing p h now = (p', Err e) \<Longrightarrow> p' = p \<or> p' = p\<lparr>hp_pairing := PairingIdle\<rparr>"
  by (auto simp: approve_pairing_def dest: pin_Err split: if_splits pairing_state.splits)

lemma approve_pairing_Ok:
  assumes "approve_pairing p h now = (p', Ok u)"
  obtains pending where "hp_pairing p = AwaitingHostApproval pending" "pv_handle pending = h"
    "now < pv_expires_at_ns pending" "\<not> is_pinned p (pa_device h)"
    "length (hp_pinned_devices p) < MAX_PINNED_DEVICES"
    "p' = p\<lparr>hp_pairing := PairingIdle, hp_pinned_devices := hp_pinned_devices p @ [pa_device h]\<rparr>"
  using assms
  by (auto simp: approve_pairing_def pin_Ok is_pinned_def split: if_splits pairing_state.splits)

lemma reject_pairing_state:
  "fst (reject_pairing p h) = p \<or> fst (reject_pairing p h) = p\<lparr>hp_pairing := PairingIdle\<rparr>"
  by (auto simp: reject_pairing_def split: pairing_state.splits)

lemma cancel_pairing_state:
  "fst (cancel_pairing p h) = p \<or> fst (cancel_pairing p h) = p\<lparr>hp_pairing := PairingIdle\<rparr>"
  by (auto simp: cancel_pairing_def split: pairing_state.splits)

lemma expire_pairing_state:
  "fst (expire_pairing p now) = p \<or> fst (expire_pairing p now) = p\<lparr>hp_pairing := PairingIdle\<rparr>"
  by (auto simp: expire_pairing_def split: pairing_state.splits)

lemma generate_session_id_first:
  "list_all (\<lambda>draw. \<exists>bs. draw = Some bs \<and> le_val bs = (0 :: u64)) zeros \<Longrightarrow>
   generate_session_id (zeros @ draw # draws) = (case draw of
      None \<Rightarrow> Some (Err AccessRngFailure)
    | Some bs \<Rightarrow> if le_val bs \<noteq> (0 :: u64) then Some (Ok (le_val bs)) else generate_session_id draws)"
  by (induction zeros) (auto simp: random_bytes_def split: option.split)

lemma generate_session_id_nonzero: "generate_session_id draws = Some (Ok sid) \<Longrightarrow> sid \<noteq> 0"
  by (induction draws rule: generate_session_id.induct) (auto split: sum.splits if_splits)

lemma register_Err:
  "register_verified_one_rtt_connection p d now draws = Some (p', Err e) \<Longrightarrow> p' = expired p now"
  by (auto simp: register_verified_one_rtt_connection_def Let_def
      split: if_splits option.splits sum.splits)

lemma register_Ok:
  assumes "register_verified_one_rtt_connection p d now draws = Some (p', Ok context)"
  obtains following where
    "is_pinned (expired p now) d" "hp_pairing (expired p now) = PairingIdle"
    "cc_device context = d" "cc_session_id context \<noteq> 0"
    "cc_authorization_epoch context = hp_next_epoch (expired p now)"
    "checked_add (hp_next_epoch (expired p now)) 1 = Some following"
    "p' = (expired p now)\<lparr>hp_next_epoch := following, hp_pending_session := None,
       hp_active_session := None, hp_active_connection := Some context\<rparr>"
  using assms
  by (auto simp: register_verified_one_rtt_connection_def Let_def
      dest: generate_session_id_nonzero split: if_splits option.splits sum.splits)

lemma request_session_Err:
  "request_session p c caps n = (p', Err e) \<Longrightarrow> p' = p
     \<or> (\<exists>following. checked_add (hp_next_generation p) 1 = Some following
          \<and> p' = p\<lparr>hp_next_generation := following\<rparr>)"
  by (auto simp: request_session_def Let_def split: if_splits option.splits sum.splits)

lemma request_session_Ok:
  assumes "request_session p c caps n = (p', Ok h)"
  obtains following where
    "hp_pairing p = PairingIdle" "is_pinned p (cc_device c)" "hp_active_connection p = Some c"
    "hp_active_session p = None" "hp_pending_session p = None" "caps_contains caps CapView"
    "checked_add (hp_next_generation p) 1 = Some following"
    "request_bound c h" "sr_requested_capabilities h = caps"
    "sr_generation h = hp_next_generation p"
    "p' = p\<lparr>hp_next_generation := following, hp_pending_session := Some h\<rparr>"
  using assms
  by (auto simp: request_session_def request_bound_def Let_def
      split: if_splits option.splits sum.splits)

lemma approve_session_Err:
  "approve_session p h caps ttl now = (p', Err e) \<Longrightarrow>
     p' = expire_active p now \<or> p' = (expire_active p now)\<lparr>hp_pending_session := None\<rparr>"
  by (auto simp: approve_session_def Let_def split: if_splits option.splits)

lemma approve_session_Ok:
  assumes "approve_session p h caps ttl now = (p', Ok a)"
  obtains c where
    "hp_pending_session (expire_active p now) = Some h"
    "hp_active_connection (expire_active p now) = Some c"
    "is_pinned (expire_active p now) (sr_device h)" "request_bound c h" "grant_bound c a"
    "caps_contains caps CapView" "is_subset_of caps (sr_requested_capabilities h)"
    "sa_capabilities a = caps" "sa_device a = sr_device h"
    "sa_session_id a = sr_session_id h" "sa_authorization_epoch a = sr_authorization_epoch h"
    "checked_add now ttl = Some (sa_expires_at_ns a)" "0 < ttl" "ttl \<le> MAX_SESSION_TTL_NS"
    "p' = (expire_active p now)\<lparr>hp_pending_session := None, hp_active_session := Some a\<rparr>"
  using assms
  by (auto simp: approve_session_def request_bound_def grant_bound_def Let_def word_neq_0_conv
      split: if_splits option.splits)

lemma reject_session_state:
  "fst (reject_session p h) = p \<or> fst (reject_session p h) = p\<lparr>hp_pending_session := None\<rparr>"
  by (auto simp: reject_session_def split: option.splits)

lemma close_connection_state:
  "fst (close_connection p c) = p \<or> fst (close_connection p c) = p\<lparr>hp_active_connection := None,
     hp_pending_session := None, hp_active_session := None\<rparr>"
  by (simp add: close_connection_def)

text \<open>A device that is being paired is not pinned, so revocation never meets its pairing.\<close>

lemma pairing_for_unpinned: "policy_inv p \<Longrightarrow> is_pinned p d \<Longrightarrow> \<not> pairing_for (hp_pairing p) d"
  by (cases "hp_pairing p") (auto simp: policy_inv_def pairing_for_def is_pinned_def)

lemma revoke_device_state:
  assumes inv: "policy_inv p" and d: "is_pinned p d"
  shows "revoke_device p d =
     (if is_some_and (hp_active_connection p) (\<lambda>c. cc_device c = d)
      then (p\<lparr>hp_pinned_devices := remove1 d (hp_pinned_devices p), hp_active_connection := None,
          hp_pending_session := None, hp_active_session := None\<rparr>, Ok (hp_active_session p))
      else (p\<lparr>hp_pinned_devices := remove1 d (hp_pinned_devices p)\<rparr>, Ok None))"
proof -
  have "is_some_and (hp_pending_session p) (\<lambda>r. sr_device r = d) \<longleftrightarrow>
      hp_pending_session p \<noteq> None \<and> is_some_and (hp_active_connection p) (\<lambda>c. cc_device c = d)"
    "is_some_and (hp_active_session p) (\<lambda>r. sa_device r = d) \<longleftrightarrow>
      hp_active_session p \<noteq> None \<and> is_some_and (hp_active_connection p) (\<lambda>c. cc_device c = d)"
    using inv by (auto simp: policy_inv_def policy_simps is_some_and_iff)
  then show ?thesis
    using pairing_for_unpinned [OF inv d] d
    by (cases p) (auto simp: revoke_device_def Let_def)
qed

section \<open>Every operation keeps the invariant\<close>

lemma policy_inv_begin_pairing:
  assumes "policy_inv p" shows "policy_inv (fst (begin_pairing p d ttl now s n))"
proof -
  have q: "policy_inv (expired p now)"
    using assms by (intro policy_inv_expire_active policy_inv_expire_pairing)
  obtain p' r where e: "begin_pairing p d ttl now s n = (p', r)"
    by fastforce
  show ?thesis
  proof (cases r)
    case (Inl err)
    with e q show ?thesis by (auto dest!: begin_pairing_Err)
  next
    case (Inr i)
    from e [unfolded Inr] show ?thesis
      by (rule begin_pairing_Ok) (use q e in \<open>simp add: policy_inv_def policy_simps\<close>)
  qed
qed

lemma policy_inv_confirm_pairing:
  assumes "policy_inv p" shows "policy_inv (fst (confirm_pairing p proof now n))"
proof -
  obtain p' r where e: "confirm_pairing p proof now n = (p', r)"
    by fastforce
  show ?thesis
  proof (cases r)
    case (Inl err)
    with e assms show ?thesis by (auto dest!: confirm_pairing_Err intro: policy_inv_no_pairing)
  next
    case (Inr h)
    from e [unfolded Inr] show ?thesis
      by (rule confirm_pairing_Ok) (use assms e in \<open>auto simp: policy_inv_def policy_simps\<close>)
  qed
qed

lemma policy_inv_approve_pairing:
  assumes "policy_inv p" shows "policy_inv (fst (approve_pairing p h now))"
proof -
  obtain p' r where e: "approve_pairing p h now = (p', r)"
    by fastforce
  show ?thesis
  proof (cases r)
    case (Inl err)
    with e assms show ?thesis by (auto dest!: approve_pairing_Err intro: policy_inv_no_pairing)
  next
    case (Inr u)
    from e [unfolded Inr] show ?thesis
      by (rule approve_pairing_Ok) (use assms e in \<open>auto simp: policy_inv_def policy_simps\<close>)
  qed
qed

lemma policy_inv_register:
  assumes "policy_inv p" and e: "register_verified_one_rtt_connection p d now draws = Some (p', r)"
  shows "policy_inv p'"
proof -
  have q: "policy_inv (expired p now)"
    using assms by (intro policy_inv_expire_active policy_inv_expire_pairing)
  show ?thesis
  proof (cases r)
    case (Inl err)
    with e q show ?thesis by (auto dest!: register_Err)
  next
    case (Inr c)
    from e [unfolded Inr] show ?thesis
      by (rule register_Ok) (use q in \<open>simp add: policy_inv_def policy_simps checked_add_1\<close>)
  qed
qed

lemma policy_inv_request_session:
  assumes "policy_inv p" shows "policy_inv (fst (request_session p c caps n))"
proof -
  obtain p' r where e: "request_session p c caps n = (p', r)"
    by fastforce
  show ?thesis
  proof (cases r)
    case (Inl err)
    with e assms show ?thesis
      by (auto dest!: request_session_Err simp: policy_inv_def policy_simps)
  next
    case (Inr h)
    from e [unfolded Inr] show ?thesis
      by (rule request_session_Ok) (use assms e in \<open>simp add: policy_inv_def policy_simps\<close>)
  qed
qed

lemma policy_inv_no_pending: "policy_inv p \<Longrightarrow> policy_inv (p\<lparr>hp_pending_session := None\<rparr>)"
  by (simp add: policy_inv_def policy_simps)

lemma policy_inv_approve_session:
  assumes "policy_inv p" shows "policy_inv (fst (approve_session p h caps ttl now))"
proof -
  have q: "policy_inv (expire_active p now)"
    using assms by (rule policy_inv_expire_active)
  obtain p' r where e: "approve_session p h caps ttl now = (p', r)"
    by fastforce
  show ?thesis
  proof (cases r)
    case (Inl err)
    with e q show ?thesis by (auto dest!: approve_session_Err intro: policy_inv_no_pending)
  next
    case (Inr a)
    from e [unfolded Inr] show ?thesis
      by (rule approve_session_Ok) (use q e in \<open>simp add: policy_inv_def policy_simps\<close>)
  qed
qed

lemma policy_inv_revoke_device:
  assumes "policy_inv p" shows "policy_inv (fst (revoke_device p d))"
proof (cases "is_pinned p d")
  case True
  have "pairing_ok (remove1 d (hp_pinned_devices p)) (hp_pairing p)"
    using assms set_remove1_subset [of d "hp_pinned_devices p"]
    by (cases "hp_pairing p") (auto simp: policy_inv_def length_remove1)
  with assms True show ?thesis
    by (auto simp: revoke_device_state policy_inv_def policy_simps is_some_and_iff length_remove1)
next
  case False
  with assms show ?thesis by (simp add: revoke_device_def)
qed

lemma policy_inv_state:
  "policy_inv p \<Longrightarrow> policy_inv (fst (reject_pairing p h))"
  "policy_inv p \<Longrightarrow> policy_inv (fst (cancel_pairing p ch))"
  "policy_inv p \<Longrightarrow> policy_inv (fst (reject_session p rh))"
  "policy_inv p \<Longrightarrow> policy_inv (fst (close_connection p c))"
  "policy_inv p \<Longrightarrow> policy_inv (fst (active_grant p now))"
  "policy_inv p \<Longrightarrow> policy_inv (fst (is_authorized p g cap now))"
  using reject_pairing_state [of p h] cancel_pairing_state [of p ch]
    reject_session_state [of p rh] close_connection_state [of p c]
    policy_inv_no_connection [of p]
  by (auto simp: policy_inv_no_pairing policy_inv_no_pending policy_inv_expire_active
      active_grant_def is_authorized_def Let_def)

lemma policy_inv_revoke_active: "policy_inv p \<Longrightarrow> policy_inv (fst (revoke_active p))"
  by (auto simp: policy_inv_def policy_simps revoke_active_def)

lemma policy_inv_step: "policy_inv p \<Longrightarrow> policy_inv (fst (access_step p c))"
  by (cases c) (auto simp: policy_inv_begin_pairing policy_inv_confirm_pairing
      policy_inv_approve_pairing policy_inv_request_session policy_inv_approve_session
      policy_inv_revoke_device policy_inv_revoke_active policy_inv_state policy_inv_expire_pairing
      dest: policy_inv_register split: option.splits)

interpretation access: machine_invariant access_step policy_inv
  by unfold_locales (rule policy_inv_step)

section \<open>The moves of the policy\<close>

lemma expire_active_fields [simp]:
  "hp_pinned_devices (expire_active p now) = hp_pinned_devices p"
  "hp_next_epoch (expire_active p now) = hp_next_epoch p"
  "hp_next_generation (expire_active p now) = hp_next_generation p"
  "hp_pairing (expire_active p now) = hp_pairing p"
  by (simp_all add: expire_active_def)

lemma expire_pairing_fields [simp]:
  "hp_pinned_devices (fst (expire_pairing p now)) = hp_pinned_devices p"
  "hp_next_epoch (fst (expire_pairing p now)) = hp_next_epoch p"
  "hp_next_generation (fst (expire_pairing p now)) = hp_next_generation p"
  "hp_active_connection (fst (expire_pairing p now)) = hp_active_connection p"
  "hp_pending_session (fst (expire_pairing p now)) = hp_pending_session p"
  "hp_active_session (fst (expire_pairing p now)) = hp_active_session p"
  by (simp_all add: expire_pairing_def split: pairing_state.split)

lemma is_authorized_state: "fst (is_authorized p g cap now) = expire_active p now"
  by (simp add: is_authorized_def active_grant_def Let_def)

lemma active_grant_state: "fst (active_grant p now) = expire_active p now"
  by (simp add: active_grant_def Let_def)

text \<open>
  A call that hands nothing out only weakens the policy: it may drop pins, the pairing, the
  connection, the request or the grant, and skip generations. Every other call is one of six moves.
\<close>

definition weakened :: "host_access_policy \<Rightarrow> host_access_policy \<Rightarrow> bool" where
  "weakened p q \<longleftrightarrow> set (hp_pinned_devices q) \<subseteq> set (hp_pinned_devices p)
     \<and> hp_next_epoch q = hp_next_epoch p \<and> hp_next_generation p \<le> hp_next_generation q
     \<and> hp_pairing q \<in> {hp_pairing p, PairingIdle}
     \<and> hp_active_connection q \<in> {hp_active_connection p, None}
     \<and> hp_pending_session q \<in> {hp_pending_session p, None}
     \<and> hp_active_session q \<in> {hp_active_session p, None}"

fun hands_out :: "access_reply \<Rightarrow> bool" where
  "hands_out (RInvitation r) = is_ok r"
| "hands_out (RApproval r) = is_ok r"
| "hands_out (RContext r) = is_ok r"
| "hands_out (RRequest r) = is_ok r"
| "hands_out (RGrant r) = is_ok r"
| "hands_out _ = False"

lemma weakened_refl [simp]: "weakened p p"
  by (simp add: weakened_def)

lemma weakened_expire_active [simp]: "weakened p (expire_active p now)"
  by (simp add: weakened_def expire_active_def)

lemma weakened_expire_pairing [simp]: "weakened p (fst (expire_pairing p now))"
  by (simp add: weakened_def expire_pairing_def split: pairing_state.split)

lemma weakened_trans: "weakened p q \<Longrightarrow> weakened q r \<Longrightarrow> weakened p r"
  unfolding weakened_def by (elim conjE insertE emptyE) (simp_all, force+)

lemma weakened_expired [simp]: "weakened p (expired p now)"
  by (rule weakened_trans [OF weakened_expire_pairing weakened_expire_active])

lemma weakened_updates [simp]:
  "weakened p (p\<lparr>hp_pairing := PairingIdle\<rparr>)"
  "weakened p (p\<lparr>hp_pending_session := None\<rparr>)"
  "weakened p (p\<lparr>hp_active_connection := None, hp_pending_session := None, hp_active_session := None\<rparr>)"
  "weakened p (fst (revoke_active p))"
  "checked_add (hp_next_generation p) 1 = Some g \<Longrightarrow> weakened p (p\<lparr>hp_next_generation := g\<rparr>)"
  by (simp_all add: weakened_def revoke_active_def checked_add_le)

lemma weakened_revoke_device: "policy_inv p \<Longrightarrow> weakened p (fst (revoke_device p d))"
proof (cases "is_pinned p d")
  case True
  then show "policy_inv p \<Longrightarrow> ?thesis"
    using set_remove1_subset [of d "hp_pinned_devices p"]
    by (simp add: revoke_device_state weakened_def)
qed (simp add: revoke_device_def)

inductive access_move :: "host_access_policy \<Rightarrow> access_cmd \<Rightarrow> access_reply \<Rightarrow> host_access_policy \<Rightarrow> bool"
where
  Weaken: "weakened p q \<Longrightarrow> \<not> hands_out r \<Longrightarrow> access_move p c r q"
| Begin: "weakened p q \<Longrightarrow> policy_inv q \<Longrightarrow> hp_next_generation q = hp_next_generation p \<Longrightarrow>
    checked_add (hp_next_generation q) 1 = Some following \<Longrightarrow>
    pc_generation (pi_cancellation_handle i) = hp_next_generation q \<Longrightarrow>
    hp_active_connection q = None \<Longrightarrow> pi_device i = d \<Longrightarrow>
    checked_add now ttl = Some (pi_expires_at_ns i) \<Longrightarrow> ttl \<le> MAX_PAIRING_TTL_NS \<Longrightarrow>
    access_move p (BeginPairing d ttl now s n) (RInvitation (Ok i))
      (q\<lparr>hp_next_generation := following,
         hp_pairing := AwaitingProof \<lparr>pd_device = d, pd_secret = pi_secret i,
           pd_cancellation_handle = pi_cancellation_handle i,
           pd_expires_at_ns = pi_expires_at_ns i, pd_generation = hp_next_generation q\<rparr>\<rparr>)"
| Confirm: "hp_pairing p = AwaitingProof pending \<Longrightarrow> now < pd_expires_at_ns pending \<Longrightarrow>
    pp_device pf = pd_device pending \<Longrightarrow> pp_secret pf = pd_secret pending \<Longrightarrow>
    pa_device h = pd_device pending \<Longrightarrow>
    access_move p (ConfirmPairing pf now n) (RApproval (Ok h))
      (p\<lparr>hp_pairing := AwaitingHostApproval \<lparr>pv_handle = h,
         pv_cancellation_handle = pd_cancellation_handle pending,
         pv_expires_at_ns = pd_expires_at_ns pending\<rparr>\<rparr>)"
| Approve: "hp_pairing p = AwaitingHostApproval pending \<Longrightarrow> now < pv_expires_at_ns pending \<Longrightarrow>
    pv_handle pending = h \<Longrightarrow>
    access_move p (ApprovePairing h now) (RUnit (Ok ()))
      (p\<lparr>hp_pairing := PairingIdle, hp_pinned_devices := hp_pinned_devices p @ [pa_device h]\<rparr>)"
| Register: "weakened p q \<Longrightarrow> policy_inv q \<Longrightarrow>
    checked_add (hp_next_epoch q) 1 = Some following \<Longrightarrow>
    cc_authorization_epoch context = hp_next_epoch q \<Longrightarrow>
    access_move p (RegisterConnection d now draws) (RContext (Ok context))
      (q\<lparr>hp_next_epoch := following, hp_pending_session := None, hp_active_session := None,
         hp_active_connection := Some context\<rparr>)"
| Request: "hp_active_connection p = Some cc \<Longrightarrow> hp_active_session p = None \<Longrightarrow>
    checked_add (hp_next_generation p) 1 = Some following \<Longrightarrow> request_bound cc h \<Longrightarrow>
    sr_requested_capabilities h = caps \<Longrightarrow> sr_generation h = hp_next_generation p \<Longrightarrow>
    access_move p (RequestSession cc caps n) (RRequest (Ok h))
      (p\<lparr>hp_next_generation := following, hp_pending_session := Some h\<rparr>)"
| Grant: "weakened p q \<Longrightarrow> policy_inv q \<Longrightarrow>
    hp_pending_session q = Some h \<Longrightarrow> hp_active_connection q = Some cc \<Longrightarrow>
    request_bound cc h \<Longrightarrow> grant_bound cc a \<Longrightarrow> sa_capabilities a = caps \<Longrightarrow>
    is_subset_of caps (sr_requested_capabilities h) \<Longrightarrow>
    checked_add now ttl = Some (sa_expires_at_ns a) \<Longrightarrow> ttl \<le> MAX_SESSION_TTL_NS \<Longrightarrow>
    access_move p (ApproveSession h caps ttl now) (RGrant (Ok a))
      (q\<lparr>hp_pending_session := None, hp_active_session := Some a\<rparr>)"

lemma begin_pairing_move:
  assumes "policy_inv p"
  shows "access_move p (BeginPairing d ttl now s n)
    (RInvitation (snd (begin_pairing p d ttl now s n))) (fst (begin_pairing p d ttl now s n))"
proof -
  have q: "policy_inv (expired p now)"
    using assms by (intro policy_inv_expire_active policy_inv_expire_pairing)
  obtain p' r where e: "begin_pairing p d ttl now s n = (p', r)" by fastforce
  show ?thesis
  proof (cases r)
    case (Inl err)
    then show ?thesis using e by (auto dest!: begin_pairing_Err intro: Weaken)
  next
    case (Inr i)
    from e [unfolded Inr] have "access_move p (BeginPairing d ttl now s n) (RInvitation (Ok i)) p'"
      by (rule begin_pairing_Ok)
        (use q Begin [of p "expired p now" _ i d now ttl s n] in simp)
    then show ?thesis using e Inr by simp
  qed
qed

lemma confirm_pairing_move:
  "access_move p (ConfirmPairing pf now n)
    (RApproval (snd (confirm_pairing p pf now n))) (fst (confirm_pairing p pf now n))"
proof -
  obtain p' r where e: "confirm_pairing p pf now n = (p', r)" by fastforce
  then show ?thesis
    by (cases r) (auto dest!: confirm_pairing_Err intro: Weaken Confirm elim!: confirm_pairing_Ok)
qed

lemma approve_pairing_move:
  "access_move p (ApprovePairing h now)
    (RUnit (snd (approve_pairing p h now))) (fst (approve_pairing p h now))"
proof -
  obtain p' r where e: "approve_pairing p h now = (p', r)" by fastforce
  then show ?thesis
    by (cases r) (auto dest!: approve_pairing_Err intro: Weaken Approve elim!: approve_pairing_Ok)
qed

lemma request_session_move:
  "access_move p (RequestSession c caps n)
    (RRequest (snd (request_session p c caps n))) (fst (request_session p c caps n))"
proof -
  obtain p' r where e: "request_session p c caps n = (p', r)" by fastforce
  then show ?thesis
    by (cases r) (auto dest!: request_session_Err intro: Weaken Request elim!: request_session_Ok)
qed

lemma approve_session_move:
  assumes "policy_inv p"
  shows "access_move p (ApproveSession h caps ttl now)
    (RGrant (snd (approve_session p h caps ttl now))) (fst (approve_session p h caps ttl now))"
proof -
  obtain p' r where e: "approve_session p h caps ttl now = (p', r)" by fastforce
  have "weakened p ((expire_active p now)\<lparr>hp_pending_session := None\<rparr>)"
    using weakened_trans [OF weakened_expire_active weakened_updates(2)] .
  with e show ?thesis
    using policy_inv_expire_active [OF assms, of now]
    by (cases r) (auto dest!: approve_session_Err intro: Weaken Grant elim!: approve_session_Ok)
qed

lemma register_move:
  assumes "policy_inv p"
    and e: "register_verified_one_rtt_connection p d now draws = Some (p', r)"
  shows "access_move p (RegisterConnection d now draws) (RContext r) p'"
proof -
  have "policy_inv (expired p now)"
    using assms by (intro policy_inv_expire_active policy_inv_expire_pairing)
  with e show ?thesis
    by (cases r) (auto dest!: register_Err intro: Weaken Register elim!: register_Ok)
qed

text \<open>The step function is covered by the moves.\<close>

lemma access_step_move:
  assumes "policy_inv p"
  shows "access_move p c (snd (access_step p c)) (fst (access_step p c))"
proof (cases c)
  case (RejectPairing h)
  then show ?thesis using reject_pairing_state [of p h] by (auto intro!: Weaken)
next
  case (CancelPairing h)
  then show ?thesis using cancel_pairing_state [of p h] by (auto intro!: Weaken)
next
  case (RejectSession h)
  then show ?thesis using reject_session_state [of p h] by (auto intro!: Weaken)
next
  case (CloseConnection cc)
  then show ?thesis using close_connection_state [of p cc] by (auto intro!: Weaken)
next
  case (RegisterConnection d now draws)
  with assms show ?thesis by (auto intro: Weaken register_move split: option.split)
next
  case (ExpirePairing now)
  then show ?thesis by (auto intro!: Weaken)
next
  case RevokeActive
  then show ?thesis by (auto intro!: Weaken)
next
  case (RevokeDevice d)
  with assms show ?thesis by (auto intro!: Weaken weakened_revoke_device)
next
  case (ActiveGrant now)
  then show ?thesis by (auto intro!: Weaken simp: active_grant_state)
next
  case (IsAuthorized g cap now)
  then show ?thesis by (auto intro!: Weaken simp: is_authorized_state)
qed (use assms in \<open>simp_all add: begin_pairing_move confirm_pairing_move approve_pairing_move
    request_session_move approve_session_move\<close>)

section \<open>Epochs and generations are handed out once\<close>

fun epoch_granted :: "access_cmd \<Rightarrow> access_reply \<Rightarrow> nat option" where
  "epoch_granted _ (RContext (Inr context)) = Some (unat (cc_authorization_epoch context))"
| "epoch_granted _ _ = None"

fun generation_granted :: "access_cmd \<Rightarrow> access_reply \<Rightarrow> nat option" where
  "generation_granted _ (RInvitation (Inr i)) = Some (unat (pc_generation (pi_cancellation_handle i)))"
| "generation_granted _ (RRequest (Inr h)) = Some (unat (sr_generation h))"
| "generation_granted _ _ = None"

lemma not_hands_out:
  assumes "\<not> hands_out r"
  shows "epoch_granted c r = None" and "generation_granted c r = None"
  using assms by (cases r; auto simp: is_ok_def split: sum.splits)+

lemma epoch_move:
  assumes "access_move p c r p'"
  shows "unat (hp_next_epoch p) \<le> unat (hp_next_epoch p')"
    and "epoch_granted c r = Some e \<Longrightarrow> unat (hp_next_epoch p) \<le> e \<and> e < unat (hp_next_epoch p')"
  using assms
  by (cases; auto simp: weakened_def not_hands_out checked_add_Some_iff)+

lemma generation_move:
  assumes "access_move p c r p'"
  shows "unat (hp_next_generation p) \<le> unat (hp_next_generation p')"
    and "generation_granted c r = Some g \<Longrightarrow>
      unat (hp_next_generation p) \<le> g \<and> g < unat (hp_next_generation p')"
  using assms
  by (cases; auto simp: weakened_def not_hands_out checked_add_Some_iff word_le_nat_alt)+

interpretation epochs: fresh_issuer access_step policy_inv "\<lambda>p. unat (hp_next_epoch p)" epoch_granted
  by unfold_locales (blast dest: access_step_move epoch_move)+

interpretation generations: fresh_issuer access_step policy_inv
  "\<lambda>p. unat (hp_next_generation p)" generation_granted
  by unfold_locales (blast dest: access_step_move generation_move)+

section \<open>A closed connection never comes back\<close>

definition epoch_retired :: "u32 \<Rightarrow> host_access_policy \<Rightarrow> bool" where
  "epoch_retired e p \<longleftrightarrow> policy_inv p \<and> e < hp_next_epoch p
     \<and> \<not> is_some_and (hp_active_connection p) (\<lambda>c. cc_authorization_epoch c = e)"

lemma epoch_retired_move:
  assumes "epoch_retired e p" and "access_move p c r p'" and "policy_inv p'"
  shows "epoch_retired e p'"
  using assms(2) assms(1,3)
  by cases (auto simp: epoch_retired_def weakened_def is_some_and_iff dest: checked_add_1)

interpretation retired: machine_invariant access_step "epoch_retired e" for e
proof
  fix p c
  assume p: "epoch_retired e p"
  then have "policy_inv p"
    by (simp add: epoch_retired_def)
  with p show "epoch_retired e (fst (access_step p c))"
    by (blast intro: epoch_retired_move access_step_move policy_inv_step)
qed

lemma retired_not_authorized:
  assumes "epoch_retired (sa_authorization_epoch g) p"
  shows "\<not> snd (is_authorized p g cap now)"
  using assms
  by (auto simp: epoch_retired_def is_authorized_def active_grant_def expire_active_def Let_def
      is_some_and_iff split: if_splits)

lemma is_authorized_iff:
  assumes "policy_inv p"
  shows "snd (is_authorized p g cap now) \<longleftrightarrow>
    hp_active_session p = Some g \<and> now < sa_expires_at_ns g \<and> caps_contains (sa_capabilities g) cap"
  using assms
  by (auto simp: is_authorized_def active_grant_def expire_active_def Let_def is_some_and_iff
      policy_inv_def grant_bound_def split: if_splits)

section \<open>The policy is explained by its history\<close>

text \<open>
  \<open>pairing_invited\<close>, \<open>pairing_confirmed\<close> and \<open>pairing_approved\<close> are the three events of a pairing, in order: the host opened an
  invitation, a device presented exactly its device and secret before it expired, and the host
  approved exactly the handle this gave before the expiry.
\<close>

type_synonym access_event = "access_cmd \<times> access_reply"

definition pairing_invited :: "access_event list \<Rightarrow> pairing_invitation \<Rightarrow> bool" where
  "pairing_invited tr i \<longleftrightarrow> (\<exists>ttl now s n.
     subseq [(BeginPairing (pi_device i) ttl now s n, RInvitation (Ok i))] tr
     \<and> unat (pi_expires_at_ns i) = unat now + unat ttl \<and> ttl \<le> MAX_PAIRING_TTL_NS)"

definition pairing_confirmed :: "access_event list \<Rightarrow> pairing_invitation \<Rightarrow> pairing_approval_handle \<Rightarrow> bool" where
  "pairing_confirmed tr i h \<longleftrightarrow> (\<exists>ttl t0 s n t1 m.
     subseq [(BeginPairing (pi_device i) ttl t0 s n, RInvitation (Ok i)),
             (ConfirmPairing (proof_from_invitation i) t1 m, RApproval (Ok h))] tr
     \<and> unat (pi_expires_at_ns i) = unat t0 + unat ttl \<and> ttl \<le> MAX_PAIRING_TTL_NS
     \<and> t1 < pi_expires_at_ns i \<and> pa_device h = pi_device i)"

definition pairing_approved :: "access_event list \<Rightarrow> device_fingerprint \<Rightarrow> bool" where
  "pairing_approved tr d \<longleftrightarrow> (\<exists>i h ttl t0 s n t1 m t2.
     subseq [(BeginPairing d ttl t0 s n, RInvitation (Ok i)),
             (ConfirmPairing (proof_from_invitation i) t1 m, RApproval (Ok h)),
             (ApprovePairing h t2, RUnit (Ok ()))] tr
     \<and> unat (pi_expires_at_ns i) = unat t0 + unat ttl \<and> ttl \<le> MAX_PAIRING_TTL_NS
     \<and> t1 < pi_expires_at_ns i \<and> t2 < pi_expires_at_ns i
     \<and> pi_device i = d \<and> pa_device h = d)"

definition session_requested :: "access_event list \<Rightarrow> session_request_handle \<Rightarrow> bool" where
  "session_requested tr h \<longleftrightarrow> (\<exists>c n. request_bound c h
     \<and> subseq [(RequestSession c (sr_requested_capabilities h) n, RRequest (Ok h))] tr)"

definition granted_by_host :: "access_event list \<Rightarrow> session_authorization \<Rightarrow> bool" where
  "granted_by_host tr a \<longleftrightarrow> (\<exists>c h n ttl t.
     subseq [(RequestSession c (sr_requested_capabilities h) n, RRequest (Ok h)),
             (ApproveSession h (sa_capabilities a) ttl t, RGrant (Ok a))] tr
     \<and> request_bound c h \<and> grant_bound c a
     \<and> is_subset_of (sa_capabilities a) (sr_requested_capabilities h)
     \<and> ttl \<le> MAX_SESSION_TTL_NS \<and> unat (sa_expires_at_ns a) = unat t + unat ttl)"

fun pairing_explained :: "access_event list \<Rightarrow> pairing_state \<Rightarrow> bool" where
  "pairing_explained tr PairingIdle \<longleftrightarrow> True"
| "pairing_explained tr (AwaitingProof w) \<longleftrightarrow> (\<exists>i. pairing_invited tr i \<and> pi_device i = pd_device w
     \<and> pi_secret i = pd_secret w \<and> pi_expires_at_ns i = pd_expires_at_ns w)"
| "pairing_explained tr (AwaitingHostApproval w) \<longleftrightarrow>
     (\<exists>i. pairing_confirmed tr i (pv_handle w) \<and> pi_expires_at_ns i = pv_expires_at_ns w)"

definition policy_explained :: "device_fingerprint set \<Rightarrow> access_event list \<Rightarrow> host_access_policy \<Rightarrow> bool" where
  "policy_explained initial tr p \<longleftrightarrow>
     (\<forall>d \<in> set (hp_pinned_devices p). d \<in> initial \<or> pairing_approved tr d)
   \<and> pairing_explained tr (hp_pairing p)
   \<and> (\<forall>h. hp_pending_session p = Some h \<longrightarrow> session_requested tr h)
   \<and> (\<forall>a. hp_active_session p = Some a \<longrightarrow> granted_by_host tr a)"

lemma events_snoc:
  "pairing_invited tr i \<Longrightarrow> pairing_invited (tr @ [e]) i"
  "pairing_confirmed tr i h \<Longrightarrow> pairing_confirmed (tr @ [e]) i h"
  "pairing_approved tr d \<Longrightarrow> pairing_approved (tr @ [e]) d"
  "session_requested tr rh \<Longrightarrow> session_requested (tr @ [e]) rh"
  "granted_by_host tr a \<Longrightarrow> granted_by_host (tr @ [e]) a"
  unfolding pairing_invited_def pairing_confirmed_def pairing_approved_def session_requested_def granted_by_host_def
  by (elim exE conjE, intro exI conjI, erule subseq_snoc_mono, assumption+,
      elim exE conjE, intro exI conjI, erule subseq_snoc_mono, assumption+,
      elim exE conjE, intro exI conjI, erule subseq_snoc_mono, assumption+,
      elim exE conjE, intro exI conjI, assumption, erule subseq_snoc_mono,
      elim exE conjE, intro exI conjI, erule subseq_snoc_mono, assumption+)

lemma pairing_explained_snoc: "pairing_explained tr s \<Longrightarrow> pairing_explained (tr @ [e]) s"
  by (cases s) (auto intro: events_snoc)

lemma policy_explained_snoc: "policy_explained D tr p \<Longrightarrow> policy_explained D (tr @ [e]) p"
  by (auto simp: policy_explained_def intro: events_snoc pairing_explained_snoc)

lemma policy_explained_weakened:
  "policy_explained D tr p \<Longrightarrow> weakened p q \<Longrightarrow> policy_explained D tr q"
  by (auto simp: policy_explained_def weakened_def)

text \<open>The next event extends a chain of events.\<close>

lemma confirmed_snoc:
  assumes "pairing_invited tr i" and "pp_device pf = pi_device i" and "pp_secret pf = pi_secret i"
    and "now < pi_expires_at_ns i" and "pa_device h = pi_device i"
  shows "pairing_confirmed (tr @ [(ConfirmPairing pf now n, RApproval (Ok h))]) i h"
proof -
  have pf: "pf = proof_from_invitation i"
    using assms(2,3) by (cases pf) (simp add: proof_from_invitation_def)
  obtain ttl t0 s m where
    sub: "subseq [(BeginPairing (pi_device i) ttl t0 s m, RInvitation (Ok i))] tr"
    and "unat (pi_expires_at_ns i) = unat t0 + unat ttl" "ttl \<le> MAX_PAIRING_TTL_NS"
    using assms(1) unfolding pairing_invited_def by blast
  then show ?thesis
    unfolding pairing_confirmed_def pf
    by (intro exI conjI, use subseq_snoc [OF sub] in simp) (use assms(4,5) in simp_all)
qed

lemma approved_snoc:
  assumes "pairing_confirmed tr i h" and "now < pi_expires_at_ns i"
  shows "pairing_approved (tr @ [(ApprovePairing h now, RUnit (Ok ()))]) (pa_device h)"
proof -
  obtain ttl t0 s n t1 m where
    sub: "subseq [(BeginPairing (pi_device i) ttl t0 s n, RInvitation (Ok i)),
             (ConfirmPairing (proof_from_invitation i) t1 m, RApproval (Ok h))] tr"
    and "unat (pi_expires_at_ns i) = unat t0 + unat ttl" "ttl \<le> MAX_PAIRING_TTL_NS"
    "t1 < pi_expires_at_ns i" "pa_device h = pi_device i"
    using assms(1) unfolding pairing_confirmed_def by blast
  moreover have "subseq [(BeginPairing (pi_device i) ttl t0 s n, RInvitation (Ok i)),
      (ConfirmPairing (proof_from_invitation i) t1 m, RApproval (Ok h)),
      (ApprovePairing h now, RUnit (Ok ()))] (tr @ [(ApprovePairing h now, RUnit (Ok ()))])"
    using subseq_snoc [OF sub] by simp
  ultimately show ?thesis
    unfolding pairing_approved_def using assms(2) by metis
qed

lemma granted_by_host_snoc:
  assumes "session_requested tr h" and "request_bound cc h" and "grant_bound cc a"
    and "is_subset_of (sa_capabilities a) (sr_requested_capabilities h)"
    and "ttl \<le> MAX_SESSION_TTL_NS" and "unat (sa_expires_at_ns a) = unat now + unat ttl"
  shows "granted_by_host
    (tr @ [(ApproveSession h (sa_capabilities a) ttl now, RGrant (Ok a))]) a"
proof -
  obtain c n where "request_bound c h"
    and sub: "subseq [(RequestSession c (sr_requested_capabilities h) n, RRequest (Ok h))] tr"
    using assms(1) unfolding session_requested_def by blast
  then have "grant_bound c a"
    using assms(2,3) by (simp add: request_bound_def grant_bound_def)
  with \<open>request_bound c h\<close> assms(4-6) show ?thesis
    unfolding granted_by_host_def
    by (intro exI conjI, use subseq_snoc [OF sub] in simp) simp_all
qed

lemma policy_explained_move:
  assumes p: "policy_explained D tr p" and "access_move p c r p'"
  shows "policy_explained D (tr @ [(c, r)]) p'"
  using assms(2)
proof cases
  case Weaken
  then show ?thesis
    using p by (blast intro: policy_explained_weakened policy_explained_snoc)
next
  case (Begin q following i d now ttl s n)
  have "subseq [(BeginPairing (pi_device i) ttl now s n, RInvitation (Ok i))] (tr @ [(c, r)])"
    "unat (pi_expires_at_ns i) = unat now + unat ttl"
    using Begin by (simp_all add: checked_add_Some_iff)
  then have "pairing_invited (tr @ [(c, r)]) i"
    unfolding pairing_invited_def using Begin by blast
  moreover have "policy_explained D (tr @ [(c, r)]) q"
    using p Begin(4) by (blast intro: policy_explained_weakened policy_explained_snoc)
  ultimately show ?thesis
    using Begin by (auto simp: policy_explained_def)
next
  case (Confirm pending now pf h n)
  then obtain i where i: "pairing_invited tr i" "pi_device i = pd_device pending"
    "pi_secret i = pd_secret pending" "pi_expires_at_ns i = pd_expires_at_ns pending"
    using p by (auto simp: policy_explained_def)
  then have "pairing_confirmed (tr @ [(c, r)]) i h"
    using confirmed_snoc [of tr i pf now h n] Confirm by simp
  then show ?thesis
    using policy_explained_snoc [OF p, of "(c, r)"] Confirm i by (auto simp: policy_explained_def)
next
  case (Approve pending now h)
  then obtain i where "pairing_confirmed tr i h" "pi_expires_at_ns i = pv_expires_at_ns pending"
    using p by (auto simp: policy_explained_def)
  then have "pairing_approved (tr @ [(c, r)]) (pa_device h)"
    using approved_snoc [of tr i h now] Approve by simp
  then show ?thesis
    using policy_explained_snoc [OF p, of "(c, r)"] Approve by (auto simp: policy_explained_def)
next
  case (Register q following ctx d now draws)
  have "policy_explained D (tr @ [(c, r)]) q"
    using p Register(4) by (blast intro: policy_explained_weakened policy_explained_snoc)
  then show ?thesis
    using Register by (auto simp: policy_explained_def)
next
  case (Request cc following h caps n)
  then have "session_requested (tr @ [(c, r)]) h"
    by (auto simp: session_requested_def)
  then show ?thesis
    using policy_explained_snoc [OF p, of "(c, r)"] Request by (auto simp: policy_explained_def)
next
  case (Grant q h cc a caps now ttl)
  have q: "policy_explained D tr q"
    using p Grant(4) by (blast intro: policy_explained_weakened)
  then have "session_requested tr h"
    using Grant by (simp add: policy_explained_def)
  then have "granted_by_host (tr @ [(c, r)]) a"
    using granted_by_host_snoc [of tr h cc a ttl now] Grant by (simp add: checked_add_Some_iff)
  then show ?thesis
    using policy_explained_snoc [OF q, of "(c, r)"] Grant by (auto simp: policy_explained_def)
qed

interpretation explained: recorded_machine access_step policy_inv "policy_explained D" for D
  by unfold_locales (blast intro: policy_explained_move access_step_move)

section \<open>Start states\<close>

lemma pin_all_result:
  "pin_all p ds = Ok p' \<Longrightarrow> p' = p\<lparr>hp_pinned_devices := hp_pinned_devices p @ ds\<rparr>
     \<and> (distinct (hp_pinned_devices p) \<and> length (hp_pinned_devices p) \<le> MAX_PINNED_DEVICES \<longrightarrow>
        distinct (hp_pinned_devices p') \<and> length (hp_pinned_devices p') \<le> MAX_PINNED_DEVICES)"
proof (induction ds arbitrary: p)
  case (Cons d ds)
  then show ?case
    using Cons.IH [of "p\<lparr>hp_pinned_devices := hp_pinned_devices p @ [d]\<rparr>"]
    by (auto simp: pin_def is_pinned_def split: if_splits)
qed auto

lemma from_pinned_devices_Ok:
  assumes "from_pinned_devices ds = Ok p"
  shows "p = default_policy\<lparr>hp_pinned_devices := ds\<rparr>" and "policy_inv p"
    and "policy_explained (set ds) [] p"
  using pin_all_result [OF assms [unfolded from_pinned_devices_def]]
  by (auto simp: default_policy_def policy_inv_def policy_explained_def)

section \<open>Properties\<close>

text \<open>
  C10: from any loaded list of pinned devices, whatever calls follow, in whatever order and with
  whatever clock values and random draws: the pinned devices stay distinct and at most 64, the
  active connection belongs to a pinned device, a pending request and an active grant never
  coexist and are each bound to the active connection's device, session identifier and epoch,
  and no connection is open while a pairing is in progress.
\<close>

theorem access_policy_invariant:
  assumes "from_pinned_devices ds = Ok p0"
  shows "policy_inv (fst (run access_step p0 cs))"
  using access.run_inv [OF from_pinned_devices_Ok(2) [OF assms]] .

theorem access_policy_invariant_witness:
  "\<exists>p0. from_pinned_devices [[1], [2]] = Ok p0
     \<and> policy_inv (fst (run access_step p0 [RevokeDevice [1], RevokeActive]))"
proof -
  have "from_pinned_devices [[1], [2]] = Ok (default_policy\<lparr>hp_pinned_devices := [[1], [2]]\<rparr>)"
    by (simp add: from_pinned_devices_def default_policy_def pin_def is_pinned_def MAX_PINNED_DEVICES_def)
  with access_policy_invariant show ?thesis
    by blast
qed

text \<open>
  C1: if \<open>is_authorized\<close> answers yes after any history, then the grant is unexpired and contains the
  capability, its device is pinned and holds the active connection the grant is bound to, and the
  history contains, in this order, the device's request and the host's approval that created this
  grant, for no more than the requested capabilities and no longer than 24 hours.
\<close>

theorem authorized_only_by_grant:
  assumes "from_pinned_devices ds = Ok p0" and "p = fst (run access_step p0 cs)"
    and "snd (is_authorized p g cap now)"
  shows "now < sa_expires_at_ns g \<and> caps_contains (sa_capabilities g) cap
    \<and> is_pinned p (sa_device g) \<and> (\<exists>c. hp_active_connection p = Some c \<and> grant_bound c g)
    \<and> granted_by_host (trace access_step p0 cs) g"
proof -
  have inv: "policy_inv p"
    using access.run_inv [OF from_pinned_devices_Ok(2) [OF assms(1)]] assms(2) by simp
  then have g: "hp_active_session p = Some g" "now < sa_expires_at_ns g"
    "caps_contains (sa_capabilities g) cap"
    using is_authorized_iff assms(3) by blast+
  have "(\<exists>c. hp_active_connection p = Some c \<and> grant_bound c g) \<and> is_pinned p (sa_device g)"
    using inv g(1) by (auto simp: policy_inv_def connection_ok_def grant_bound_def)
  moreover have "granted_by_host (trace access_step p0 cs) g"
    using explained.run_explained [OF from_pinned_devices_Ok(2,3) [OF assms(1)]] g(1) assms(2)
    by (simp add: policy_explained_def)
  ultimately show ?thesis
    using g by blast
qed

lemmas access_eval = from_pinned_devices_def default_policy_def pin_def is_pinned_def
  MAX_PINNED_DEVICES_def register_verified_one_rtt_connection_def expire_active_def
  expire_pairing_def random_bytes_def checked_add_def request_session_def approve_session_def
  caps_contains_def is_subset_of_def MAX_SESSION_TTL_NS_def is_authorized_def active_grant_def
  Let_def unat_word_ariths

lemma sample_grant:
  "from_pinned_devices [[1]] = Ok (default_policy\<lparr>hp_pinned_devices := [[1]]\<rparr>)"
  "fst (run access_step (default_policy\<lparr>hp_pinned_devices := [[1]]\<rparr>)
     [RegisterConnection [1] 0 [Some [0], Some [5]],
      RequestSession \<lparr>cc_device = [1], cc_session_id = 5, cc_authorization_epoch = 1\<rparr> 3 (Some [9]),
      ApproveSession \<lparr>sr_device = [1], sr_session_id = 5, sr_authorization_epoch = 1,
        sr_requested_capabilities = 3, sr_generation = 1, sr_nonce = [9]\<rparr> 1 100 7])
   = default_policy\<lparr>hp_pinned_devices := [[1]], hp_next_epoch := 2, hp_next_generation := 2,
       hp_active_connection := Some \<lparr>cc_device = [1], cc_session_id = 5, cc_authorization_epoch = 1\<rparr>,
       hp_active_session := Some \<lparr>sa_device = [1], sa_session_id = 5, sa_authorization_epoch = 1,
         sa_capabilities = 1, sa_expires_at_ns = 107\<rparr>\<rparr>"
  by (simp_all add: access_eval)

theorem authorized_only_by_grant_witness:
  "granted_by_host (trace access_step (default_policy\<lparr>hp_pinned_devices := [[1]]\<rparr>)
     [RegisterConnection [1] 0 [Some [0], Some [5]],
      RequestSession \<lparr>cc_device = [1], cc_session_id = 5, cc_authorization_epoch = 1\<rparr> 3 (Some [9]),
      ApproveSession \<lparr>sr_device = [1], sr_session_id = 5, sr_authorization_epoch = 1,
        sr_requested_capabilities = 3, sr_generation = 1, sr_nonce = [9]\<rparr> 1 100 7])
     \<lparr>sa_device = [1], sa_session_id = 5, sa_authorization_epoch = 1, sa_capabilities = 1,
      sa_expires_at_ns = 107\<rparr>"
proof -
  have "snd (is_authorized (default_policy\<lparr>hp_pinned_devices := [[1]], hp_next_epoch := 2,
      hp_next_generation := 2, hp_active_connection :=
        Some \<lparr>cc_device = [1], cc_session_id = 5, cc_authorization_epoch = 1\<rparr>,
      hp_active_session := Some \<lparr>sa_device = [1], sa_session_id = 5, sa_authorization_epoch = 1,
        sa_capabilities = 1, sa_expires_at_ns = 107\<rparr>\<rparr>)
     \<lparr>sa_device = [1], sa_session_id = 5, sa_authorization_epoch = 1, sa_capabilities = 1,
      sa_expires_at_ns = 107\<rparr> CapView 50)"
    by (simp add: access_eval)
  then show ?thesis
    using authorized_only_by_grant [OF sample_grant(1) sample_grant(2) [symmetric]] by blast
qed

definition ends_grant :: "host_access_policy \<Rightarrow> session_authorization \<Rightarrow> access_cmd \<Rightarrow> bool" where
  "ends_grant p g c = (case c of
     RevokeActive \<Rightarrow> True
   | RevokeDevice d \<Rightarrow> d = sa_device g
   | CloseConnection cc \<Rightarrow> hp_active_connection p = Some cc
   | RegisterConnection d now draws \<Rightarrow>
       is_some_and (register_verified_one_rtt_connection p d now draws) (\<lambda>r. is_ok (snd r))
   | ActiveGrant now \<Rightarrow> sa_expires_at_ns g \<le> now
   | _ \<Rightarrow> False)"

lemma ended_grant_retired:
  assumes inv: "policy_inv p" and g: "hp_active_session p = Some g" and c: "ends_grant p g c"
  shows "epoch_retired (sa_authorization_epoch g) (fst (access_step p c))"
proof -
  obtain cc where cc: "hp_active_connection p = Some cc" "grant_bound cc g"
    "sa_authorization_epoch g < hp_next_epoch p" "is_pinned p (sa_device g)"
    using inv g by (auto simp: policy_inv_def connection_ok_def grant_bound_def)
  have "policy_inv (fst (access_step p c))"
    using inv by (rule policy_inv_step)
  moreover have "sa_authorization_epoch g < hp_next_epoch (fst (access_step p c))"
    using epoch_move(1) [OF access_step_move [OF inv, of c]] cc(3) by (simp add: word_less_nat_alt)
  moreover have "\<not> is_some_and (hp_active_connection (fst (access_step p c)))
      (\<lambda>conn. cc_authorization_epoch conn = sa_authorization_epoch g)"
  proof (cases c)
    case (RegisterConnection d now draws)
    then obtain p' reply where "is_ok reply"
      and e: "register_verified_one_rtt_connection p d now draws = Some (p', reply)"
      using c by (auto simp: ends_grant_def is_some_and_iff)
    then obtain ctx where r: "register_verified_one_rtt_connection p d now draws = Some (p', Ok ctx)"
      by (cases reply) simp_all
    then have "cc_authorization_epoch ctx = hp_next_epoch p" "hp_active_connection p' = Some ctx"
      by (auto elim: register_Ok)
    then show ?thesis
      using r cc(3) RegisterConnection by auto
  next
    case (RevokeDevice d)
    then show ?thesis
      using c cc inv by (simp add: ends_grant_def revoke_device_state grant_bound_def)
  qed (use c cc g in \<open>auto simp: ends_grant_def revoke_active_def close_connection_def
      active_grant_state expire_active_def\<close>)
  ultimately show ?thesis
    by (simp add: epoch_retired_def)
qed

text \<open>
  C2: revocation is final. Once the active grant is ended, by revoking it, by revoking its device,
  by closing its connection, or by a new connection replacing it, no later call of any history
  makes \<open>is_authorized\<close> accept that grant again, for any capability at any time.
\<close>

theorem revocation_is_final:
  assumes "from_pinned_devices ds = Ok p0" and "p = fst (run access_step p0 cs)"
    and "hp_active_session p = Some g" and "ends_grant p g c"
  shows "\<not> snd (is_authorized (fst (run access_step p (c # later))) g cap now)"
proof -
  have "policy_inv p"
    using access.run_inv [OF from_pinned_devices_Ok(2) [OF assms(1)]] assms(2) by simp
  then have "epoch_retired (sa_authorization_epoch g) (fst (access_step p c))"
    using assms(3,4) by (rule ended_grant_retired)
  then have "epoch_retired (sa_authorization_epoch g) (fst (run access_step (fst (access_step p c)) later))"
    by (rule retired.run_inv)
  then show ?thesis
    by (simp add: retired_not_authorized)
qed

theorem revocation_is_final_witness:
  "\<not> snd (is_authorized (fst (run access_step (default_policy\<lparr>hp_pinned_devices := [[1]],
       hp_next_epoch := 2, hp_next_generation := 2, hp_active_connection :=
         Some \<lparr>cc_device = [1], cc_session_id = 5, cc_authorization_epoch = 1\<rparr>,
       hp_active_session := Some \<lparr>sa_device = [1], sa_session_id = 5, sa_authorization_epoch = 1,
         sa_capabilities = 1, sa_expires_at_ns = 107\<rparr>\<rparr>)
      [RevokeDevice [1], RegisterConnection [1] 8 [Some [5]]]))
     \<lparr>sa_device = [1], sa_session_id = 5, sa_authorization_epoch = 1, sa_capabilities = 1,
      sa_expires_at_ns = 107\<rparr> CapView 50)"
  by (rule revocation_is_final [OF sample_grant(1) sample_grant(2) [symmetric]])
    (simp_all add: ends_grant_def)

text \<open>
  C4: a device becomes pinned only by completing a pairing. Every pinned device was either in the
  loaded list, or the history contains in this order an invitation for it, a confirmation that
  presented exactly that invitation's device and secret before it expired, and the host's approval
  of exactly the handle this confirmation returned, again before the expiry, at most five minutes
  after the invitation was opened.
\<close>

theorem pinned_only_by_pairing:
  assumes "from_pinned_devices ds = Ok p0"
    and "is_pinned (fst (run access_step p0 cs)) d" and "d \<notin> set ds"
  shows "pairing_approved (trace access_step p0 cs) d"
  using explained.run_explained [OF from_pinned_devices_Ok(2,3) [OF assms(1)], of cs] assms(2,3)
  by (auto simp: policy_explained_def is_pinned_def)

lemma sample_pairing:
  "is_pinned (fst (run access_step default_policy
     [BeginPairing [1] 100 7 (Some [4]) (Some [6]),
      ConfirmPairing \<lparr>pp_device = [1], pp_secret = [4]\<rparr> 8 (Some [9]),
      ApprovePairing \<lparr>pa_device = [1], pa_generation = 1, pa_nonce = [9]\<rparr> 106])) [1]"
  by (simp add: access_eval begin_pairing_def confirm_pairing_def approve_pairing_def
      MAX_PAIRING_TTL_NS_def)

theorem pinned_only_by_pairing_witness:
  "from_pinned_devices [] = Ok default_policy \<and>
   pairing_approved (trace access_step default_policy
     [BeginPairing [1] 100 7 (Some [4]) (Some [6]),
      ConfirmPairing \<lparr>pp_device = [1], pp_secret = [4]\<rparr> 8 (Some [9]),
      ApprovePairing \<lparr>pa_device = [1], pa_generation = 1, pa_nonce = [9]\<rparr> 106]) [1]"
proof -
  have "from_pinned_devices [] = Ok default_policy"
    by (simp add: from_pinned_devices_def)
  with pinned_only_by_pairing [OF this sample_pairing] show ?thesis
    by simp
qed

text \<open>
  C21: along any history the authorization epochs handed to connections strictly increase, and so do
  the generations of pairing invitations and session requests, although both counters are fixed-width:
  at their maximum the operations refuse instead of wrapping.
\<close>

theorem access_handles_fresh:
  assumes "policy_inv p"
  shows "sorted_wrt (<) (granted epoch_granted access_step p cs)
    \<and> sorted_wrt (<) (granted generation_granted access_step p cs)"
  using epochs.granted_increasing [OF assms] generations.granted_increasing [OF assms] by blast

theorem access_handles_fresh_witness:
  "granted generation_granted access_step default_policy
     [BeginPairing [1] 100 7 (Some [4]) (Some [6]), BeginPairing [2] 100 200 (Some [5]) (Some [7])] = [1, 2]
   \<and> sorted_wrt (<) (granted generation_granted access_step default_policy
     [BeginPairing [1] 100 7 (Some [4]) (Some [6]), BeginPairing [2] 100 200 (Some [5]) (Some [7])])"
proof (rule conjI)
  show "granted generation_granted access_step default_policy
     [BeginPairing [1] 100 7 (Some [4]) (Some [6]), BeginPairing [2] 100 200 (Some [5]) (Some [7])] = [1, 2]"
    by (simp add: access_eval begin_pairing_def MAX_PAIRING_TTL_NS_def)
qed (use access_handles_fresh [OF policy_inv_default] in blast)

text \<open>
  C29: admission completes. For a pinned device with no pairing in progress and counters below their
  maximum, registering its connection, requesting capabilities and approving a subset of them all
  succeed, and the grant this yields is accepted for each approved capability until it expires.
\<close>

theorem admission_completes:
  assumes "policy_inv p" and "is_pinned p d" and "hp_pairing p = PairingIdle"
    and "checked_add (hp_next_epoch p) 1 = Some e" and "checked_add (hp_next_generation p) 1 = Some n"
    and "generate_session_id draws = Some (Ok sid)"
    and "caps_contains allowed CapView" and "is_subset_of allowed caps" and "caps_contains caps CapView"
    and "0 < ttl" and "ttl \<le> MAX_SESSION_TTL_NS" and "checked_add now ttl = Some expiry"
  shows "\<exists>p1 p2 p3 ctx h g.
    access_step p (RegisterConnection d now draws) = (p1, RContext (Ok ctx))
    \<and> access_step p1 (RequestSession ctx caps (Some nonce)) = (p2, RRequest (Ok h))
    \<and> access_step p2 (ApproveSession h allowed ttl now) = (p3, RGrant (Ok g))
    \<and> sa_device g = d
    \<and> (\<forall>cap t. snd (is_authorized p3 g cap t) \<longleftrightarrow> t < expiry \<and> caps_contains allowed cap)"
proof -
  define q where "q = expired p now"
  have q: "is_pinned q d" "hp_pairing q = PairingIdle" "hp_next_epoch q = hp_next_epoch p"
    "hp_next_generation q = hp_next_generation p"
    using assms(2,3) by (simp_all add: q_def is_pinned_def expire_pairing_def)
  define ctx where "ctx = \<lparr>cc_device = d, cc_session_id = sid, cc_authorization_epoch = hp_next_epoch p\<rparr>"
  define p1 where "p1 = q\<lparr>hp_next_epoch := e, hp_pending_session := None, hp_active_session := None,
    hp_active_connection := Some ctx\<rparr>"
  define h where "h = \<lparr>sr_device = d, sr_session_id = sid, sr_authorization_epoch = hp_next_epoch p,
    sr_requested_capabilities = caps, sr_generation = hp_next_generation p, sr_nonce = nonce\<rparr>"
  define p2 where "p2 = p1\<lparr>hp_next_generation := n, hp_pending_session := Some h\<rparr>"
  define g where "g = \<lparr>sa_device = d, sa_session_id = sid, sa_authorization_epoch = hp_next_epoch p,
    sa_capabilities = allowed, sa_expires_at_ns = expiry\<rparr>"
  define p3 where "p3 = p2\<lparr>hp_pending_session := None, hp_active_session := Some g\<rparr>"
  have 1: "access_step p (RegisterConnection d now draws) = (p1, RContext (Ok ctx))"
    using assms(4,6) q
    by (simp add: register_verified_one_rtt_connection_def Let_def flip: q_def) (simp add: p1_def ctx_def)
  have 2: "access_step p1 (RequestSession ctx caps (Some nonce)) = (p2, RRequest (Ok h))"
    using assms(5,9) q
    by (simp add: request_session_def p1_def p2_def h_def ctx_def is_pinned_def random_bytes_def Let_def)
  have "expire_active p2 now = p2"
    by (simp add: expire_active_def p2_def p1_def)
  moreover have "ttl \<noteq> 0" "\<not> MAX_SESSION_TTL_NS < ttl"
    using assms(10,11) by auto
  ultimately have 3: "access_step p2 (ApproveSession h allowed ttl now) = (p3, RGrant (Ok g))"
    using assms(7,8,9,12) q
    by (simp add: approve_session_def Let_def)
      (simp add: p3_def p2_def p1_def h_def g_def ctx_def is_pinned_def Let_def)
  have "policy_inv p1"
    using policy_inv_step [OF assms(1), of "RegisterConnection d now draws"] unfolding 1 by simp
  then have "policy_inv p2"
    using policy_inv_step [of p1 "RequestSession ctx caps (Some nonce)"] unfolding 2 by simp
  then have "policy_inv p3"
    using policy_inv_step [of p2 "ApproveSession h allowed ttl now"] unfolding 3 by simp
  then have "\<forall>cap t. snd (is_authorized p3 g cap t) \<longleftrightarrow> t < expiry \<and> caps_contains allowed cap"
    by (simp add: is_authorized_iff) (simp add: p3_def g_def)
  moreover have "sa_device g = d"
    by (simp add: g_def)
  ultimately show ?thesis
    using 1 2 3 by blast
qed

theorem admission_completes_witness:
  "\<exists>p1 p2 p3 ctx h g.
    access_step (default_policy\<lparr>hp_pinned_devices := [[1]]\<rparr>) (RegisterConnection [1] 0 [Some [0], Some [5]])
      = (p1, RContext (Ok ctx))
    \<and> access_step p1 (RequestSession ctx 3 (Some [9])) = (p2, RRequest (Ok h))
    \<and> access_step p2 (ApproveSession h 1 100 0) = (p3, RGrant (Ok g))
    \<and> sa_device g = [1]
    \<and> (\<forall>cap t. snd (is_authorized p3 g cap t) \<longleftrightarrow> t < 100 \<and> caps_contains 1 cap)"
  by (rule admission_completes [where e = 2 and n = 2 and sid = 5,
        OF from_pinned_devices_Ok(2) [OF sample_grant(1)]])
    (simp_all add: access_eval)

end
