(* ===== verification/Unattended.thy ===== *)
theory Unattended
  imports Authorization Wire_Error
begin

text \<open>
  Unattended access tokens, \<^verbatim>\<open>crates/session/src/unattended.rs\<close>, and their wire form,
  \<^verbatim>\<open>UnattendedTokenWire\<close> of \<^verbatim>\<open>crates/protocol/src/lib.rs\<close>: issuing, validating and revoking tokens,
  with the session limit of a token tied to the number of validations in the history.
\<close>

section \<open>Data\<close>

datatype unattended_error =
  TokenNotFound
| TokenExpired
| TokenRevoked
| DeviceMismatch
| CapabilityEscalation
| MaxSessionsExceeded
| InvalidSecret
| UnattendedDisabled
| InvalidTokenTtl
| TokenLimitReached

definition MAX_UNATTENDED_TOKEN_TTL_NS :: u64 where
  "MAX_UNATTENDED_TOKEN_TTL_NS = 30 * 24 * 60 * 60 * 1000000000"

definition MAX_UNATTENDED_TOKENS :: nat where
  "MAX_UNATTENDED_TOKENS = 128"

record unattended_token_record =
  ut_token_id :: bytes
  ut_device :: device_fingerprint
  ut_allowed_capabilities :: capability_set
  ut_issued_at_ns :: u64
  ut_expires_at_ns :: u64
  ut_secret_hash :: bytes
  ut_max_sessions :: "u32 option"
  ut_sessions_used :: u32
  ut_is_revoked :: bool

record unattended_token_wire =
  uw_token_id :: bytes
  uw_device_fingerprint :: bytes
  uw_allowed_capabilities :: u8
  uw_issued_at_ns :: u64
  uw_expires_at_ns :: u64
  uw_signature :: bytes

record unattended_token_manager =
  um_max_token_ttl_ns :: u64
  um_unattended_enabled :: bool
  um_tokens :: "unattended_token_record list"

section \<open>Operations\<close>

text \<open>\<open>compute_secret_hash\<close>: an FNV-1a fold over the secret and the token identifier, then four
  rounds of shift and multiplication, each giving eight bytes.\<close>

definition fnv_step :: "u64 \<Rightarrow> u8 \<Rightarrow> u64" where
  "fnv_step h b = (h XOR ucast b) * 0x100000001b3"

fun expand_hash :: "nat \<Rightarrow> u64 \<Rightarrow> bytes" where
  "expand_hash 0 h = []"
| "expand_hash (Suc n) h =
     (let h' = (h XOR drop_bit 33 h) * 0xff51afd7ed558ccd in to_be_bytes h' @ expand_hash n h')"

definition compute_secret_hash :: "bytes \<Rightarrow> bytes \<Rightarrow> bytes" where
  "compute_secret_hash secret token_id =
     expand_hash 4 (foldl fnv_step 0xcbf29ce484222325 (secret @ token_id))"

definition new_token_manager :: "u64 \<Rightarrow> unattended_token_manager" where
  "new_token_manager ttl =
     \<lparr>um_max_token_ttl_ns = ttl, um_unattended_enabled = True, um_tokens = []\<rparr>"

definition set_unattended_enabled ::
  "unattended_token_manager \<Rightarrow> bool \<Rightarrow> unattended_token_manager" where
  "set_unattended_enabled m enabled = m\<lparr>um_unattended_enabled := enabled\<rparr>"

definition issue_token :: "unattended_token_manager \<Rightarrow> bytes \<Rightarrow> device_fingerprint \<Rightarrow> capability_set
    \<Rightarrow> u64 \<Rightarrow> u32 option \<Rightarrow> bytes \<Rightarrow> u64
    \<Rightarrow> unattended_token_manager \<times> (unattended_error + unattended_token_wire)" where
  "issue_token m token_id device allowed ttl_ns max_sessions secret now_ns =
     (if \<not> um_unattended_enabled m then (m, Err UnattendedDisabled)
      else if ttl_ns = 0 \<or> ttl_ns > um_max_token_ttl_ns m then (m, Err InvalidTokenTtl)
      else if length (um_tokens m) \<ge> MAX_UNATTENDED_TOKENS then (m, Err TokenLimitReached)
      else
        let expires_at_ns = saturating_add now_ns ttl_ns;
            secret_hash = compute_secret_hash secret token_id;
            rec = \<lparr>ut_token_id = token_id, ut_device = device, ut_allowed_capabilities = allowed,
              ut_issued_at_ns = now_ns, ut_expires_at_ns = expires_at_ns,
              ut_secret_hash = secret_hash, ut_max_sessions = max_sessions, ut_sessions_used = 0,
              ut_is_revoked = False\<rparr>
        in (m\<lparr>um_tokens := um_tokens m @ [rec]\<rparr>,
            Ok \<lparr>uw_token_id = token_id, uw_device_fingerprint = device,
              uw_allowed_capabilities = allowed, uw_issued_at_ns = now_ns,
              uw_expires_at_ns = expires_at_ns, uw_signature = secret_hash\<rparr>))"

text \<open>The record \<open>iter_mut().find(..)\<close> yields, changed in place.\<close>

fun update_first :: "('a \<Rightarrow> bool) \<Rightarrow> ('a \<Rightarrow> 'a) \<Rightarrow> 'a list \<Rightarrow> 'a list" where
  "update_first P f [] = []"
| "update_first P f (x # xs) = (if P x then f x # xs else x # update_first P f xs)"

definition validate_token :: "unattended_token_manager \<Rightarrow> bytes \<Rightarrow> bytes \<Rightarrow> device_fingerprint
    \<Rightarrow> capability_set \<Rightarrow> u64 \<Rightarrow> unattended_token_manager \<times> (unattended_error + capability_set)" where
  "validate_token m token_id secret device requested now_ns =
     (if \<not> um_unattended_enabled m then (m, Err UnattendedDisabled)
      else case find (\<lambda>t. ut_token_id t = token_id) (um_tokens m) of
          None \<Rightarrow> (m, Err TokenNotFound)
        | Some rec \<Rightarrow>
      if ut_is_revoked rec then (m, Err TokenRevoked)
      else if now_ns \<ge> ut_expires_at_ns rec then (m, Err TokenExpired)
      else if ut_device rec \<noteq> device then (m, Err DeviceMismatch)
      else if compute_secret_hash secret token_id \<noteq> ut_secret_hash rec then (m, Err InvalidSecret)
      else if \<not> is_subset_of requested (ut_allowed_capabilities rec)
        then (m, Err CapabilityEscalation)
      else if is_some_and (ut_max_sessions rec) (\<lambda>max_s. ut_sessions_used rec \<ge> max_s)
        then (m, Err MaxSessionsExceeded)
      else (m\<lparr>um_tokens := update_first (\<lambda>t. ut_token_id t = token_id)
              (\<lambda>t. t\<lparr>ut_sessions_used := saturating_add (ut_sessions_used t) 1\<rparr>) (um_tokens m)\<rparr>,
            Ok requested))"

definition revoke_token :: "unattended_token_manager \<Rightarrow> bytes
    \<Rightarrow> unattended_token_manager \<times> (unattended_error + unit)" where
  "revoke_token m token_id =
     (case find (\<lambda>t. ut_token_id t = token_id) (um_tokens m) of
        None \<Rightarrow> (m, Err TokenNotFound)
      | Some _ \<Rightarrow> (m\<lparr>um_tokens := update_first (\<lambda>t. ut_token_id t = token_id)
            (\<lambda>t. t\<lparr>ut_is_revoked := True\<rparr>) (um_tokens m)\<rparr>, Ok ()))"

definition revoke_all_for_device :: "unattended_token_manager \<Rightarrow> device_fingerprint
    \<Rightarrow> unattended_token_manager \<times> nat" where
  "revoke_all_for_device m device =
     (m\<lparr>um_tokens := map (\<lambda>t. if ut_device t = device \<and> \<not> ut_is_revoked t
          then t\<lparr>ut_is_revoked := True\<rparr> else t) (um_tokens m)\<rparr>,
      length (filter (\<lambda>t. ut_device t = device \<and> \<not> ut_is_revoked t) (um_tokens m)))"

definition active_token_count :: "unattended_token_manager \<Rightarrow> u64 \<Rightarrow> nat" where
  "active_token_count m now_ns =
     length (filter (\<lambda>t. \<not> ut_is_revoked t \<and> now_ns < ut_expires_at_ns t) (um_tokens m))"

section \<open>The wire form\<close>

definition UNATTENDED_TOKEN_LEN :: nat where
  "UNATTENDED_TOKEN_LEN = 97"

definition encode_unattended_token :: "unattended_token_wire \<Rightarrow> bytes" where
  "encode_unattended_token w = uw_token_id w @ uw_device_fingerprint w @ [uw_allowed_capabilities w]
     @ to_be_bytes (uw_issued_at_ns w) @ to_be_bytes (uw_expires_at_ns w) @ uw_signature w"

definition decode_unattended_token :: "bytes \<Rightarrow> protocol_error + unattended_token_wire" where
  "decode_unattended_token bs =
     (if length bs \<noteq> UNATTENDED_TOKEN_LEN
        then Err (Framing (PayloadLength UNATTENDED_TOKEN_LEN (length bs)))
      else if read_u64 bs 57 \<le> read_u64 bs 49 then Err (Service InvalidUnattendedToken)
      else Ok \<lparr>uw_token_id = slice 0 16 bs, uw_device_fingerprint = slice 16 32 bs,
             uw_allowed_capabilities = bs ! 48, uw_issued_at_ns = read_u64 bs 49,
             uw_expires_at_ns = read_u64 bs 57, uw_signature = slice 65 32 bs\<rparr>)"

definition wf_unattended_token :: "unattended_token_wire \<Rightarrow> bool" where
  "wf_unattended_token w \<longleftrightarrow> length (uw_token_id w) = 16 \<and> length (uw_device_fingerprint w) = 32
     \<and> length (uw_signature w) = 32 \<and> uw_issued_at_ns w < uw_expires_at_ns w"

section \<open>Histories of calls\<close>

datatype token_cmd =
  SetEnabled bool
| IssueToken bytes device_fingerprint capability_set u64 "u32 option" bytes u64
| ValidateToken bytes bytes device_fingerprint capability_set u64
| RevokeToken bytes
| RevokeAllForDevice device_fingerprint

datatype token_reply =
  TDone
| TWire "unattended_error + unattended_token_wire"
| TCaps "unattended_error + capability_set"
| TUnit "unattended_error + unit"
| TCount nat

fun token_step :: "unattended_token_manager \<Rightarrow> token_cmd \<Rightarrow> unattended_token_manager \<times> token_reply" where
  "token_step m (SetEnabled b) = (set_unattended_enabled m b, TDone)"
| "token_step m (IssueToken i d c ttl mx s now) = map_prod id TWire (issue_token m i d c ttl mx s now)"
| "token_step m (ValidateToken i s d c now) = map_prod id TCaps (validate_token m i s d c now)"
| "token_step m (RevokeToken i) = map_prod id TUnit (revoke_token m i)"
| "token_step m (RevokeAllForDevice d) = map_prod id TCount (revoke_all_for_device m d)"

section \<open>What happens to the record of an identifier\<close>

text \<open>
  Only the first record of an identifier is ever looked at. \<open>token_of\<close> is that record; each
  operation's effect on it is one of: unchanged, issued, used once, revoked.
\<close>

definition token_of :: "unattended_token_manager \<Rightarrow> bytes \<Rightarrow> unattended_token_record option" where
  "token_of m i = find (\<lambda>t. ut_token_id t = i) (um_tokens m)"

lemma find_update_first:
  assumes "\<And>x. P x \<Longrightarrow> P (f x)"
  shows "find P (update_first P f xs) = map_option f (find P xs)"
  using assms by (induction xs) auto

lemma find_update_first_other:
  assumes "\<And>x. P x \<Longrightarrow> \<not> Q x" "\<And>x. P x \<Longrightarrow> \<not> Q (f x)"
  shows "find Q (update_first P f xs) = find Q xs"
  using assms by (induction xs) auto

lemma find_map_same:
  assumes "\<And>x. P (f x) = P x"
  shows "find P (map f xs) = map_option f (find P xs)"
  using assms by (induction xs) auto

lemma find_append: "find P (xs @ ys) = (case find P xs of None \<Rightarrow> find P ys | Some x \<Rightarrow> Some x)"
  by (induction xs) auto

lemma token_of_id: "token_of m i = Some t \<Longrightarrow> ut_token_id t = i"
  by (auto simp: token_of_def find_Some_iff)

lemma validate_token_Ok:
  assumes "validate_token m i s d c now = (m', Ok caps)"
  obtains t where "token_of m i = Some t" "um_unattended_enabled m" "\<not> ut_is_revoked t"
    "now < ut_expires_at_ns t" "ut_device t = d" "compute_secret_hash s i = ut_secret_hash t"
    "is_subset_of c (ut_allowed_capabilities t)" "caps = c"
    "\<not> is_some_and (ut_max_sessions t) (\<lambda>mx. ut_sessions_used t \<ge> mx)"
    "\<And>j. token_of m' j = (if j = i
       then Some (t\<lparr>ut_sessions_used := saturating_add (ut_sessions_used t) 1\<rparr>) else token_of m j)"
proof -
  obtain t where t: "token_of m i = Some t" "um_unattended_enabled m" "\<not> ut_is_revoked t"
    "now < ut_expires_at_ns t" "ut_device t = d" "compute_secret_hash s i = ut_secret_hash t"
    "is_subset_of c (ut_allowed_capabilities t)" "caps = c"
    "\<not> is_some_and (ut_max_sessions t) (\<lambda>mx. ut_sessions_used t \<ge> mx)"
    and m': "m' = m\<lparr>um_tokens := update_first (\<lambda>t. ut_token_id t = i)
              (\<lambda>t. t\<lparr>ut_sessions_used := saturating_add (ut_sessions_used t) 1\<rparr>) (um_tokens m)\<rparr>"
    using assms by (auto simp: validate_token_def token_of_def split: if_splits option.splits)
  have "token_of m' j = (if j = i
       then Some (t\<lparr>ut_sessions_used := saturating_add (ut_sessions_used t) 1\<rparr>) else token_of m j)" for j
    using t(1) by (auto simp: m' token_of_def find_update_first find_update_first_other)
  with t show thesis by (rule that)
qed

lemma validate_token_Err: "validate_token m i s d c now = (m', Err e) \<Longrightarrow> m' = m"
  by (auto simp: validate_token_def split: if_splits option.splits)

lemma issue_token_Ok:
  assumes "issue_token m i d c ttl mx s now = (m', Ok w)"
  shows "0 < ttl" "ttl \<le> um_max_token_ttl_ns m" "um_max_token_ttl_ns m' = um_max_token_ttl_ns m"
    "token_of m' j = (if j = i \<and> token_of m i = None
       then Some \<lparr>ut_token_id = i, ut_device = d, ut_allowed_capabilities = c,
              ut_issued_at_ns = now, ut_expires_at_ns = saturating_add now ttl,
              ut_secret_hash = compute_secret_hash s i, ut_max_sessions = mx, ut_sessions_used = 0,
              ut_is_revoked = False\<rparr> else token_of m j)"
    "length (um_tokens m') \<le> MAX_UNATTENDED_TOKENS"
  using assms
  by (auto simp: issue_token_def Let_def token_of_def find_append word_neq_0_conv not_less
      split: if_splits option.splits)

lemma issue_token_Err: "issue_token m i d c ttl mx s now = (m', Err e) \<Longrightarrow> m' = m"
  by (auto simp: issue_token_def Let_def split: if_splits)

lemma revoke_token_of:
  "token_of (fst (revoke_token m i)) j =
     (if j = i then map_option (\<lambda>t. t\<lparr>ut_is_revoked := True\<rparr>) (token_of m i) else token_of m j)"
  by (auto simp: revoke_token_def token_of_def find_update_first find_update_first_other
      split: option.splits)

lemma revoke_all_of:
  "token_of (fst (revoke_all_for_device m d)) j = map_option (\<lambda>t. if ut_device t = d
     then t\<lparr>ut_is_revoked := True\<rparr> else t) (token_of m j)"
proof -
  have "token_of (fst (revoke_all_for_device m d)) j = map_option (\<lambda>t. if ut_device t = d \<and> \<not> ut_is_revoked t
      then t\<lparr>ut_is_revoked := True\<rparr> else t) (token_of m j)"
    unfolding revoke_all_for_device_def token_of_def by (simp add: find_map_same)
  then show ?thesis
    by (cases "token_of m j") auto
qed

section \<open>Tokens are explained by their history\<close>

fun validated :: "bytes \<Rightarrow> token_cmd \<times> token_reply \<Rightarrow> bool" where
  "validated i (ValidateToken j s d c now, TCaps r) \<longleftrightarrow> j = i \<and> is_ok r"
| "validated i _ \<longleftrightarrow> False"

definition validations :: "bytes \<Rightarrow> (token_cmd \<times> token_reply) list \<Rightarrow> nat" where
  "validations i tr = length (filter (validated i) tr)"

definition token_issued :: "u64 \<Rightarrow> (token_cmd \<times> token_reply) list \<Rightarrow> unattended_token_record \<Rightarrow> bool" where
  "token_issued max_ttl tr t \<longleftrightarrow> (\<exists>ttl s now w.
     (IssueToken (ut_token_id t) (ut_device t) (ut_allowed_capabilities t) ttl (ut_max_sessions t) s now,
      TWire (Ok w)) \<in> set tr
     \<and> ttl \<le> max_ttl \<and> ut_expires_at_ns t = saturating_add now ttl
     \<and> ut_secret_hash t = compute_secret_hash s (ut_token_id t))"

definition id_explained ::
  "u64 \<Rightarrow> (token_cmd \<times> token_reply) list \<Rightarrow> bytes \<Rightarrow> unattended_token_record option \<Rightarrow> bool" where
  "id_explained max_ttl tr i ot = (case ot of
       None \<Rightarrow> validations i tr = 0
     | Some t \<Rightarrow> token_issued max_ttl tr t \<and> (\<forall>mx. ut_max_sessions t = Some mx \<longrightarrow>
         validations i tr = unat (ut_sessions_used t) \<and> validations i tr \<le> unat mx))"

definition token_explained :: "u64 \<Rightarrow> (token_cmd \<times> token_reply) list \<Rightarrow> unattended_token_manager \<Rightarrow> bool" where
  "token_explained max_ttl tr m \<longleftrightarrow> um_max_token_ttl_ns m = max_ttl
     \<and> (\<forall>i. id_explained max_ttl tr i (token_of m i))"

lemma validations_snoc:
  "validations i (tr @ [e]) = validations i tr + (if validated i e then 1 else 0)"
  by (simp add: validations_def)

lemma token_issued_snoc: "token_issued T tr t \<Longrightarrow> token_issued T (tr @ [e]) t"
  unfolding token_issued_def set_append by blast

lemma token_issued_update [simp]:
  "token_issued T tr (t\<lparr>ut_sessions_used := n\<rparr>) = token_issued T tr t"
  "token_issued T tr (t\<lparr>ut_is_revoked := b\<rparr>) = token_issued T tr t"
  by (simp_all add: token_issued_def)

lemma id_explained_snoc:
  "id_explained T tr i ot \<Longrightarrow> \<not> validated i e \<Longrightarrow> id_explained T (tr @ [e]) i ot"
  by (auto simp: id_explained_def validations_snoc token_issued_snoc split: option.splits)

lemma id_explained_revoked:
  "id_explained T tr i ot \<Longrightarrow> id_explained T tr i (map_option (\<lambda>t. t\<lparr>ut_is_revoked := True\<rparr>) ot)"
  by (cases ot) (auto simp: id_explained_def)

text \<open>A call that validates nothing and only marks records keeps the explanation.\<close>

lemma token_explained_marked:
  assumes m: "token_explained T tr m" and "um_max_token_ttl_ns m' = um_max_token_ttl_ns m"
    and "\<And>i. \<not> validated i e"
    and of: "\<And>i. token_of m' i = token_of m i
      \<or> token_of m' i = map_option (\<lambda>t. t\<lparr>ut_is_revoked := True\<rparr>) (token_of m i)"
  shows "token_explained T (tr @ [e]) m'"
proof -
  have "id_explained T (tr @ [e]) i (token_of m' i)" for i
    using of [of i]
  proof
    assume "token_of m' i = token_of m i"
    then show ?thesis
      using m assms(3) by (simp add: token_explained_def id_explained_snoc)
  next
    assume "token_of m' i = map_option (\<lambda>t. t\<lparr>ut_is_revoked := True\<rparr>) (token_of m i)"
    moreover have "id_explained T tr i (token_of m i)"
      using m by (simp add: token_explained_def)
    ultimately show ?thesis
      using assms(3) id_explained_revoked id_explained_snoc by metis
  qed
  with m assms(2) show ?thesis
    by (simp add: token_explained_def)
qed

lemma token_explained_issue:
  assumes m: "token_explained T tr m" and e: "issue_token m i d c ttl mx s now = (m', Ok w)"
  shows "token_explained T (tr @ [(IssueToken i d c ttl mx s now, TWire (Ok w))]) m'"
    (is "token_explained T (tr @ [?e]) m'")
proof -
  have T: "um_max_token_ttl_ns m = T"
    using m by (simp add: token_explained_def)
  have "token_issued T (tr @ [?e]) \<lparr>ut_token_id = i, ut_device = d, ut_allowed_capabilities = c,
      ut_issued_at_ns = now, ut_expires_at_ns = saturating_add now ttl,
      ut_secret_hash = compute_secret_hash s i, ut_max_sessions = mx, ut_sessions_used = 0,
      ut_is_revoked = False\<rparr>" (is "token_issued T _ ?t")
    using issue_token_Ok(2) [OF e] T unfolding token_issued_def by auto
  moreover have "validations i tr = 0" if "token_of m i = None"
    using m that by (auto simp: token_explained_def id_explained_def dest: spec [of _ i])
  ultimately have "id_explained T (tr @ [?e]) i (Some ?t)" if "token_of m i = None"
    using that by (simp add: id_explained_def validations_snoc)
  moreover have "id_explained T (tr @ [?e]) j (token_of m j)" for j
    using m by (simp add: token_explained_def id_explained_snoc)
  ultimately show ?thesis
    using T issue_token_Ok(3) [OF e] by (simp add: token_explained_def issue_token_Ok(4) [OF e])
qed

lemma sessions_used_bump:
  fixes used mx :: u32
  assumes "\<not> used \<ge> mx"
  shows "unat (saturating_add used 1) = unat used + 1 \<and> unat used + 1 \<le> unat mx"
proof -
  have "unat used < unat mx" "unat mx < 2 ^ 32"
    using assms unsigned_less [of mx, where 'a = nat] by (simp_all add: word_le_nat_alt)
  then show ?thesis
    by (simp add: unat_saturating_add)
qed

lemma token_explained_validate:
  assumes m: "token_explained T tr m" and e: "validate_token m i s d c now = (m', Ok caps)"
  shows "token_explained T (tr @ [(ValidateToken i s d c now, TCaps (Ok caps))]) m'"
    (is "token_explained T (tr @ [?e]) m'")
  using e
proof (rule validate_token_Ok)
  fix t
  assume t: "token_of m i = Some t"
    and lim: "\<not> is_some_and (ut_max_sessions t) (\<lambda>mx. ut_sessions_used t \<ge> mx)"
    and of: "\<And>j. token_of m' j = (if j = i
      then Some (t\<lparr>ut_sessions_used := saturating_add (ut_sessions_used t) 1\<rparr>) else token_of m j)"
  have "um_max_token_ttl_ns m' = um_max_token_ttl_ns m"
    using e by (auto simp: validate_token_def split: if_splits option.splits)
  moreover have "id_explained T tr i (Some t)"
    using m t by (metis token_explained_def)
  then have "id_explained T (tr @ [?e]) i
      (Some (t\<lparr>ut_sessions_used := saturating_add (ut_sessions_used t) 1\<rparr>))"
    using lim sessions_used_bump [of _ "ut_sessions_used t"]
    by (cases "ut_max_sessions t") (auto simp: id_explained_def validations_snoc token_issued_snoc)
  moreover have "id_explained T (tr @ [?e]) j (token_of m j)" if "j \<noteq> i" for j
    using m that by (simp add: token_explained_def id_explained_snoc)
  ultimately show ?thesis
    using m by (simp add: token_explained_def of)
qed

lemma token_explained_step:
  assumes "token_explained T tr m"
  shows "token_explained T (tr @ [(c, snd (token_step m c))]) (fst (token_step m c))"
proof (cases c)
  case (SetEnabled b)
  show ?thesis
    by (rule token_explained_marked [OF assms])
      (simp_all add: SetEnabled set_unattended_enabled_def token_of_def)
next
  case (IssueToken i d caps ttl mx s now)
  obtain m' r where e: "issue_token m i d caps ttl mx s now = (m', r)" by fastforce
  show ?thesis
  proof (cases r)
    case (Inl err)
    then show ?thesis
      by (intro token_explained_marked [OF assms])
        (use e in \<open>auto simp: IssueToken dest!: issue_token_Err\<close>)
  next
    case (Inr w)
    then show ?thesis
      using token_explained_issue [OF assms] e IssueToken by simp
  qed
next
  case (ValidateToken i s d caps now)
  obtain m' r where e: "validate_token m i s d caps now = (m', r)" by fastforce
  show ?thesis
  proof (cases r)
    case (Inl err)
    then show ?thesis
      by (intro token_explained_marked [OF assms])
        (use e in \<open>auto simp: ValidateToken dest!: validate_token_Err\<close>)
  next
    case (Inr w)
    then show ?thesis
      using token_explained_validate [OF assms] e ValidateToken by simp
  qed
next
  case (RevokeToken i)
  have "um_max_token_ttl_ns (fst (revoke_token m i)) = um_max_token_ttl_ns m"
    by (simp add: revoke_token_def split: option.split)
  then show ?thesis
    by (intro token_explained_marked [OF assms]) (simp_all add: RevokeToken revoke_token_of)
next
  case (RevokeAllForDevice d)
  have "token_of (fst (revoke_all_for_device m d)) i = token_of m i
      \<or> token_of (fst (revoke_all_for_device m d)) i
        = map_option (\<lambda>t. t\<lparr>ut_is_revoked := True\<rparr>) (token_of m i)" for i
    by (cases "token_of m i") (simp_all add: revoke_all_of)
  then show ?thesis
    by (intro token_explained_marked [OF assms])
      (simp_all add: RevokeAllForDevice, simp add: revoke_all_for_device_def)
qed

definition tokens_bounded :: "unattended_token_manager \<Rightarrow> bool" where
  "tokens_bounded m \<longleftrightarrow> length (um_tokens m) \<le> MAX_UNATTENDED_TOKENS"

lemma length_update_first [simp]: "length (update_first P f xs) = length xs"
  by (induction xs) auto

lemma tokens_bounded_step: "tokens_bounded m \<Longrightarrow> tokens_bounded (fst (token_step m c))"
  by (cases c) (auto simp: tokens_bounded_def set_unattended_enabled_def issue_token_def
      validate_token_def revoke_token_def revoke_all_for_device_def Let_def split: option.split)

interpretation tokens: recorded_machine token_step tokens_bounded "token_explained T" for T
  by unfold_locales (simp_all add: tokens_bounded_step token_explained_step)

section \<open>A revoked identifier stays revoked\<close>

definition token_revoked :: "bytes \<Rightarrow> unattended_token_manager \<Rightarrow> bool" where
  "token_revoked i m \<longleftrightarrow> is_some_and (token_of m i) ut_is_revoked"

lemma token_revoked_step: "token_revoked i m \<Longrightarrow> token_revoked i (fst (token_step m c))"
proof (cases c)
  case (IssueToken j d caps ttl mx s now)
  obtain m' r where e: "issue_token m j d caps ttl mx s now = (m', r)" by fastforce
  then show "token_revoked i m \<Longrightarrow> ?thesis"
    using IssueToken issue_token_Ok(4) [of m j d caps ttl mx s now m' _ i]
    by (cases r) (auto simp: token_revoked_def is_some_and_iff dest: issue_token_Err)
next
  case (ValidateToken j s d caps now)
  obtain m' r where e: "validate_token m j s d caps now = (m', r)" by fastforce
  then show "token_revoked i m \<Longrightarrow> ?thesis"
    using ValidateToken
    by (cases r) (auto simp: token_revoked_def is_some_and_iff dest: validate_token_Err
        elim!: validate_token_Ok)
next
  case (RevokeToken j)
  then show "token_revoked i m \<Longrightarrow> ?thesis"
    by (auto simp: token_revoked_def is_some_and_iff revoke_token_of)
next
  case (RevokeAllForDevice d)
  then show "token_revoked i m \<Longrightarrow> ?thesis"
    by (cases "token_of m i") (auto simp: token_revoked_def revoke_all_of)
qed (auto simp: token_revoked_def set_unattended_enabled_def token_of_def)

interpretation revoked: machine_invariant token_step "token_revoked i" for i
  by unfold_locales (rule token_revoked_step)

section \<open>The wire codec\<close>

interpretation unattended_codec: wire_codec
  "\<lambda>w. Ok (encode_unattended_token w) :: protocol_error + bytes" decode_unattended_token
  wf_unattended_token
proof
  fix w bs
  show "decode_unattended_token bs = Ok w" if "wf_unattended_token w"
    and "(Ok (encode_unattended_token w) :: protocol_error + bytes) = Ok bs"
    using that
    by (cases w) (auto simp: decode_unattended_token_def encode_unattended_token_def
        wf_unattended_token_def UNATTENDED_TOKEN_LEN_def read_u64_def wire_simps nth_append)
next
  fix w bs
  assume "decode_unattended_token bs = Ok w"
  then have len: "length bs = 97" and order: "read_u64 bs 49 < read_u64 bs 57"
    and w: "w = \<lparr>uw_token_id = slice 0 16 bs, uw_device_fingerprint = slice 16 32 bs,
      uw_allowed_capabilities = bs ! 48, uw_issued_at_ns = read_u64 bs 49,
      uw_expires_at_ns = read_u64 bs 57, uw_signature = slice 65 32 bs\<rparr>"
    by (auto simp: decode_unattended_token_def UNATTENDED_TOKEN_LEN_def split: if_splits)
  have "bs = take 97 bs" using len by simp
  also have "\<dots> = concat (cut_fields 0 [16, 32, 1, 8, 8, 32] bs)"
    by (rule take_fields) simp
  also have "\<dots> = encode_unattended_token w"
    using len unfolding w by (simp add: encode_unattended_token_def to_be_read slice_1)
  finally show "wf_unattended_token w
      \<and> (Ok (encode_unattended_token w) :: protocol_error + bytes) = Ok bs"
    using len order unfolding w by (simp add: wf_unattended_token_def)
qed

section \<open>Properties\<close>

lemma token_explained_new [simp]: "token_explained T [] (new_token_manager T)"
  by (simp add: token_explained_def id_explained_def new_token_manager_def token_of_def validations_def)

lemma tokens_bounded_new [simp]: "tokens_bounded (new_token_manager T)"
  by (simp add: tokens_bounded_def new_token_manager_def)

text \<open>
  C7: every unattended admission is covered by a token the host issued. If a token validates after
  any history of a manager created with maximal lifetime \<open>T\<close>, then unattended access is enabled and
  the history contains an issue of this identifier for exactly this device whose capabilities
  include the granted ones, with a lifetime of at most \<open>T\<close> that has not run out and a secret of the
  same hash; and if that issue set a session limit, fewer sessions than the limit were admitted before.
\<close>

theorem unattended_admission_covered:
  assumes "m = fst (run token_step (new_token_manager T) cs)"
    and "validate_token m i s d c now = (m', Ok caps)"
  shows "um_unattended_enabled m \<and> caps = c \<and> (\<exists>allowed ttl mx s' t0 w.
    (IssueToken i d allowed ttl mx s' t0, TWire (Ok w))
      \<in> set (trace token_step (new_token_manager T) cs)
    \<and> is_subset_of caps allowed \<and> ttl \<le> T \<and> now < saturating_add t0 ttl
    \<and> compute_secret_hash s i = compute_secret_hash s' i
    \<and> (\<forall>limit. mx = Some limit \<longrightarrow>
        validations i (trace token_step (new_token_manager T) cs) < unat limit))"
  using assms(2)
proof (rule validate_token_Ok)
  fix t
  assume t: "token_of m i = Some t" "um_unattended_enabled m" "now < ut_expires_at_ns t"
    "ut_device t = d" "compute_secret_hash s i = ut_secret_hash t"
    "is_subset_of c (ut_allowed_capabilities t)" "caps = c"
    "\<not> is_some_and (ut_max_sessions t) (\<lambda>mx. ut_sessions_used t \<ge> mx)"
  define tr where "tr = trace token_step (new_token_manager T) cs"
  have "token_explained T tr m"
    using tokens.run_explained [OF tokens_bounded_new token_explained_new] assms(1) by (simp add: tr_def)
  then have "id_explained T tr i (Some t)"
    using t(1) by (metis token_explained_def)
  then have lim: "\<forall>limit. ut_max_sessions t = Some limit \<longrightarrow> validations i tr < unat limit"
    and "token_issued T tr t"
    using t(8) by (auto simp: id_explained_def word_le_nat_alt)
  then obtain ttl s' t0 w where
    "(IssueToken i d (ut_allowed_capabilities t) ttl (ut_max_sessions t) s' t0, TWire (Ok w)) \<in> set tr"
    "ttl \<le> T" "ut_expires_at_ns t = saturating_add t0 ttl"
    "ut_secret_hash t = compute_secret_hash s' i"
    using t(4) token_of_id [OF t(1)] by (auto simp: token_issued_def)
  moreover from this t have "is_subset_of caps (ut_allowed_capabilities t)"
    "now < saturating_add t0 ttl" "compute_secret_hash s i = compute_secret_hash s' i"
    by simp_all
  ultimately show ?thesis
    using t(2,7) lim unfolding tr_def [symmetric] by blast
qed

lemma sample_issue:
  "token_step (new_token_manager 100) (IssueToken [1] [2] 3 50 (Some 1) [9] 10) =
    (\<lparr>um_max_token_ttl_ns = 100, um_unattended_enabled = True, um_tokens =
       [\<lparr>ut_token_id = [1], ut_device = [2], ut_allowed_capabilities = 3, ut_issued_at_ns = 10,
         ut_expires_at_ns = 60, ut_secret_hash = compute_secret_hash [9] [1],
         ut_max_sessions = Some 1, ut_sessions_used = 0, ut_is_revoked = False\<rparr>]\<rparr>,
     TWire (Ok \<lparr>uw_token_id = [1], uw_device_fingerprint = [2], uw_allowed_capabilities = 3,
        uw_issued_at_ns = 10, uw_expires_at_ns = 60, uw_signature = compute_secret_hash [9] [1]\<rparr>))"
  by (simp add: issue_token_def new_token_manager_def MAX_UNATTENDED_TOKENS_def saturating_add_def Let_def)

theorem unattended_admission_covered_witness:
  "\<exists>m m'. m = fst (run token_step (new_token_manager 100) [IssueToken [1] [2] 3 50 (Some 1) [9] 10])
     \<and> validate_token m [1] [9] [2] 1 20 = (m', Ok 1) \<and> um_unattended_enabled m
     \<and> (\<exists>allowed ttl mx s' t0 w. (IssueToken [1] [2] allowed ttl mx s' t0, TWire (Ok w))
         \<in> set (trace token_step (new_token_manager 100) [IssueToken [1] [2] 3 50 (Some 1) [9] 10]))"
proof -
  define m where "m = fst (run token_step (new_token_manager 100) [IssueToken [1] [2] 3 50 (Some 1) [9] 10])"
  then have "m = fst (token_step (new_token_manager 100) (IssueToken [1] [2] 3 50 (Some 1) [9] 10))"
    by simp
  then have "snd (validate_token m [1] [9] [2] 1 20) = Ok 1"
    unfolding sample_issue by (simp add: validate_token_def is_subset_of_def)
  then obtain m' where e: "validate_token m [1] [9] [2] 1 20 = (m', Ok 1)"
    by (metis prod.collapse)
  with unattended_admission_covered [OF m_def e] m_def show ?thesis
    by blast
qed

text \<open>
  C22: revocation of a token is final. After a successful \<open>revoke_token\<close>, or a
  \<open>revoke_all_for_device\<close> for the device the identifier's token is bound to, no later history makes
  the identifier validate, not even after another token is issued under it.
\<close>

theorem token_revocation_final:
  assumes "token_of m i = Some t" and "c = RevokeToken i \<or> c = RevokeAllForDevice (ut_device t)"
  shows "\<not> is_ok (snd (validate_token (fst (run token_step m (c # later))) i s d caps now))"
proof -
  have "token_revoked i (fst (token_step m c))"
    using assms by (auto simp: token_revoked_def revoke_token_of revoke_all_of)
  then have dead: "token_revoked i (fst (run token_step m (c # later)))"
    using revoked.run_inv by simp
  obtain m' r where e: "validate_token (fst (run token_step m (c # later))) i s d caps now = (m', r)"
    by fastforce
  then show ?thesis
    using dead
    by (cases r) (auto simp: token_revoked_def is_some_and_iff elim!: validate_token_Ok)
qed

theorem token_revocation_final_witness:
  "\<not> is_ok (snd (validate_token (fst (run token_step
     (fst (token_step (new_token_manager 100) (IssueToken [1] [2] 3 50 (Some 1) [9] 10)))
     [RevokeAllForDevice [2], IssueToken [1] [2] 3 50 None [9] 11])) [1] [9] [2] 1 20))"
proof -
  let ?t = "\<lparr>ut_token_id = [1], ut_device = [2], ut_allowed_capabilities = 3, ut_issued_at_ns = 10,
         ut_expires_at_ns = 60, ut_secret_hash = compute_secret_hash [9] [1],
         ut_max_sessions = Some 1, ut_sessions_used = 0, ut_is_revoked = False\<rparr>"
  have "token_of (fst (token_step (new_token_manager 100) (IssueToken [1] [2] 3 50 (Some 1) [9] 10))) [1]
      = Some ?t"
    unfolding sample_issue by (simp add: token_of_def)
  from token_revocation_final [OF this, of "RevokeAllForDevice [2]"] show ?thesis
    unfolding unattended_token_record.simps by blast
qed

text \<open>
  The unattended token codec is exact: bytes decode to a token exactly when the token is well
  formed (32-byte fingerprint and signature, 16-byte identifier, expiring after its issue) and they
  are its encoding.
\<close>

theorem unattended_codec_exact:
  "decode_unattended_token bs = Ok w \<longleftrightarrow> wf_unattended_token w \<and> encode_unattended_token w = bs"
  using unattended_codec.dec_iff [of bs w] by simp

end
