(* ===== verification/Disconnect.thy ===== *)
theory Disconnect
  imports Wire_Error
begin

text \<open>
  Session termination, \<^verbatim>\<open>crates/session/src/disconnect.rs\<close>, and its wire message,
  \<^verbatim>\<open>DisconnectWire\<close> of \<^verbatim>\<open>crates/protocol/src/lib.rs\<close>. A string slice is its bytes, which
  \<open>valid_utf8\<close> (the check of \<^verbatim>\<open>core::str::from_utf8\<close>) accepts.
\<close>

section \<open>Reasons and messages\<close>

datatype disconnect_reason =
  DrUserInitiated
| DrHostShutdown
| DrIdleTimeout
| DrHeartbeatExpired
| DrAuthenticationRevoked
| DrTokenExpired
| DrSecurityViolation
| DrSasMismatch
| DrNatTraversalFailed
| DrMigrationFailed

fun disconnect_reason_code :: "disconnect_reason \<Rightarrow> u8" where
  "disconnect_reason_code DrUserInitiated = 1"
| "disconnect_reason_code DrHostShutdown = 2"
| "disconnect_reason_code DrIdleTimeout = 3"
| "disconnect_reason_code DrHeartbeatExpired = 4"
| "disconnect_reason_code DrAuthenticationRevoked = 5"
| "disconnect_reason_code DrTokenExpired = 6"
| "disconnect_reason_code DrSecurityViolation = 7"
| "disconnect_reason_code DrSasMismatch = 8"
| "disconnect_reason_code DrNatTraversalFailed = 9"
| "disconnect_reason_code DrMigrationFailed = 10"

definition disconnect_reason_try_from :: "u8 \<Rightarrow> protocol_error + disconnect_reason" where
  "disconnect_reason_try_from v =
     (if v = 1 then Ok DrUserInitiated
      else if v = 2 then Ok DrHostShutdown
      else if v = 3 then Ok DrIdleTimeout
      else if v = 4 then Ok DrHeartbeatExpired
      else if v = 5 then Ok DrAuthenticationRevoked
      else if v = 6 then Ok DrTokenExpired
      else if v = 7 then Ok DrSecurityViolation
      else if v = 8 then Ok DrSasMismatch
      else if v = 9 then Ok DrNatTraversalFailed
      else if v = 10 then Ok DrMigrationFailed
      else Err (Service (InvalidDisconnectReason v)))"

record disconnect_wire =
  dw_reason :: disconnect_reason
  dw_session_id :: u64
  dw_authorization_epoch :: u32
  dw_message :: bytes

definition disconnect_bytes :: "disconnect_wire \<Rightarrow> bytes" where
  "disconnect_bytes w = disconnect_reason_code (dw_reason w) # to_be_bytes (dw_session_id w)
     @ to_be_bytes (dw_authorization_epoch w)
     @ to_be_bytes (of_nat (length (dw_message w)) :: u16) @ dw_message w"

definition encode_disconnect :: "disconnect_wire \<Rightarrow> protocol_error + bytes" where
  "encode_disconnect w =
     (if length (dw_message w) > 256 then Err (Service InvalidDisconnectMessage)
      else Ok (disconnect_bytes w))"

definition decode_disconnect :: "bytes \<Rightarrow> protocol_error + disconnect_wire" where
  "decode_disconnect bs =
     (if length bs < 15 then Err (Framing (Truncated 15 (length bs)))
      else and_then (disconnect_reason_try_from (bs ! 0)) (\<lambda>reason.
        let msg_len = unat (read_u16 bs 13) in
        if length bs \<noteq> 15 + msg_len then Err (Framing (PayloadLength (15 + msg_len) (length bs)))
        else if \<not> valid_utf8 (slice 15 msg_len bs) then Err (Service InvalidDisconnectMessage)
        else Ok \<lparr>dw_reason = reason, dw_session_id = read_u64 bs 1,
               dw_authorization_epoch = read_u32 bs 9, dw_message = slice 15 msg_len bs\<rparr>))"

section \<open>The controller\<close>

datatype disconnect_error =
  AlreadyClosed
| DrainTimeout
| InvalidWireMessage
| SessionMismatch
| AuthorizationEpochMismatch

datatype disconnect_state =
  Connected
| Closing disconnect_reason bool u64
| Closed disconnect_reason u64

record disconnect_controller =
  dc_session_id :: u64
  dc_authorization_epoch :: u32
  dc_state :: disconnect_state
  dc_default_drain_timeout_ns :: u64

definition new_disconnect_controller :: "u64 \<Rightarrow> u32 \<Rightarrow> u64 \<Rightarrow> disconnect_controller" where
  "new_disconnect_controller sid epoch timeout = \<lparr>dc_session_id = sid,
     dc_authorization_epoch = epoch, dc_state = Connected, dc_default_drain_timeout_ns = timeout\<rparr>"

definition dc_is_closed :: "disconnect_controller \<Rightarrow> bool" where
  "dc_is_closed d = (case dc_state d of Closed _ _ \<Rightarrow> True | _ \<Rightarrow> False)"

definition can_process_traffic :: "disconnect_controller \<Rightarrow> bool" where
  "can_process_traffic d \<longleftrightarrow> dc_state d = Connected"

definition dc_disconnect_reason :: "disconnect_controller \<Rightarrow> disconnect_reason option" where
  "dc_disconnect_reason d = (case dc_state d of
     Closing reason _ _ \<Rightarrow> Some reason | Closed reason _ \<Rightarrow> Some reason | Connected \<Rightarrow> None)"

definition initiate_disconnect :: "disconnect_controller \<Rightarrow> disconnect_reason \<Rightarrow> bytes \<Rightarrow> u64
    \<Rightarrow> disconnect_controller \<times> disconnect_wire" where
  "initiate_disconnect d reason message now_ns =
     (d\<lparr>dc_state := Closing reason True (saturating_add now_ns (dc_default_drain_timeout_ns d))\<rparr>,
      \<lparr>dw_reason = reason, dw_session_id = dc_session_id d,
       dw_authorization_epoch = dc_authorization_epoch d, dw_message = message\<rparr>)"

definition handle_remote_disconnect :: "disconnect_controller \<Rightarrow> disconnect_wire \<Rightarrow> u64
    \<Rightarrow> disconnect_controller \<times> (disconnect_error + unit)" where
  "handle_remote_disconnect d wire now_ns =
     (if dw_session_id wire \<noteq> dc_session_id d then (d, Err SessionMismatch)
      else if dw_authorization_epoch wire \<noteq> dc_authorization_epoch d
        then (d, Err AuthorizationEpochMismatch)
      else if dc_is_closed d then (d, Err AlreadyClosed)
      else (d\<lparr>dc_state := Closed (dw_reason wire) now_ns\<rparr>, Ok ()))"

definition check_drain :: "disconnect_controller \<Rightarrow> nat \<Rightarrow> u64 \<Rightarrow> disconnect_controller \<times> bool" where
  "check_drain d pending_bytes now_ns = (case dc_state d of
     Closing reason _ deadline_ns \<Rightarrow>
       if pending_bytes = 0 \<or> now_ns \<ge> deadline_ns
       then (d\<lparr>dc_state := Closed reason now_ns\<rparr>, True) else (d, False)
   | Closed _ _ \<Rightarrow> (d, True)
   | Connected \<Rightarrow> (d, False))"

definition force_close :: "disconnect_controller \<Rightarrow> disconnect_reason \<Rightarrow> u64 \<Rightarrow> disconnect_controller" where
  "force_close d reason now_ns = d\<lparr>dc_state := Closed reason now_ns\<rparr>"

section \<open>Histories of calls\<close>

datatype disconnect_cmd =
  Initiate disconnect_reason bytes u64
| Remote disconnect_wire u64
| Drain nat u64
| Force disconnect_reason u64

datatype disconnect_reply =
  DWire disconnect_wire
| DResult "disconnect_error + unit"
| DBool bool
| DUnit

fun disconnect_step :: "disconnect_controller \<Rightarrow> disconnect_cmd \<Rightarrow> disconnect_controller \<times> disconnect_reply" where
  "disconnect_step d (Initiate r msg now) = map_prod id DWire (initiate_disconnect d r msg now)"
| "disconnect_step d (Remote w now) = map_prod id DResult (handle_remote_disconnect d w now)"
| "disconnect_step d (Drain n now) = map_prod id DBool (check_drain d n now)"
| "disconnect_step d (Force r now) = (force_close d r now, DUnit)"

lemmas disconnect_defs = initiate_disconnect_def handle_remote_disconnect_def check_drain_def
  force_close_def dc_is_closed_def can_process_traffic_def

text \<open>Traffic is never allowed again once it stopped.\<close>

interpretation stopped: machine_invariant disconnect_step "\<lambda>d. \<not> can_process_traffic d"
proof
  fix d c
  assume "\<not> can_process_traffic d"
  then show "\<not> can_process_traffic (fst (disconnect_step d c))"
    by (cases c; cases "dc_state d") (auto simp: disconnect_defs)
qed

text \<open>A stop is always for one of three causes.\<close>

definition stop_cause :: "disconnect_controller \<Rightarrow> disconnect_cmd \<Rightarrow> bool" where
  "stop_cause d c = (case c of
     Initiate _ _ _ \<Rightarrow> True
   | Remote w _ \<Rightarrow> dw_session_id w = dc_session_id d \<and> dw_authorization_epoch w = dc_authorization_epoch d
   | Force _ _ \<Rightarrow> True
   | Drain _ _ \<Rightarrow> False)"

lemma disconnect_identity:
  "dc_session_id (fst (run disconnect_step d cs)) = dc_session_id d
   \<and> dc_authorization_epoch (fst (run disconnect_step d cs)) = dc_authorization_epoch d"
proof (induction cs arbitrary: d)
  case (Cons c cs)
  have "dc_session_id (fst (disconnect_step d c)) = dc_session_id d
      \<and> dc_authorization_epoch (fst (disconnect_step d c)) = dc_authorization_epoch d"
    by (cases c) (auto simp: disconnect_defs split: disconnect_state.split)
  with Cons show ?case by simp
qed simp

lemma stop_step:
  "can_process_traffic d \<Longrightarrow> can_process_traffic (fst (disconnect_step d c)) \<longleftrightarrow> \<not> stop_cause d c"
  by (cases c) (auto simp: disconnect_defs stop_cause_def)

lemma stop_run:
  "can_process_traffic d \<Longrightarrow>
     can_process_traffic (fst (run disconnect_step d cs)) \<longleftrightarrow> \<not> list_ex (stop_cause d) cs"
proof (induction cs arbitrary: d)
  case (Cons c cs)
  have same: "stop_cause (fst (disconnect_step d c)) = stop_cause d"
    using disconnect_identity [of d "[c]"] by (simp add: stop_cause_def fun_eq_iff cong: disconnect_cmd.case_cong)
  show ?case
  proof (cases "stop_cause d c")
    case True
    then show ?thesis
      using stopped.run_inv [of "fst (disconnect_step d c)" cs] stop_step [OF Cons.prems, of c] by simp
  next
    case False
    then show ?thesis
      using Cons.IH [of "fst (disconnect_step d c)"] stop_step [OF Cons.prems, of c] same by simp
  qed
qed simp

section \<open>The wire codec\<close>

lemma disconnect_reason_inverse [wire_simps]:
  "disconnect_reason_try_from (disconnect_reason_code r) = Ok r"
  by (cases r) (simp_all add: disconnect_reason_try_from_def)

lemma disconnect_reason_Ok:
  "disconnect_reason_try_from b = Ok r \<Longrightarrow> disconnect_reason_code r = b"
  by (auto simp: disconnect_reason_try_from_def split: if_splits)

text \<open>The messages that fit the length field: valid strings of at most 65535 bytes.\<close>

definition wf_disconnect :: "disconnect_wire \<Rightarrow> bool" where
  "wf_disconnect w \<longleftrightarrow> valid_utf8 (dw_message w) \<and> length (dw_message w) < 65536"

lemma decode_disconnect_iff:
  "decode_disconnect bs = Ok w \<longleftrightarrow> wf_disconnect w \<and> bs = disconnect_bytes w"
proof
  assume "wf_disconnect w \<and> bs = disconnect_bytes w"
  then show "decode_disconnect bs = Ok w"
    by (cases w) (simp add: decode_disconnect_def disconnect_bytes_def wf_disconnect_def Let_def
        read_u16_def read_u32_def read_u64_def wire_simps unat_of_nat_small)
next
  assume "decode_disconnect bs = Ok w"
  then obtain len: "length bs = 15 + unat (read_u16 bs 13)"
    and reason: "disconnect_reason_code (dw_reason w) = bs ! 0"
    and utf8: "valid_utf8 (slice 15 (unat (read_u16 bs 13)) bs)"
    and w: "w = \<lparr>dw_reason = dw_reason w, dw_session_id = read_u64 bs 1,
      dw_authorization_epoch = read_u32 bs 9, dw_message = slice 15 (unat (read_u16 bs 13)) bs\<rparr>"
    by (auto simp: decode_disconnect_def Let_def disconnect_reason_Ok split: if_splits)
  have msg: "length (slice 15 (unat (read_u16 bs 13)) bs) = unat (read_u16 bs 13)"
    using len by simp
  then have wf: "wf_disconnect w"
    using utf8 unsigned_less [of "read_u16 bs 13", where 'a = nat]
    by (subst w) (simp add: wf_disconnect_def)
  have "bs = take (length bs) bs" by simp
  also have "\<dots> = concat (cut_fields 0 [1, 8, 4, 2, unat (read_u16 bs 13)] bs)"
    by (rule take_fields) (simp add: len)
  also have "\<dots> = disconnect_bytes w"
    using len reason msg
    by (subst w) (simp add: disconnect_bytes_def to_be_read slice_1)
  finally show "wf_disconnect w \<and> bs = disconnect_bytes w"
    using wf by simp
qed

section \<open>Properties\<close>

text \<open>
  C26: the controller fails closed. After any history of calls on a fresh controller, traffic is
  allowed exactly when none of the calls was a local disconnect, a forced close, or a remote
  disconnect that names this session and authorization epoch; a disconnect for another session or
  epoch, and drain checks, never stop it, and nothing ever restarts it.
\<close>

theorem disconnect_fails_closed:
  "can_process_traffic (fst (run disconnect_step (new_disconnect_controller sid epoch timeout) cs))
   \<longleftrightarrow> \<not> list_ex (stop_cause (new_disconnect_controller sid epoch timeout)) cs"
  by (rule stop_run) (simp add: can_process_traffic_def new_disconnect_controller_def)

text \<open>
  Disconnect messages round-trip: the encoder yields bytes for a valid string exactly when the
  bytes decode to that message and its text has at most 256 bytes. (The decoder also accepts texts
  of 257 to 65535 bytes, which the encoder never produces.)
\<close>

theorem disconnect_codec_roundtrip:
  "encode_disconnect w = Ok bs \<and> valid_utf8 (dw_message w)
   \<longleftrightarrow> decode_disconnect bs = Ok w \<and> length (dw_message w) \<le> 256"
  by (auto simp: encode_disconnect_def decode_disconnect_iff wf_disconnect_def)

end
