(* ===== verification/Sas_Pairing.thy ===== *)
theory Sas_Pairing
  imports Authorization
begin

text \<open>
  Pairing by short authentication string, \<^verbatim>\<open>crates/session/src/pairing.rs\<close>: the evidence a pairing
  is bound to, the six-digit code derived from it, and the coordinator of one pairing attempt.

  The hash, the constant-time comparison and the platform's identity store are not part of the
  crate: they are fields of an environment that every operation takes. The store (the trait
  \<^verbatim>\<open>DeviceIdentityStore\<close> of \<^verbatim>\<open>crates/platform/src/lib.rs\<close>) has a state of any type.
\<close>

section \<open>Environment\<close>

record 's pairing_env =
  pe_sha256 :: "bytes \<Rightarrow> bytes"
  pe_ct_eq :: "bytes \<Rightarrow> bytes \<Rightarrow> bool"
  pe_load_or_create_identity :: "'s \<Rightarrow> 's \<times> (unit + bytes)"
  pe_load_peer_pin :: "'s \<Rightarrow> bytes \<Rightarrow> 's \<times> (unit + bytes option)"
  pe_store_peer_pin :: "'s \<Rightarrow> bytes \<Rightarrow> bytes \<Rightarrow> 's \<times> (unit + unit)"

text \<open>What the comparison is documented to do.\<close>

definition ct_eq_sound :: "'s pairing_env \<Rightarrow> bool" where
  "ct_eq_sound env \<longleftrightarrow> (\<forall>l r. pe_ct_eq env l r \<longleftrightarrow> l = r)"

section \<open>Evidence and codes\<close>

definition MAX_SAS_PAIRING_TTL_NS :: u64 where
  "MAX_SAS_PAIRING_TTL_NS = 5 * 60 * 1000000000"

definition DEFAULT_MAX_SAS_ATTEMPTS :: u8 where
  "DEFAULT_MAX_SAS_ATTEMPTS = 3"

definition SAS_MODULUS :: u32 where
  "SAS_MODULUS = 1000000"

definition ascii :: "string \<Rightarrow> bytes" where
  "ascii s = map (\<lambda>c. of_nat (of_char c)) s"

definition SAS_DOMAIN :: bytes where
  "SAS_DOMAIN = ascii ''LatencyDesk-v1-SAS-Numeric''"

definition SAS_CONFIRM_DOMAIN :: bytes where
  "SAS_CONFIRM_DOMAIN = ascii ''LatencyDesk-v1-SAS-Confirm''"

datatype sas_error =
  SeInvalidEvidence
| SeInvalidSas
| SePairingInProgress
| SeClosed
| SeExpired
| SePeerPinMismatch
| SeSasMismatch
| SeSasAttemptsExceeded
| SeStoreFailure

record pairing_evidence =
  ev_session_id :: u64
  ev_local_fingerprint :: bytes
  ev_peer_fingerprint :: bytes
  ev_expires_at_ns :: u64
  ev_capabilities :: capability_set

definition all_zero :: "bytes \<Rightarrow> bool" where
  "all_zero bs = list_all (\<lambda>b. b = 0) bs"

definition evidence_validate :: "pairing_evidence \<Rightarrow> sas_error + unit" where
  "evidence_validate ev =
     (if all_zero (ev_local_fingerprint ev) \<or> all_zero (ev_peer_fingerprint ev)
         \<or> ev_local_fingerprint ev = ev_peer_fingerprint ev \<or> ev_expires_at_ns ev = 0
      then Err SeInvalidEvidence else Ok ())"

definition new_evidence :: "u64 \<Rightarrow> bytes \<Rightarrow> bytes \<Rightarrow> u64 \<Rightarrow> capability_set \<Rightarrow> sas_error + pairing_evidence" where
  "new_evidence sid local peer expires caps =
     (let ev = \<lparr>ev_session_id = sid, ev_local_fingerprint = local, ev_peer_fingerprint = peer,
           ev_expires_at_ns = expires, ev_capabilities = caps\<rparr>
      in and_then (evidence_validate ev) (\<lambda>_. Ok ev))"

definition canonical_bytes :: "pairing_evidence \<Rightarrow> bytes" where
  "canonical_bytes ev = to_be_bytes (ev_session_id ev) @ ev_local_fingerprint ev
     @ ev_peer_fingerprint ev @ to_be_bytes (ev_expires_at_ns ev) @ [ev_capabilities ev]"

text \<open>The digits are written from the last one down, each the remainder of what is left.\<close>

fun sas_digits :: "nat \<Rightarrow> u32 \<Rightarrow> bytes" where
  "sas_digits 0 remaining = []"
| "sas_digits (Suc n) remaining = sas_digits n (remaining div 10) @ [48 + ucast (remaining mod 10)]"

definition sas_from_valid_value :: "u32 \<Rightarrow> bytes" where
  "sas_from_valid_value v = sas_digits 6 v"

definition sas_from_u32 :: "u32 \<Rightarrow> sas_error + bytes" where
  "sas_from_u32 v = (if v \<ge> SAS_MODULUS then Err SeInvalidSas else Ok (sas_from_valid_value v))"

definition sas_value :: "bytes \<Rightarrow> u32" where
  "sas_value digits = foldl (\<lambda>v d. v * 10 + ucast (d - 48)) 0 digits"

definition sas_from_evidence :: "'s pairing_env \<Rightarrow> pairing_evidence \<Rightarrow> bytes" where
  "sas_from_evidence env ev =
     sas_from_valid_value
       (from_be_bytes (slice 0 4 (pe_sha256 env (SAS_DOMAIN @ canonical_bytes ev))) mod SAS_MODULUS)"

definition sas_commitment :: "'s pairing_env \<Rightarrow> bytes \<Rightarrow> bytes" where
  "sas_commitment env sas = pe_sha256 env (SAS_CONFIRM_DOMAIN @ sas)"

section \<open>The coordinator\<close>

record accepted_session =
  as_session_id :: u64
  as_local_identity :: bytes
  as_peer_pin :: bytes
  as_capabilities :: capability_set

definition accepted_from_evidence :: "pairing_evidence \<Rightarrow> bytes \<Rightarrow> bytes \<Rightarrow> accepted_session" where
  "accepted_from_evidence ev identity peer_pin = \<lparr>as_session_id = ev_session_id ev,
     as_local_identity = identity, as_peer_pin = peer_pin, as_capabilities = ev_capabilities ev\<rparr>"

datatype pairing_start =
  AwaitingSas pairing_evidence bytes
| StartAccepted accepted_session

datatype pairing_progress =
  AwaitingLocalApproval
| AwaitingPeerAcknowledgement
| ProgressAccepted accepted_session

datatype pairing_status =
  StatusIdle
| StatusPending u8
| StatusAccepted
| StatusClosed

record pending_sas =
  ps_alias :: bytes
  ps_evidence :: pairing_evidence
  ps_local_identity :: bytes
  ps_peer_pin :: bytes
  ps_expected_sas_commitment :: bytes
  ps_local_approved :: bool
  ps_peer_acknowledged :: bool
  ps_attempts_remaining :: u8

datatype coordinator_state =
  CoIdle
| CoPending pending_sas
| CoAccepted accepted_session
| CoClosed

record 's pairing_coordinator =
  co_store :: 's
  co_state :: coordinator_state

definition new_coordinator :: "'s \<Rightarrow> 's pairing_coordinator" where
  "new_coordinator store = \<lparr>co_store = store, co_state = CoIdle\<rparr>"

definition close_with :: "'s pairing_coordinator \<Rightarrow> sas_error
    \<Rightarrow> 's pairing_coordinator \<times> (sas_error + 'a)" where
  "close_with p e = (p\<lparr>co_state := CoClosed\<rparr>, Err e)"

definition peer_pin_from_fingerprint :: "bytes \<Rightarrow> unit + bytes" where
  "peer_pin_from_fingerprint f = (if all_zero f then Err () else Ok f)"

definition sas_begin :: "'s pairing_env \<Rightarrow> 's pairing_coordinator \<Rightarrow> bytes \<Rightarrow> pairing_evidence \<Rightarrow> bytes
    \<Rightarrow> u64 \<Rightarrow> 's pairing_coordinator \<times> (sas_error + pairing_start)" where
  "sas_begin env p alias evidence tls now_ns = (case co_state p of
     CoPending _ \<Rightarrow> (p, Err SePairingInProgress)
   | CoAccepted _ \<Rightarrow> (p, Err SeClosed)
   | CoClosed \<Rightarrow> (p, Err SeClosed)
   | CoIdle \<Rightarrow>
     if \<not> is_ok (evidence_validate evidence) then close_with p SeInvalidEvidence
     else case pe_load_or_create_identity env (co_store p) of
         (st1, Inl _) \<Rightarrow> close_with (p\<lparr>co_store := st1\<rparr>) SeStoreFailure
       | (st1, Inr identity) \<Rightarrow>
     if ev_local_fingerprint evidence \<noteq> identity \<or> tls \<noteq> ev_peer_fingerprint evidence
         \<or> ev_expires_at_ns evidence \<le> now_ns
         \<or> ev_expires_at_ns evidence - now_ns > MAX_SAS_PAIRING_TTL_NS
       then close_with (p\<lparr>co_store := st1\<rparr>) SeInvalidEvidence
     else case pe_load_peer_pin env st1 alias of
         (st2, Inl _) \<Rightarrow> close_with (p\<lparr>co_store := st2\<rparr>) SeStoreFailure
       | (st2, Inr selected_pin) \<Rightarrow>
     (let p2 = p\<lparr>co_store := st2\<rparr> in
      case peer_pin_from_fingerprint tls of
         Inl _ \<Rightarrow> close_with p2 SeInvalidEvidence
       | Inr peer_pin \<Rightarrow>
      (case selected_pin of
         Some selected \<Rightarrow>
           if selected \<noteq> peer_pin then close_with p2 SePeerPinMismatch
           else let accepted = accepted_from_evidence evidence identity peer_pin
             in (p2\<lparr>co_state := CoAccepted accepted\<rparr>, Ok (StartAccepted accepted))
       | None \<Rightarrow>
           let sas = sas_from_evidence env evidence in
           (p2\<lparr>co_state := CoPending \<lparr>ps_alias = alias, ps_evidence = evidence,
               ps_local_identity = identity, ps_peer_pin = peer_pin,
               ps_expected_sas_commitment = sas_commitment env sas,
               ps_local_approved = False, ps_peer_acknowledged = False,
               ps_attempts_remaining = DEFAULT_MAX_SAS_ATTEMPTS\<rparr>\<rparr>,
            Ok (AwaitingSas evidence sas)))))"

text \<open>\<open>pending_mut\<close>: the pending attempt, or why there is none; an expired attempt is closed.\<close>

definition pending_mut :: "'s pairing_coordinator \<Rightarrow> u64
    \<Rightarrow> 's pairing_coordinator \<times> (sas_error + pending_sas)" where
  "pending_mut p now_ns = (case co_state p of
     CoPending pending \<Rightarrow>
       if ev_expires_at_ns (ps_evidence pending) \<le> now_ns
       then (p\<lparr>co_state := CoClosed\<rparr>, Err SeExpired) else (p, Ok pending)
   | CoIdle \<Rightarrow> (p, Err SeInvalidEvidence)
   | CoAccepted _ \<Rightarrow> (p, Err SeClosed)
   | CoClosed \<Rightarrow> (p, Err SeClosed))"

definition progress_or_accept :: "'s pairing_env \<Rightarrow> 's pairing_coordinator
    \<Rightarrow> 's pairing_coordinator \<times> (sas_error + pairing_progress)" where
  "progress_or_accept env p = (case co_state p of
     CoPending pending \<Rightarrow>
       if \<not> ps_local_approved pending then (p, Ok AwaitingLocalApproval)
       else if \<not> ps_peer_acknowledged pending then (p, Ok AwaitingPeerAcknowledgement)
       else case pe_store_peer_pin env (co_store p) (ps_alias pending) (ps_peer_pin pending) of
           (st, Inl _) \<Rightarrow> close_with (p\<lparr>co_store := st\<rparr>) SeStoreFailure
         | (st, Inr _) \<Rightarrow>
             let accepted = accepted_from_evidence (ps_evidence pending)
                   (ps_local_identity pending) (ps_peer_pin pending)
             in (p\<lparr>co_store := st, co_state := CoAccepted accepted\<rparr>, Ok (ProgressAccepted accepted))
   | _ \<Rightarrow> (p, Err SeClosed))"

definition confirm_local :: "'s pairing_env \<Rightarrow> 's pairing_coordinator \<Rightarrow> u64
    \<Rightarrow> 's pairing_coordinator \<times> (sas_error + pairing_progress)" where
  "confirm_local env p now_ns = (case pending_mut p now_ns of
     (p', Inl e) \<Rightarrow> (p', Err e)
   | (p', Inr pending) \<Rightarrow>
       progress_or_accept env (p'\<lparr>co_state := CoPending (pending\<lparr>ps_local_approved := True\<rparr>)\<rparr>))"

definition confirm_peer :: "'s pairing_env \<Rightarrow> 's pairing_coordinator \<Rightarrow> bytes \<Rightarrow> u64
    \<Rightarrow> 's pairing_coordinator \<times> (sas_error + pairing_progress)" where
  "confirm_peer env p sas now_ns = (case pending_mut p now_ns of
     (p', Inl e) \<Rightarrow> (p', Err e)
   | (p', Inr pending) \<Rightarrow>
       if pe_ct_eq env (sas_commitment env sas) (ps_expected_sas_commitment pending)
       then progress_or_accept env
              (p'\<lparr>co_state := CoPending (pending\<lparr>ps_peer_acknowledged := True\<rparr>)\<rparr>)
       else
         let remaining = saturating_sub (ps_attempts_remaining pending) 1 in
         if remaining = 0 then (p'\<lparr>co_state := CoClosed\<rparr>, Err SeSasAttemptsExceeded)
         else (p'\<lparr>co_state := CoPending (pending\<lparr>ps_attempts_remaining := remaining\<rparr>)\<rparr>,
               Err SeSasMismatch))"

definition co_accepted_session :: "'s pairing_coordinator \<Rightarrow> accepted_session option" where
  "co_accepted_session p = (case co_state p of CoAccepted s \<Rightarrow> Some s | _ \<Rightarrow> None)"

definition co_status :: "'s pairing_coordinator \<Rightarrow> pairing_status" where
  "co_status p = (case co_state p of
     CoIdle \<Rightarrow> StatusIdle
   | CoPending pending \<Rightarrow> StatusPending (ps_attempts_remaining pending)
   | CoAccepted _ \<Rightarrow> StatusAccepted
   | CoClosed \<Rightarrow> StatusClosed)"

section \<open>Histories of calls\<close>

datatype sas_cmd =
  SasBegin bytes pairing_evidence bytes u64
| ConfirmLocal u64
| ConfirmPeer bytes u64

datatype sas_reply =
  SasStart "sas_error + pairing_start"
| SasProgress "sas_error + pairing_progress"

fun sas_step :: "'s pairing_env \<Rightarrow> 's pairing_coordinator \<Rightarrow> sas_cmd \<Rightarrow> 's pairing_coordinator \<times> sas_reply" where
  "sas_step env p (SasBegin alias ev tls now) = map_prod id SasStart (sas_begin env p alias ev tls now)"
| "sas_step env p (ConfirmLocal now) = map_prod id SasProgress (confirm_local env p now)"
| "sas_step env p (ConfirmPeer sas now) = map_prod id SasProgress (confirm_peer env p sas now)"

section \<open>The coordinator is explained by its history\<close>

type_synonym sas_event = "sas_cmd \<times> sas_reply"

fun sas_refused :: "sas_event \<Rightarrow> bool" where
  "sas_refused (ConfirmPeer _ _, SasProgress (Inl e)) \<longleftrightarrow> e = SeSasMismatch \<or> e = SeSasAttemptsExceeded"
| "sas_refused _ \<longleftrightarrow> False"

definition mismatches :: "sas_event list \<Rightarrow> nat" where
  "mismatches tr = length (filter sas_refused tr)"

text \<open>The call that opened a pairing on evidence \<open>ev\<close>, which named the authenticated peer.\<close>

definition begun :: "'s pairing_env \<Rightarrow> bytes \<Rightarrow> pairing_evidence \<Rightarrow> u64 \<Rightarrow> sas_event" where
  "begun env alias ev t0 = (SasBegin alias ev (ev_peer_fingerprint ev) t0,
     SasStart (Ok (AwaitingSas ev (sas_from_evidence env ev))))"

definition fresh_evidence :: "pairing_evidence \<Rightarrow> u64 \<Rightarrow> bool" where
  "fresh_evidence ev t0 \<longleftrightarrow> is_ok (evidence_validate ev) \<and> t0 < ev_expires_at_ns ev
     \<and> ev_expires_at_ns ev - t0 \<le> MAX_SAS_PAIRING_TTL_NS"

definition local_confirmed :: "'s pairing_env \<Rightarrow> sas_event list \<Rightarrow> bytes \<Rightarrow> pairing_evidence \<Rightarrow> u64 \<Rightarrow> bool" where
  "local_confirmed env tr alias ev t0 \<longleftrightarrow> (\<exists>t g. t < ev_expires_at_ns ev
     \<and> subseq [begun env alias ev t0, (ConfirmLocal t, SasProgress (Ok g))] tr)"

definition peer_confirmed :: "'s pairing_env \<Rightarrow> sas_event list \<Rightarrow> bytes \<Rightarrow> pairing_evidence \<Rightarrow> u64 \<Rightarrow> bool" where
  "peer_confirmed env tr alias ev t0 \<longleftrightarrow> (\<exists>sas t g. t < ev_expires_at_ns ev
     \<and> sas_commitment env sas = sas_commitment env (sas_from_evidence env ev)
     \<and> subseq [begun env alias ev t0, (ConfirmPeer sas t, SasProgress (Ok g))] tr)"

definition pending_explained :: "'s pairing_env \<Rightarrow> sas_event list \<Rightarrow> pending_sas \<Rightarrow> bool" where
  "pending_explained env tr w \<longleftrightarrow> (\<exists>t0.
     subseq [begun env (ps_alias w) (ps_evidence w) t0] tr \<and> fresh_evidence (ps_evidence w) t0
     \<and> (ps_local_approved w \<longrightarrow> local_confirmed env tr (ps_alias w) (ps_evidence w) t0)
     \<and> (ps_peer_acknowledged w \<longrightarrow> peer_confirmed env tr (ps_alias w) (ps_evidence w) t0))
     \<and> ps_local_identity w = ev_local_fingerprint (ps_evidence w)
     \<and> ps_peer_pin w = ev_peer_fingerprint (ps_evidence w)
     \<and> ps_expected_sas_commitment w = sas_commitment env (sas_from_evidence env (ps_evidence w))
     \<and> 0 < ps_attempts_remaining w \<and> unat (ps_attempts_remaining w) + mismatches tr = 3"

text \<open>The replies that hand out an accepted session.\<close>

fun accepts :: "sas_reply \<Rightarrow> accepted_session \<Rightarrow> bool" where
  "accepts (SasStart (Inr (StartAccepted t))) s \<longleftrightarrow> t = s"
| "accepts (SasProgress (Inr (ProgressAccepted t))) s \<longleftrightarrow> t = s"
| "accepts _ s \<longleftrightarrow> False"

fun co_explained :: "'s pairing_env \<Rightarrow> sas_event list \<Rightarrow> coordinator_state \<Rightarrow> bool" where
  "co_explained env tr CoIdle \<longleftrightarrow> mismatches tr = 0"
| "co_explained env tr (CoPending w) \<longleftrightarrow> pending_explained env tr w"
| "co_explained env tr (CoAccepted s) \<longleftrightarrow> (\<exists>c r. (c, r) \<in> set tr \<and> accepts r s) \<and> mismatches tr < 3"
| "co_explained env tr CoClosed \<longleftrightarrow> mismatches tr \<le> 3"

lemma mismatches_snoc [simp]:
  "mismatches (tr @ [e]) = mismatches tr + (if sas_refused e then 1 else 0)"
  by (simp add: mismatches_def)

lemma sas_events_snoc:
  "local_confirmed env tr alias ev t0 \<Longrightarrow> local_confirmed env (tr @ [e]) alias ev t0"
  "peer_confirmed env tr alias ev t0 \<Longrightarrow> peer_confirmed env (tr @ [e]) alias ev t0"
  unfolding local_confirmed_def peer_confirmed_def by (blast intro: subseq_snoc_mono)+

lemma pending_explained_snoc:
  "pending_explained env tr w \<Longrightarrow> \<not> sas_refused e \<Longrightarrow> pending_explained env (tr @ [e]) w"
  unfolding pending_explained_def by (auto intro: sas_events_snoc subseq_snoc_mono)

lemma co_explained_snoc:
  "co_explained env tr c \<Longrightarrow> \<not> sas_refused e \<Longrightarrow> co_explained env (tr @ [e]) c"
  by (cases c) (auto simp: pending_explained_snoc)

lemma pending_explained_attempts: "pending_explained env tr w \<Longrightarrow> mismatches tr < 3"
  by (auto simp: pending_explained_def word_less_nat_alt)

text \<open>Opening a pairing.\<close>

lemma sas_begin_explained:
  assumes "co_explained env tr (co_state p)"
  shows "co_explained env (tr @ [(SasBegin alias ev tls now, SasStart (snd (sas_begin env p alias ev tls now)))])
    (co_state (fst (sas_begin env p alias ev tls now)))"
proof (cases "co_state p = CoIdle")
  case False
  then have "co_state (fst (sas_begin env p alias ev tls now)) = co_state p"
    by (cases "co_state p") (simp_all add: sas_begin_def)
  with assms show ?thesis
    by (simp add: co_explained_snoc)
next
  case True
  then have none: "mismatches tr = 0"
    using assms by simp
  obtain st1 r1 where l: "pe_load_or_create_identity env (co_store p) = (st1, r1)" by fastforce
  obtain st2 r2 where k: "pe_load_peer_pin env st1 alias = (st2, r2)" by fastforce
  show ?thesis
  proof (cases "\<exists>identity selected. r1 = Ok identity \<and> r2 = Ok selected
      \<and> is_ok (evidence_validate ev) \<and> \<not> (ev_local_fingerprint ev \<noteq> identity
      \<or> tls \<noteq> ev_peer_fingerprint ev \<or> ev_expires_at_ns ev \<le> now
      \<or> ev_expires_at_ns ev - now > MAX_SAS_PAIRING_TTL_NS) \<and> \<not> all_zero tls
      \<and> (selected = None \<or> selected = Some tls)")
    case False
    then have "co_state (fst (sas_begin env p alias ev tls now)) = CoClosed"
      using True l k
      by (cases r1; cases r2) (auto simp: sas_begin_def close_with_def peer_pin_from_fingerprint_def
          Let_def split: option.split)
    then show ?thesis
      using none by simp
  next
    case True
    then obtain selected where g: "r1 = Ok (ev_local_fingerprint ev)" "r2 = Ok selected"
      "is_ok (evidence_validate ev)" "tls = ev_peer_fingerprint ev" "\<not> ev_expires_at_ns ev \<le> now"
      "\<not> ev_expires_at_ns ev - now > MAX_SAS_PAIRING_TTL_NS" "\<not> all_zero tls"
      and sel: "selected = None \<or> selected = Some tls"
      by blast
    have fresh: "fresh_evidence ev now"
      using g by (simp add: fresh_evidence_def not_le not_less)
    show ?thesis
    proof (cases selected)
      case None
      then have e: "sas_begin env p alias ev tls now =
        (p\<lparr>co_store := st2, co_state := CoPending \<lparr>ps_alias = alias, ps_evidence = ev,
               ps_local_identity = ev_local_fingerprint ev, ps_peer_pin = tls,
               ps_expected_sas_commitment = sas_commitment env (sas_from_evidence env ev),
               ps_local_approved = False, ps_peer_acknowledged = False,
               ps_attempts_remaining = DEFAULT_MAX_SAS_ATTEMPTS\<rparr>\<rparr>,
         Ok (AwaitingSas ev (sas_from_evidence env ev)))"
        using g l k \<open>co_state p = CoIdle\<close>
        by (simp add: sas_begin_def peer_pin_from_fingerprint_def Let_def)
      have "subseq [begun env alias ev now]
        (tr @ [(SasBegin alias ev tls now, SasStart (snd (sas_begin env p alias ev tls now)))])"
        unfolding e begun_def by (simp flip: g(4))
      then show ?thesis
        unfolding e using g(4) fresh none
        by (auto simp: pending_explained_def DEFAULT_MAX_SAS_ATTEMPTS_def)
    next
      case (Some sp)
      define acc where "acc = accepted_from_evidence ev (ev_local_fingerprint ev) tls"
      have e: "sas_begin env p alias ev tls now =
        (p\<lparr>co_store := st2, co_state := CoAccepted acc\<rparr>, Ok (StartAccepted acc))"
        using g l k sel Some \<open>co_state p = CoIdle\<close>
        by (simp add: sas_begin_def peer_pin_from_fingerprint_def acc_def Let_def)
      then show ?thesis
        using none by (auto intro!: exI [of _ "SasBegin alias ev tls now"] exI [of _ "SasStart (Ok (StartAccepted acc))"])
    qed
  qed
qed

text \<open>Confirming it.\<close>

lemma pending_mut_cases:
  assumes "pending_mut p now = (p', r)"
  shows "(\<exists>w. r = Ok w \<and> p' = p \<and> co_state p = CoPending w \<and> now < ev_expires_at_ns (ps_evidence w))
    \<or> (\<exists>e. r = Err e \<and> e \<noteq> SeSasMismatch \<and> e \<noteq> SeSasAttemptsExceeded
        \<and> (co_state p' = co_state p \<or> (\<exists>w. co_state p = CoPending w) \<and> co_state p' = CoClosed))"
  using assms by (auto simp: pending_mut_def split: coordinator_state.splits if_splits)

lemma progress_cases:
  assumes "co_state p = CoPending w"
  obtains (waiting) g where "progress_or_accept env p = (p, Ok g)" "\<And>s. \<not> accepts (SasProgress (Ok g)) s"
  | (failed) st where "progress_or_accept env p = (p\<lparr>co_store := st, co_state := CoClosed\<rparr>, Err SeStoreFailure)"
  | (accepted) st t where "ps_local_approved w" "ps_peer_acknowledged w"
      "pe_store_peer_pin env (co_store p) (ps_alias w) (ps_peer_pin w) = (st, Ok ())"
      "t = accepted_from_evidence (ps_evidence w) (ps_local_identity w) (ps_peer_pin w)"
      "progress_or_accept env p = (p\<lparr>co_store := st, co_state := CoAccepted t\<rparr>, Ok (ProgressAccepted t))"
proof -
  obtain st r where s: "pe_store_peer_pin env (co_store p) (ps_alias w) (ps_peer_pin w) = (st, r)"
    by fastforce
  show thesis
  proof (cases "ps_local_approved w \<and> ps_peer_acknowledged w")
    case False
    then show thesis
      using assms waiting by (cases "ps_local_approved w") (auto simp: progress_or_accept_def)
  next
    case True
    then show thesis
      using assms s failed accepted by (cases r) (auto simp: progress_or_accept_def close_with_def Let_def)
  qed
qed

lemma pending_local_confirmed:
  assumes "pending_explained env tr w" and "now < ev_expires_at_ns (ps_evidence w)"
  shows "pending_explained env (tr @ [(ConfirmLocal now, SasProgress (Ok g))]) (w\<lparr>ps_local_approved := True\<rparr>)"
proof -
  let ?e = "(ConfirmLocal now, SasProgress (Ok g))"
  obtain t0 where t0: "subseq [begun env (ps_alias w) (ps_evidence w) t0] tr"
    "fresh_evidence (ps_evidence w) t0"
    "ps_peer_acknowledged w \<longrightarrow> peer_confirmed env tr (ps_alias w) (ps_evidence w) t0"
    using assms(1) unfolding pending_explained_def by blast
  have "local_confirmed env (tr @ [?e]) (ps_alias w) (ps_evidence w) t0"
    unfolding local_confirmed_def using subseq_snoc [OF t0(1), of ?e] assms(2) by auto
  with assms(1) t0 show ?thesis
    unfolding pending_explained_def by (auto intro: sas_events_snoc subseq_snoc_mono)
qed

lemma pending_peer_confirmed:
  assumes "pending_explained env tr w" and "now < ev_expires_at_ns (ps_evidence w)"
    and "sas_commitment env sas = ps_expected_sas_commitment w"
  shows "pending_explained env (tr @ [(ConfirmPeer sas now, SasProgress (Ok g))]) (w\<lparr>ps_peer_acknowledged := True\<rparr>)"
proof -
  let ?e = "(ConfirmPeer sas now, SasProgress (Ok g))"
  obtain t0 where t0: "subseq [begun env (ps_alias w) (ps_evidence w) t0] tr"
    "fresh_evidence (ps_evidence w) t0"
    "ps_local_approved w \<longrightarrow> local_confirmed env tr (ps_alias w) (ps_evidence w) t0"
    using assms(1) unfolding pending_explained_def by blast
  have "sas_commitment env sas = sas_commitment env (sas_from_evidence env (ps_evidence w))"
    using assms(1,3) by (simp add: pending_explained_def)
  then have "peer_confirmed env (tr @ [?e]) (ps_alias w) (ps_evidence w) t0"
    unfolding peer_confirmed_def using subseq_snoc [OF t0(1), of ?e] assms(2) by auto
  with assms(1) t0 show ?thesis
    unfolding pending_explained_def by (auto intro: sas_events_snoc subseq_snoc_mono)
qed

lemma progress_explained:
  assumes "co_state p = CoPending w" and "mismatches tr < 3"
    and "\<And>g. pending_explained env (tr @ [(c, SasProgress (Ok g))]) w"
  shows "co_explained env (tr @ [(c, SasProgress (snd (progress_or_accept env p)))])
    (co_state (fst (progress_or_accept env p)))"
  using assms(1)
proof (cases rule: progress_cases [where env = env])
  case (waiting g)
  then show ?thesis using assms by simp
next
  case (failed st)
  have "\<not> sas_refused (c, SasProgress (Err SeStoreFailure))" by (cases c) simp_all
  with failed show ?thesis using assms(2) by simp
next
  case (accepted st t)
  have "\<not> sas_refused (c, SasProgress (Ok (ProgressAccepted t)))" by (cases c) simp_all
  then show ?thesis
    using assms(2) accepted(5)
    by (auto intro!: exI [of _ c] exI [of _ "SasProgress (Ok (ProgressAccepted t))"])
qed

lemma confirm_local_explained:
  assumes "co_explained env tr (co_state p)"
  shows "co_explained env (tr @ [(ConfirmLocal now, SasProgress (snd (confirm_local env p now)))])
    (co_state (fst (confirm_local env p now)))"
proof -
  obtain p' r where e: "pending_mut p now = (p', r)" by fastforce
  consider (ok) w where "r = Ok w" "p' = p" "co_state p = CoPending w"
      "now < ev_expires_at_ns (ps_evidence w)"
    | (err) err where "r = Err err" "co_state p' = co_state p
        \<or> (\<exists>w. co_state p = CoPending w) \<and> co_state p' = CoClosed"
    using pending_mut_cases [OF e] by blast
  then show ?thesis
  proof cases
    case ok
    let ?w = "w\<lparr>ps_local_approved := True\<rparr>"
    have w: "pending_explained env tr w"
      using assms ok by simp
    have c: "confirm_local env p now = progress_or_accept env (p\<lparr>co_state := CoPending ?w\<rparr>)"
      using e ok by (simp add: confirm_local_def)
    show ?thesis
      unfolding c
      by (rule progress_explained [OF _ pending_explained_attempts [OF w] pending_local_confirmed [OF w ok(4)]]) simp
  next
    case err
    then show ?thesis
      using e assms
      by (auto simp: confirm_local_def intro: co_explained_snoc dest!: pending_explained_attempts)
  qed
qed

lemma confirm_peer_explained:
  assumes "co_explained env tr (co_state p)" and eq: "ct_eq_sound env"
  shows "co_explained env (tr @ [(ConfirmPeer sas now, SasProgress (snd (confirm_peer env p sas now)))])
    (co_state (fst (confirm_peer env p sas now)))"
proof -
  let ?e = "(ConfirmPeer sas now, SasProgress (snd (confirm_peer env p sas now)))"
  obtain p' r where e: "pending_mut p now = (p', r)" by fastforce
  consider (ok) w where "r = Ok w" "p' = p" "co_state p = CoPending w"
      "now < ev_expires_at_ns (ps_evidence w)"
    | (err) err where "r = Err err" "err \<noteq> SeSasMismatch" "err \<noteq> SeSasAttemptsExceeded"
      "co_state p' = co_state p \<or> (\<exists>w. co_state p = CoPending w) \<and> co_state p' = CoClosed"
    using pending_mut_cases [OF e] by blast
  then show ?thesis
  proof cases
    case ok
    have w: "pending_explained env tr w"
      using assms ok by simp
    show ?thesis
    proof (cases "sas_commitment env sas = ps_expected_sas_commitment w")
      case True
      let ?w = "w\<lparr>ps_peer_acknowledged := True\<rparr>"
      have c: "confirm_peer env p sas now = progress_or_accept env (p\<lparr>co_state := CoPending ?w\<rparr>)"
        using e ok True eq by (simp add: confirm_peer_def ct_eq_sound_def)
      show ?thesis
        unfolding c
        by (rule progress_explained [OF _ pending_explained_attempts [OF w] pending_peer_confirmed [OF w ok(4) True]]) simp
    next
      case False
      let ?rem = "saturating_sub (ps_attempts_remaining w) 1"
      have rem: "unat ?rem = unat (ps_attempts_remaining w) - 1" "0 < unat (ps_attempts_remaining w)"
        "unat (ps_attempts_remaining w) + mismatches tr = 3"
        using w by (auto simp: unat_saturating_sub pending_explained_def word_less_nat_alt)
      show ?thesis
      proof (cases "?rem = 0")
        case True
        then have "confirm_peer env p sas now = (p\<lparr>co_state := CoClosed\<rparr>, Err SeSasAttemptsExceeded)"
          using e ok False eq by (simp add: confirm_peer_def ct_eq_sound_def)
        then show ?thesis
          using rem by simp
      next
        case left: False
        have c: "confirm_peer env p sas now =
          (p\<lparr>co_state := CoPending (w\<lparr>ps_attempts_remaining := ?rem\<rparr>)\<rparr>, Err SeSasMismatch)"
          using e ok left False eq by (simp add: confirm_peer_def ct_eq_sound_def)
        then show ?thesis
          using w rem left unfolding pending_explained_def
          by (auto simp: c pending_explained_def word_less_nat_alt word_neq_0_conv
              intro: sas_events_snoc subseq_snoc_mono)
      qed
    qed
  next
    case err
    then have "\<not> sas_refused ?e"
      using e by (simp add: confirm_peer_def)
    then show ?thesis
      using err e assms
      by (auto simp: confirm_peer_def intro: co_explained_snoc dest!: pending_explained_attempts)
  qed
qed

interpretation sas: recorded_machine "sas_step env" "\<lambda>_. ct_eq_sound env"
  "\<lambda>tr p. co_explained env tr (co_state p)" for env
proof
  show "co_explained env (tr @ [(c, snd (sas_step env p c))]) (co_state (fst (sas_step env p c)))"
    if "ct_eq_sound env" and "co_explained env tr (co_state p)" for tr c and p :: "'a pairing_coordinator"
    using that sas_begin_explained confirm_local_explained confirm_peer_explained by (cases c) auto
qed

section \<open>The call that accepts\<close>

text \<open>
  A call on coordinator \<open>p\<close> accepts a session in one of two ways. Either it is a \<open>begin\<close> during
  which the store returned the peer authenticated by TLS as the pin of the alias, or it is the second
  of the two confirmations, during which the store took the peer as the new pin. The store is asked
  in the state it has in this call.
\<close>

definition recognised_at :: "'s pairing_env \<Rightarrow> 's pairing_coordinator \<Rightarrow> sas_cmd \<Rightarrow> accepted_session \<Rightarrow> bool" where
  "recognised_at env p c s \<longleftrightarrow> (\<exists>alias ev t0 st1 st2. c = SasBegin alias ev (ev_peer_fingerprint ev) t0
     \<and> co_state p = CoIdle \<and> fresh_evidence ev t0
     \<and> pe_load_or_create_identity env (co_store p) = (st1, Ok (ev_local_fingerprint ev))
     \<and> pe_load_peer_pin env st1 alias = (st2, Ok (Some (ev_peer_fingerprint ev)))
     \<and> s = accepted_from_evidence ev (ev_local_fingerprint ev) (ev_peer_fingerprint ev)
     \<and> snd (sas_step env p c) = SasStart (Ok (StartAccepted s)))"

definition confirmed_at :: "'s pairing_env \<Rightarrow> 's pairing_coordinator \<Rightarrow> sas_event list \<Rightarrow> sas_cmd
    \<Rightarrow> accepted_session \<Rightarrow> bool" where
  "confirmed_at env p tr c s \<longleftrightarrow> (\<exists>alias ev t0 st. fresh_evidence ev t0
     \<and> local_confirmed env (tr @ [(c, snd (sas_step env p c))]) alias ev t0
     \<and> peer_confirmed env (tr @ [(c, snd (sas_step env p c))]) alias ev t0 \<and> mismatches tr < 3
     \<and> pe_store_peer_pin env (co_store p) alias (ev_peer_fingerprint ev) = (st, Ok ())
     \<and> s = accepted_from_evidence ev (ev_local_fingerprint ev) (ev_peer_fingerprint ev)
     \<and> snd (sas_step env p c) = SasProgress (Ok (ProgressAccepted s)))"

definition accepted_explained :: "'s pairing_env \<Rightarrow> 's pairing_coordinator \<Rightarrow> sas_cmd list
    \<Rightarrow> accepted_session \<Rightarrow> bool" where
  "accepted_explained env p0 cs s \<longleftrightarrow> (\<exists>before c after. cs = before @ c # after
     \<and> (let p = fst (run (sas_step env) p0 before) in
        recognised_at env p c s \<or> confirmed_at env p (trace (sas_step env) p0 before) c s))"

lemma begin_accepts:
  assumes "snd (sas_begin env p alias ev tls now) = Ok (StartAccepted s)"
  shows "recognised_at env p (SasBegin alias ev tls now) s"
proof -
  obtain st1 r1 where l: "pe_load_or_create_identity env (co_store p) = (st1, r1)" by fastforce
  obtain st2 r2 where k: "pe_load_peer_pin env st1 alias = (st2, r2)" by fastforce
  have idle: "co_state p = CoIdle"
    using assms by (cases "co_state p") (simp_all add: sas_begin_def)
  have g: "is_ok (evidence_validate ev)" "r1 = Ok (ev_local_fingerprint ev)" "tls = ev_peer_fingerprint ev"
      "\<not> ev_expires_at_ns ev \<le> now" "\<not> ev_expires_at_ns ev - now > MAX_SAS_PAIRING_TTL_NS"
    using assms idle l
    by (cases r1; auto simp: sas_begin_def close_with_def split: if_splits)+
  note call = assms [unfolded sas_begin_def idle coordinator_state.case l prod.case g(2) sum.case k]
  have "r2 = Ok (Some tls)" "s = accepted_from_evidence ev (ev_local_fingerprint ev) tls"
    using call g
    by (cases r2; auto simp: close_with_def peer_pin_from_fingerprint_def Let_def
        split: if_splits option.splits)+
  then show ?thesis
    unfolding recognised_at_def using idle g l k assms
    by (auto simp: fresh_evidence_def not_le not_less)
qed

lemma progress_confirmed_at:
  assumes "co_state q = CoPending w" "co_store q = co_store p"
    and step: "snd (sas_step env p c) = SasProgress (snd (progress_or_accept env q))"
    and acc: "accepts (snd (sas_step env p c)) s"
    and few: "mismatches tr < 3" and w: "\<And>g. pending_explained env (tr @ [(c, SasProgress (Ok g))]) w"
  shows "confirmed_at env p tr c s"
  using assms(1)
proof (cases rule: progress_cases [where env = env])
  case (accepted st t)
  then have r: "snd (sas_step env p c) = SasProgress (Ok (ProgressAccepted t))" and "t = s"
    using step acc by simp_all
  moreover obtain t0 where "fresh_evidence (ps_evidence w) t0"
    "local_confirmed env (tr @ [(c, snd (sas_step env p c))]) (ps_alias w) (ps_evidence w) t0"
    "peer_confirmed env (tr @ [(c, snd (sas_step env p c))]) (ps_alias w) (ps_evidence w) t0"
    using w [of "ProgressAccepted t"] accepted(1,2) unfolding r pending_explained_def by blast
  moreover have "ps_local_identity w = ev_local_fingerprint (ps_evidence w)"
    "ps_peer_pin w = ev_peer_fingerprint (ps_evidence w)"
    using w [of "ProgressAccepted t"] by (simp_all add: pending_explained_def)
  ultimately show ?thesis
    unfolding confirmed_at_def using few accepted(3,4) assms(2) by metis
qed (use step acc in simp_all)

lemma accepting_call:
  assumes eq: "ct_eq_sound env" and ex: "co_explained env tr (co_state p)"
    and acc: "accepts (snd (sas_step env p c)) s"
  shows "recognised_at env p c s \<or> confirmed_at env p tr c s"
proof (cases c)
  case (SasBegin a ev tls now)
  obtain p' r where b: "sas_begin env p a ev tls now = (p', r)" by fastforce
  have "r = Ok (StartAccepted s)"
    using acc SasBegin b by (cases "(SasStart r, s)" rule: accepts.cases) simp_all
  then show ?thesis
    using begin_accepts [of env p a ev tls now s] SasBegin b by simp
next
  case (ConfirmLocal now)
  obtain p' r where e: "pending_mut p now = (p', r)" by fastforce
  then obtain w where ok: "r = Ok w" "p' = p" "co_state p = CoPending w" "now < ev_expires_at_ns (ps_evidence w)"
    using pending_mut_cases [OF e] acc ConfirmLocal by (auto simp: confirm_local_def)
  have w: "pending_explained env tr w" using ex ok by simp
  show ?thesis
    by (rule disjI2, rule progress_confirmed_at [where q = "p\<lparr>co_state := CoPending (w\<lparr>ps_local_approved := True\<rparr>)\<rparr>"
          and w = "w\<lparr>ps_local_approved := True\<rparr>"])
      (use e ok acc ConfirmLocal pending_explained_attempts [OF w] pending_local_confirmed [OF w ok(4)]
        in \<open>simp_all add: confirm_local_def\<close>)
next
  case (ConfirmPeer sas now)
  obtain p' r where e: "pending_mut p now = (p', r)" by fastforce
  then obtain w where ok: "r = Ok w" "p' = p" "co_state p = CoPending w" "now < ev_expires_at_ns (ps_evidence w)"
    using pending_mut_cases [OF e] acc ConfirmPeer by (auto simp: confirm_peer_def)
  have w: "pending_explained env tr w" using ex ok by simp
  have same: "sas_commitment env sas = ps_expected_sas_commitment w"
    using acc ConfirmPeer e ok eq by (auto simp: confirm_peer_def ct_eq_sound_def Let_def split: if_splits)
  show ?thesis
    by (rule disjI2, rule progress_confirmed_at [where q = "p\<lparr>co_state := CoPending (w\<lparr>ps_peer_acknowledged := True\<rparr>)\<rparr>"
          and w = "w\<lparr>ps_peer_acknowledged := True\<rparr>"])
      (use e ok acc ConfirmPeer same eq pending_explained_attempts [OF w] pending_peer_confirmed [OF w ok(4) same]
        in \<open>simp_all add: confirm_peer_def ct_eq_sound_def\<close>)
qed

text \<open>An attempt that is over stays over.\<close>

definition co_over :: "'s pairing_coordinator \<Rightarrow> bool" where
  "co_over p \<longleftrightarrow> co_state p = CoClosed \<or> (\<exists>s. co_state p = CoAccepted s)"

lemma co_over_step: "co_over p \<Longrightarrow> co_state (fst (sas_step env p c)) = co_state p"
  by (cases c) (auto simp: co_over_def sas_begin_def confirm_local_def confirm_peer_def pending_mut_def)

interpretation over: machine_invariant "sas_step env" "\<lambda>p. co_over p \<and> co_state p = x" for env x
  by unfold_locales (auto simp: co_over_step, auto simp: co_over_def co_over_step)

section \<open>Codes\<close>

lemma ascii_digit_value:
  fixes v :: u32
  shows "ucast (ucast (v mod 10) :: u8) = v mod 10"
proof -
  have "unat (v mod 10) < 256"
    by (simp add: unat_mod)
  moreover from this have "unat (ucast (v mod 10) :: u8) = unat (v mod 10)"
    by (simp add: unsigned_ucast_eq take_bit_eq_mod)
  ultimately show ?thesis
    by (simp add: word_unat_eq_iff unat_ucast_up)
qed

lemma sas_value_digits: "unat v < 10 ^ n \<Longrightarrow> sas_value (sas_digits n v) = v"
proof (induction n v rule: sas_digits.induct)
  case (1 v)
  then show ?case by (simp add: sas_value_def unsigned_eq_0_iff)
next
  case (2 n v)
  then have "sas_value (sas_digits n (v div 10)) = v div 10"
    by (simp add: unat_div)
  then show ?case
    by (simp add: sas_value_def ascii_digit_value div_mult_mod_eq)
qed

lemma length_sas_digits [simp]: "length (sas_digits n v) = n"
  by (induction n v rule: sas_digits.induct) simp_all

definition wf_evidence :: "pairing_evidence \<Rightarrow> bool" where
  "wf_evidence ev \<longleftrightarrow> length (ev_local_fingerprint ev) = 32 \<and> length (ev_peer_fingerprint ev) = 32"

lemma to_be_bytes_inject [simp]:
  fixes a b :: "'a::len word"
  assumes "LENGTH('a) = 8 * (LENGTH('a) div 8)"
  shows "to_be_bytes a = to_be_bytes b \<longleftrightarrow> a = b"
  using from_be_to_be [OF assms] by metis

lemma canonical_bytes_inject:
  assumes "wf_evidence a" and "wf_evidence b" and "canonical_bytes a = canonical_bytes b"
  shows "a = b"
  using assms by (cases a, cases b) (auto simp: wf_evidence_def canonical_bytes_def)

section \<open>Honest pairings\<close>

text \<open>
  What an honest pairing needs of the identity store in its state \<open>st\<close>: it knows its identity, has no
  pin for the alias and can store one. The trait documents persistent storage: what was stored is
  what is loaded afterwards, and the identity stays.
\<close>

definition store_ready :: "'s pairing_env \<Rightarrow> 's \<Rightarrow> bytes \<Rightarrow> pairing_evidence \<Rightarrow> bool" where
  "store_ready env st alias ev \<longleftrightarrow> (\<exists>st1 st2 st3.
     pe_load_or_create_identity env st = (st1, Ok (ev_local_fingerprint ev))
     \<and> pe_load_peer_pin env st1 alias = (st2, Ok None)
     \<and> pe_store_peer_pin env st2 alias (ev_peer_fingerprint ev) = (st3, Ok ()))"

definition store_persistent :: "'s pairing_env \<Rightarrow> bool" where
  "store_persistent env \<longleftrightarrow>
     (\<forall>st alias pin st'. pe_store_peer_pin env st alias pin = (st', Ok ()) \<longrightarrow>
        snd (pe_load_peer_pin env st' alias) = Ok (Some pin)
        \<and> snd (pe_load_or_create_identity env st') = snd (pe_load_or_create_identity env st))
     \<and> (\<forall>st alias. snd (pe_load_or_create_identity env (fst (pe_load_peer_pin env st alias)))
          = snd (pe_load_or_create_identity env st))
     \<and> (\<forall>st alias. snd (pe_load_peer_pin env (fst (pe_load_or_create_identity env st)) alias)
          = snd (pe_load_peer_pin env st alias))
     \<and> (\<forall>st st' identity. pe_load_or_create_identity env st = (st', Ok identity) \<longrightarrow>
          snd (pe_load_or_create_identity env st') = Ok identity)"

lemma honest_pairing:
  assumes "ct_eq_sound env" and "fresh_evidence ev t0"
    and "pe_load_or_create_identity env st = (st1, Ok (ev_local_fingerprint ev))"
    and "pe_load_peer_pin env st1 alias = (st2, Ok None)"
    and "pe_store_peer_pin env st2 alias (ev_peer_fingerprint ev) = (st3, Ok ())"
    and "t1 < ev_expires_at_ns ev" and "t2 < ev_expires_at_ns ev"
    and "confirmations = [ConfirmLocal t1, ConfirmPeer (sas_from_evidence env ev) t2]
       \<or> confirmations = [ConfirmPeer (sas_from_evidence env ev) t2, ConfirmLocal t1]"
  shows "fst (run (sas_step env) (new_coordinator st)
      (SasBegin alias ev (ev_peer_fingerprint ev) t0 # confirmations))
    = \<lparr>co_store = st3, co_state = CoAccepted (accepted_from_evidence ev (ev_local_fingerprint ev) (ev_peer_fingerprint ev))\<rparr>"
proof -
  let ?w = "\<lparr>ps_alias = alias, ps_evidence = ev,
     ps_local_identity = ev_local_fingerprint ev, ps_peer_pin = ev_peer_fingerprint ev,
     ps_expected_sas_commitment = sas_commitment env (sas_from_evidence env ev),
     ps_local_approved = False, ps_peer_acknowledged = False,
     ps_attempts_remaining = DEFAULT_MAX_SAS_ATTEMPTS\<rparr>"
  have "\<not> all_zero (ev_peer_fingerprint ev)"
    using assms(2) by (auto simp: fresh_evidence_def evidence_validate_def split: if_splits)
  then have "fst (sas_begin env (new_coordinator st) alias ev (ev_peer_fingerprint ev) t0)
      = \<lparr>co_store = st2, co_state = CoPending ?w\<rparr>"
    using assms(2-4)
    by (simp add: sas_begin_def new_coordinator_def fresh_evidence_def peer_pin_from_fingerprint_def
        Let_def not_le [symmetric])
  then show ?thesis
    using assms(1,5-8)
    by (auto simp: confirm_local_def confirm_peer_def pending_mut_def progress_or_accept_def
        ct_eq_sound_def Let_def not_le [symmetric])
qed

lemma recognised_begin:
  assumes "fresh_evidence ev t0"
    and "snd (pe_load_or_create_identity env st) = Ok (ev_local_fingerprint ev)"
    and "snd (pe_load_peer_pin env (fst (pe_load_or_create_identity env st)) alias) = Ok (Some (ev_peer_fingerprint ev))"
  shows "snd (sas_begin env (new_coordinator st) alias ev (ev_peer_fingerprint ev) t0)
    = Ok (StartAccepted (accepted_from_evidence ev (ev_local_fingerprint ev) (ev_peer_fingerprint ev)))"
proof -
  have "\<not> all_zero (ev_peer_fingerprint ev)"
    using assms(1) by (auto simp: fresh_evidence_def evidence_validate_def split: if_splits)
  then show ?thesis
    using assms
    by (simp add: sas_begin_def new_coordinator_def fresh_evidence_def peer_pin_from_fingerprint_def
        Let_def not_le [symmetric] split_beta)
qed

text \<open>A concrete environment, with a store that remembers its pins, and an honest pairing in it.\<close>

definition sample_env :: "(bytes \<Rightarrow> bytes option) pairing_env" where
  "sample_env = \<lparr>pe_sha256 = (\<lambda>bs. bs), pe_ct_eq = (=), pe_load_or_create_identity = (\<lambda>st. (st, Ok [1])),
     pe_load_peer_pin = (\<lambda>st a. (st, Ok (st a))), pe_store_peer_pin = (\<lambda>st a p. (st(a := Some p), Ok ()))\<rparr>"

definition sample_evidence :: pairing_evidence where
  "sample_evidence = \<lparr>ev_session_id = 1, ev_local_fingerprint = [1], ev_peer_fingerprint = [2],
     ev_expires_at_ns = 100, ev_capabilities = 1\<rparr>"

abbreviation sample_confirmations :: "sas_cmd list" where
  "sample_confirmations \<equiv> [ConfirmPeer (sas_from_evidence sample_env sample_evidence) 30, ConfirmLocal 20]"

definition sample_history :: "sas_cmd list" where
  "sample_history = SasBegin [65] sample_evidence [2] 10 # sample_confirmations"

lemma sample_env_ok [simp]: "ct_eq_sound sample_env" "store_persistent sample_env"
  "st [65] = None \<Longrightarrow> store_ready sample_env st [65] sample_evidence"
  "fresh_evidence sample_evidence 10" "ev_peer_fingerprint sample_evidence = [2]"
  "ev_local_fingerprint sample_evidence = [1]" "ev_expires_at_ns sample_evidence = 100"
  by (auto simp: ct_eq_sound_def store_ready_def store_persistent_def fresh_evidence_def sample_env_def
      sample_evidence_def evidence_validate_def all_zero_def MAX_SAS_PAIRING_TTL_NS_def)

lemma sample_accepted:
  "fst (run (sas_step sample_env) (new_coordinator Map.empty) sample_history)
    = \<lparr>co_store = [[65] \<mapsto> [2]], co_state = CoAccepted (accepted_from_evidence sample_evidence [1] [2])\<rparr>"
  using honest_pairing [of sample_env sample_evidence 10 "Map.empty" "Map.empty" "[65]" "Map.empty" "[[65] \<mapsto> [2]]"
      20 30 sample_confirmations]
  by (simp add: sample_history_def del: run_Cons_fst) (simp add: sample_env_def del: run_Cons_fst)

section \<open>Properties\<close>

lemma new_coordinator_explained [simp]: "co_explained env [] (co_state (new_coordinator st))"
  by (simp add: new_coordinator_def mismatches_def)

text \<open>
  C6: a pairing is accepted only for the authenticated peer, by a stored pin or by both
  confirmations. Whatever calls are made and whatever the identity store answers: if the
  coordinator holds an accepted session, then one of the calls accepted exactly this session, for
  evidence that names its local identity and the peer authenticated by TLS and expires at most five
  minutes after \<open>begin\<close>. That call was either a \<open>begin\<close> on the idle coordinator, in which the store,
  asked at that moment, returned this peer as the pin of the alias. Or it completed the
  confirmations: after the \<open>begin\<close> that showed the code of this evidence both the local user confirmed
  and the peer presented a code with the same commitment, each successfully and before the expiry, with
  fewer than three wrong codes, and in that call the store took the peer as the alias's pin.
\<close>

theorem sas_accepted_only_confirmed:
  assumes "ct_eq_sound env"
    and "co_accepted_session (fst (run (sas_step env) (new_coordinator st) cs)) = Some s"
  shows "accepted_explained env (new_coordinator st) cs s"
proof -
  have "co_state (fst (run (sas_step env) (new_coordinator st) cs)) = CoAccepted s"
    using assms(2) by (simp add: co_accepted_session_def split: coordinator_state.splits)
  then obtain c r where "(c, r) \<in> set (trace (sas_step env) (new_coordinator st) cs)" and acc: "accepts r s"
    using sas.run_explained [OF assms(1) new_coordinator_explained, of st cs] by auto
  from this(1) show ?thesis
  proof (rule trace_memE)
    fix before after
    assume cs: "cs = before @ c # after"
      and r: "r = snd (sas_step env (fst (run (sas_step env) (new_coordinator st) before)) c)"
    show ?thesis
      unfolding accepted_explained_def Let_def
      using cs accepting_call [OF assms(1) sas.run_explained [OF assms(1) new_coordinator_explained] acc [unfolded r]]
      by blast
  qed
qed

theorem sas_accepted_only_confirmed_witness:
  "accepted_explained sample_env (new_coordinator Map.empty) sample_history
     (accepted_from_evidence sample_evidence [1] [2])"
  by (rule sas_accepted_only_confirmed) (simp_all add: sample_accepted co_accepted_session_def)

text \<open>
  C36: at most three wrong codes are ever tried. Along any history the peer's code is refused at most
  three times, after the third refusal the attempt is closed, and an attempt that was closed or
  accepted is unchanged by every later call.
\<close>

theorem sas_attempts_bounded:
  assumes "ct_eq_sound env" and "p = fst (run (sas_step env) (new_coordinator st) cs)"
    and "tr = trace (sas_step env) (new_coordinator st) cs"
  shows "mismatches tr \<le> 3 \<and> (mismatches tr = 3 \<longrightarrow> co_state p = CoClosed)
    \<and> (co_over p \<longrightarrow> co_state (fst (run (sas_step env) p later)) = co_state p)"
proof -
  have "co_explained env tr (co_state p)"
    using sas.run_explained [OF assms(1) new_coordinator_explained, of st cs] assms(2,3) by simp
  then have "mismatches tr \<le> 3 \<and> (mismatches tr = 3 \<longrightarrow> co_state p = CoClosed)"
    by (cases "co_state p") (auto dest!: pending_explained_attempts)
  moreover have "co_state (fst (run (sas_step env) p later)) = co_state p" if "co_over p"
    using over.run_inv [of p "co_state p" env later] that by blast
  ultimately show ?thesis
    by blast
qed

theorem sas_attempts_bounded_witness:
  "mismatches (trace (sas_step sample_env) (new_coordinator Map.empty) sample_history) \<le> 3
   \<and> co_state (fst (run (sas_step sample_env) (new_coordinator Map.empty) sample_history))
       = CoAccepted (accepted_from_evidence sample_evidence [1] [2])"
  using sas_attempts_bounded [OF sample_env_ok(1) refl refl] sample_accepted by auto

text \<open>
  The six-digit codes are exact: a value makes a code exactly when it is below one million, the
  code has six digits and reads back as the value, the code derived from evidence is always such a
  code, and evidence with 32-byte fingerprints is determined by the bytes the code is computed from.
\<close>

theorem sas_code_exact:
  "(sas_from_u32 v = Ok digits \<longleftrightarrow>
      unat v < 1000000 \<and> digits = sas_from_valid_value v \<and> length digits = 6 \<and> sas_value digits = v)
   \<and> (\<exists>w. sas_from_u32 w = Ok (sas_from_evidence env ev))
   \<and> inj_on canonical_bytes {ev. wf_evidence ev}"
proof -
  have *: "unat w < 1000000 \<longleftrightarrow> \<not> w \<ge> SAS_MODULUS" for w :: u32
    by (simp add: SAS_MODULUS_def word_le_nat_alt not_le)
  have "\<not> w mod SAS_MODULUS \<ge> SAS_MODULUS" for w :: u32
    by (simp add: SAS_MODULUS_def word_le_nat_alt unat_mod not_le)
  then have "\<exists>w. sas_from_u32 w = Ok (sas_from_evidence env ev)"
    unfolding sas_from_evidence_def sas_from_u32_def by (metis (full_types))
  then show ?thesis
    using canonical_bytes_inject * [of v] sas_value_digits [of v 6]
    by (auto simp: sas_from_u32_def sas_from_valid_value_def inj_on_def)
qed

text \<open>
  C30: an honest pairing completes and lasts. On an identity store that does not yet know the peer and
  takes its pin, after \<open>begin\<close> on fresh evidence the two confirmations, in either order and before the
  expiry, with the code shown by the prompt, end in the accepted session of this evidence. If the store
  is persistent, the next \<open>begin\<close> on it with this alias, for the same two devices and any fresh evidence,
  accepts at once and asks for no code.
\<close>

theorem sas_pairing_completes:
  assumes "ct_eq_sound env" and "store_ready env st alias ev" and "fresh_evidence ev t0"
    and "t1 < ev_expires_at_ns ev" and "t2 < ev_expires_at_ns ev"
    and "confirmations = [ConfirmLocal t1, ConfirmPeer (sas_from_evidence env ev) t2]
       \<or> confirmations = [ConfirmPeer (sas_from_evidence env ev) t2, ConfirmLocal t1]"
    and "p = fst (run (sas_step env) (new_coordinator st)
      (SasBegin alias ev (ev_peer_fingerprint ev) t0 # confirmations))"
  shows "co_accepted_session p
      = Some (accepted_from_evidence ev (ev_local_fingerprint ev) (ev_peer_fingerprint ev))
    \<and> (store_persistent env \<longrightarrow> (\<forall>ev' t0'. fresh_evidence ev' t0'
        \<and> ev_local_fingerprint ev' = ev_local_fingerprint ev \<and> ev_peer_fingerprint ev' = ev_peer_fingerprint ev
        \<longrightarrow> snd (sas_begin env (new_coordinator (co_store p)) alias ev' (ev_peer_fingerprint ev') t0')
          = Ok (StartAccepted (accepted_from_evidence ev' (ev_local_fingerprint ev') (ev_peer_fingerprint ev')))))"
proof -
  obtain st1 st2 st3 where store: "pe_load_or_create_identity env st = (st1, Ok (ev_local_fingerprint ev))"
    "pe_load_peer_pin env st1 alias = (st2, Ok None)"
    "pe_store_peer_pin env st2 alias (ev_peer_fingerprint ev) = (st3, Ok ())"
    using assms(2) unfolding store_ready_def by blast
  have p: "p = \<lparr>co_store = st3, co_state = CoAccepted (accepted_from_evidence ev (ev_local_fingerprint ev) (ev_peer_fingerprint ev))\<rparr>"
    using honest_pairing [OF assms(1,3) store assms(4-6)] assms(7) by simp
  have reload: "snd (pe_load_or_create_identity env st3) = Ok (ev_local_fingerprint ev)"
      "snd (pe_load_peer_pin env (fst (pe_load_or_create_identity env st3)) alias) = Ok (Some (ev_peer_fingerprint ev))"
    if persistent: "store_persistent env"
  proof -
    have "snd (pe_load_or_create_identity env st1) = Ok (ev_local_fingerprint ev)"
      using persistent store(1) unfolding store_persistent_def by blast
    moreover have "snd (pe_load_or_create_identity env st2) = snd (pe_load_or_create_identity env st1)"
      using persistent store(2) unfolding store_persistent_def by (metis fst_conv)
    moreover have "snd (pe_load_peer_pin env st3 alias) = Ok (Some (ev_peer_fingerprint ev))
        \<and> snd (pe_load_or_create_identity env st3) = snd (pe_load_or_create_identity env st2)"
      using persistent store(3) unfolding store_persistent_def by blast
    moreover have "snd (pe_load_peer_pin env (fst (pe_load_or_create_identity env st3)) alias)
        = snd (pe_load_peer_pin env st3 alias)"
      using persistent unfolding store_persistent_def by blast
    ultimately show "snd (pe_load_or_create_identity env st3) = Ok (ev_local_fingerprint ev)"
      "snd (pe_load_peer_pin env (fst (pe_load_or_create_identity env st3)) alias) = Ok (Some (ev_peer_fingerprint ev))"
      by simp_all
  qed
  have "snd (sas_begin env (new_coordinator st3) alias ev' (ev_peer_fingerprint ev') t0')
      = Ok (StartAccepted (accepted_from_evidence ev' (ev_local_fingerprint ev') (ev_peer_fingerprint ev')))"
    if "store_persistent env" "fresh_evidence ev' t0'" "ev_local_fingerprint ev' = ev_local_fingerprint ev"
      "ev_peer_fingerprint ev' = ev_peer_fingerprint ev" for ev' t0'
    by (rule recognised_begin [OF that(2)]) (use reload [OF that(1)] that(3,4) in simp_all)
  then show ?thesis
    by (simp add: p co_accepted_session_def)
qed

theorem sas_pairing_completes_witness:
  "store_ready sample_env Map.empty [65] sample_evidence \<and> store_persistent sample_env
   \<and> snd (sas_begin sample_env (new_coordinator (co_store
       (fst (run (sas_step sample_env) (new_coordinator Map.empty) sample_history)))) [65] sample_evidence [2] 10)
     = Ok (StartAccepted (accepted_from_evidence sample_evidence [1] [2]))"
  using sas_pairing_completes [of sample_env Map.empty "[65]" sample_evidence 10 20 30 sample_confirmations
      "fst (run (sas_step sample_env) (new_coordinator Map.empty) sample_history)"]
  by (simp add: sample_history_def del: run_Cons_fst)

end
