(* ===== verification/Authority.thy ===== *)
theory Authority
  imports Input Sas_Pairing
begin

text \<open>
  The runtime session authority, \<^verbatim>\<open>crates/session/src/runtime.rs\<close>: the gate between an accepted
  pairing and the native providers. It hands out dispatch permits, rechecks them, routes input to the
  ledger it owns, and gives the ledger away once, when it is closed.

  The trait \<^verbatim>\<open>SessionGate\<close>, through which a role runtime sees the authority, is the locale
  \<open>session_gate\<close>.
\<close>

section \<open>The interface a runtime sees\<close>

datatype ('p, 'm) gate_cmd =
  GateAcquire u64
| GateRecheck 'p u64
| GateApply 'm u64
| GateClose

datatype ('e, 'p, 't, 'i, 'o, 'c) gate_reply =
  GotPermit "'e + 'p"
| GotStamp "'e + 't"
| GotOutcome "'i + 'o"
| GotClosed "'e + 'c"

fun gate_ok :: "('e, 'p, 't, 'i, 'o, 'c) gate_reply \<Rightarrow> bool" where
  "gate_ok (GotPermit r) = is_ok r"
| "gate_ok (GotStamp r) = is_ok r"
| "gate_ok (GotOutcome r) = is_ok r"
| "gate_ok (GotClosed r) = is_ok r"

fun gate_step :: "('s \<Rightarrow> u64 \<Rightarrow> 'e + 'p) \<Rightarrow> ('s \<Rightarrow> 'p \<Rightarrow> u64 \<Rightarrow> 'e + 't)
    \<Rightarrow> ('s \<Rightarrow> 'm \<Rightarrow> u64 \<Rightarrow> 's \<times> ('i + 'o)) \<Rightarrow> ('s \<Rightarrow> 's \<times> ('e + 'c))
    \<Rightarrow> 's \<Rightarrow> ('p, 'm) gate_cmd \<Rightarrow> 's \<times> ('e, 'p, 't, 'i, 'o, 'c) gate_reply" where
  "gate_step acquire recheck apply_in close s (GateAcquire now) = (s, GotPermit (acquire s now))"
| "gate_step acquire recheck apply_in close s (GateRecheck p now) = (s, GotStamp (recheck s p now))"
| "gate_step acquire recheck apply_in close s (GateApply m now) =
     map_prod id GotOutcome (apply_in s m now)"
| "gate_step acquire recheck apply_in close s GateClose = map_prod id GotClosed (close s)"

text \<open>\<open>live\<close> is the part of the gate's state that closing ends; \<open>stamp\<close> names the gate's generation.\<close>

locale session_gate =
  fixes acquire :: "'s \<Rightarrow> u64 \<Rightarrow> 'e + 'p"
    and recheck :: "'s \<Rightarrow> 'p \<Rightarrow> u64 \<Rightarrow> 'e + 't"
    and apply_in :: "'s \<Rightarrow> 'm \<Rightarrow> u64 \<Rightarrow> 's \<times> ('i + 'o)"
    and close :: "'s \<Rightarrow> 's \<times> ('e + 'c)"
    and live :: "'s \<Rightarrow> bool"
    and stamp :: "'s \<Rightarrow> 't"
    and stamp_of :: "'p \<Rightarrow> 't"
  assumes acquire_live: "acquire s now = Ok p \<Longrightarrow> live s \<and> stamp_of p = stamp s"
    and recheck_live: "recheck s p now = Ok t \<Longrightarrow> live s \<and> stamp_of p = stamp s \<and> t = stamp s"
    and apply_live: "is_ok (snd (apply_in s m now)) \<Longrightarrow> live s"
    and apply_keeps: "live (fst (apply_in s m now)) = live s" "stamp (fst (apply_in s m now)) = stamp s"
    and close_live: "is_ok (snd (close s)) \<Longrightarrow> live s"
    and close_ends: "\<not> live (fst (close s))" "stamp (fst (close s)) = stamp s"
begin

abbreviation step :: "'s \<Rightarrow> ('p, 'm) gate_cmd \<Rightarrow> 's \<times> ('e, 'p, 't, 'i, 'o, 'c) gate_reply" where
  "step \<equiv> gate_step acquire recheck apply_in close"

lemma step_live: "gate_ok (snd (step s c)) \<Longrightarrow> live s"
  using acquire_live recheck_live apply_live close_live
  by (cases c) (auto simp: is_ok_def split: sum.splits)

lemma step_dead: "\<not> live s \<Longrightarrow> \<not> live (fst (step s c))"
  by (cases c) (auto simp: apply_keeps close_ends)

lemma step_stamp: "stamp (fst (step s c)) = stamp s"
  by (cases c) (auto simp: apply_keeps close_ends)

lemma dead_refuses: "\<not> live s \<Longrightarrow> list_all (\<lambda>r. \<not> gate_ok r) (snd (run step s cs))"
  using step_live step_dead by (induction cs arbitrary: s) auto

lemma run_stamp: "stamp (fst (run step s cs)) = stamp s"
  by (induction cs arbitrary: s) (simp_all add: step_stamp)

text \<open>After a close every call is refused.\<close>

lemma closed_refuses:
  "list_all (\<lambda>r. \<not> gate_ok r) (snd (run step (fst (run step s (before @ [GateClose]))) after))"
  by (rule dead_refuses) (simp add: run_append_fst close_ends)

text \<open>A permit passes a recheck only on a gate with the same stamp as the gate that issued it.\<close>

lemma permit_same_stamp:
  assumes "acquire s now = Ok p" and "recheck s' p now' = Ok t"
  shows "stamp s' = stamp s"
  using acquire_live [OF assms(1)] recheck_live [OF assms(2)] by simp

end

section \<open>The authority\<close>

record dispatch_stamp =
  ds_session_id :: u64
  ds_generation :: u64
  ds_authorization_epoch :: u32
  ds_display_epoch :: u32
  ds_codec_epoch :: u32

datatype authority_error =
  AeInvalidDispatchStamp
| AeSessionMismatch
| AeInvalidDeadline
| AeViewNotGranted
| AeInputNotGranted
| AeExpired
| AeStaleDispatch
| AeClosed

datatype session_input_error =
  AuthorityError authority_error
| InputError input_error

definition new_dispatch_stamp :: "u64 \<Rightarrow> u64 \<Rightarrow> u32 \<Rightarrow> u32 \<Rightarrow> u32 \<Rightarrow> authority_error + dispatch_stamp" where
  "new_dispatch_stamp sid generation authorization_epoch display_epoch codec_epoch =
     (if generation = 0 \<or> authorization_epoch = 0 \<or> display_epoch = 0 \<or> codec_epoch = 0
      then Err AeInvalidDispatchStamp
      else Ok \<lparr>ds_session_id = sid, ds_generation = generation,
             ds_authorization_epoch = authorization_epoch, ds_display_epoch = display_epoch,
             ds_codec_epoch = codec_epoch\<rparr>)"

record dispatch_permit =
  dp_stamp :: dispatch_stamp

record input_ledger =
  il_reconciler :: input_reconciler

definition ledger_apply :: "input_ledger \<Rightarrow> input_message
    \<Rightarrow> input_ledger \<times> (input_error + reconcile_outcome)" where
  "ledger_apply l m = (let (r, res) = apply_message (il_reconciler l) m in (l\<lparr>il_reconciler := r\<rparr>, res))"

definition release_plan :: "input_ledger \<Rightarrow> input_ledger \<times> applied_input list" where
  "release_plan l =
     (let (r, plan) = disconnect_release_plan (il_reconciler l) in (l\<lparr>il_reconciler := r\<rparr>, plan))"

definition release_plan_into :: "input_ledger \<Rightarrow> applied_input list \<Rightarrow> input_ledger \<times> applied_input list" where
  "release_plan_into l out =
     (let (r, plan) = disconnect_release_plan (il_reconciler l) in (l\<lparr>il_reconciler := r\<rparr>, [] @ plan))"

record closed_authority =
  ca_input_ledger :: input_ledger
  ca_release_deadline_ns :: u64

record session_authority =
  sy_accepted :: accepted_session
  sy_stamp :: dispatch_stamp
  sy_input_ledger :: "input_ledger option"
  sy_session_deadline_ns :: u64
  sy_release_deadline_ns :: u64

definition new_authority :: "accepted_session \<Rightarrow> dispatch_stamp \<Rightarrow> input_ledger \<Rightarrow> u64 \<Rightarrow> u64
    \<Rightarrow> authority_error + session_authority" where
  "new_authority accepted stamp ledger session_deadline_ns release_deadline_ns =
     (if as_session_id accepted \<noteq> ds_session_id stamp then Err AeSessionMismatch
      else if session_deadline_ns = 0 \<or> release_deadline_ns = 0 then Err AeInvalidDeadline
      else Ok \<lparr>sy_accepted = accepted, sy_stamp = stamp, sy_input_ledger = Some ledger,
             sy_session_deadline_ns = session_deadline_ns,
             sy_release_deadline_ns = release_deadline_ns\<rparr>)"

definition ensure_dispatchable :: "session_authority \<Rightarrow> u64 \<Rightarrow> authority_error + unit" where
  "ensure_dispatchable a now_ns =
     (if sy_input_ledger a = None then Err AeClosed
      else if now_ns \<ge> sy_session_deadline_ns a then Err AeExpired
      else if \<not> caps_contains (as_capabilities (sy_accepted a)) CapView then Err AeViewNotGranted
      else Ok ())"

definition acquire_dispatch :: "session_authority \<Rightarrow> u64 \<Rightarrow> authority_error + dispatch_permit" where
  "acquire_dispatch a now_ns =
     and_then (ensure_dispatchable a now_ns) (\<lambda>_. Ok \<lparr>dp_stamp = sy_stamp a\<rparr>)"

definition authority_recheck :: "session_authority \<Rightarrow> dispatch_permit \<Rightarrow> u64 \<Rightarrow> authority_error + dispatch_stamp" where
  "authority_recheck a permit now_ns = and_then (ensure_dispatchable a now_ns) (\<lambda>_.
     if dp_stamp permit \<noteq> sy_stamp a then Err AeStaleDispatch else Ok (sy_stamp a))"

definition apply_input :: "session_authority \<Rightarrow> input_message \<Rightarrow> u64
    \<Rightarrow> session_authority \<times> (session_input_error + reconcile_outcome)" where
  "apply_input a message now_ns = (case ensure_dispatchable a now_ns of
     Inl e \<Rightarrow> (a, Err (AuthorityError e))
   | Inr _ \<Rightarrow>
       if \<not> caps_contains (as_capabilities (sy_accepted a)) CapInput
       then (a, Err (AuthorityError AeInputNotGranted))
       else case sy_input_ledger a of
           None \<Rightarrow> (a, Err (AuthorityError AeClosed))
         | Some ledger \<Rightarrow>
             (case ledger_apply ledger message of
                (l', Inl e) \<Rightarrow> (a\<lparr>sy_input_ledger := Some l'\<rparr>, Err (InputError e))
              | (l', Inr out) \<Rightarrow> (a\<lparr>sy_input_ledger := Some l'\<rparr>, Ok out)))"

definition authority_close :: "session_authority \<Rightarrow> session_authority \<times> (authority_error + closed_authority)" where
  "authority_close a = (case sy_input_ledger a of
     None \<Rightarrow> (a, Err AeClosed)
   | Some ledger \<Rightarrow> (a\<lparr>sy_input_ledger := None\<rparr>,
       Ok \<lparr>ca_input_ledger = ledger, ca_release_deadline_ns = sy_release_deadline_ns a\<rparr>))"

section \<open>The authority is a session gate\<close>

lemma ensure_dispatchable_Ok:
  "ensure_dispatchable a now = Ok u \<longleftrightarrow> sy_input_ledger a \<noteq> None \<and> now < sy_session_deadline_ns a
     \<and> caps_contains (as_capabilities (sy_accepted a)) CapView"
  by (auto simp: ensure_dispatchable_def)

lemma apply_input_state:
  "sy_accepted (fst (apply_input a m now)) = sy_accepted a"
  "sy_stamp (fst (apply_input a m now)) = sy_stamp a"
  "sy_session_deadline_ns (fst (apply_input a m now)) = sy_session_deadline_ns a"
  "sy_release_deadline_ns (fst (apply_input a m now)) = sy_release_deadline_ns a"
  "sy_input_ledger (fst (apply_input a m now)) = None \<longleftrightarrow> sy_input_ledger a = None"
  by (auto simp: apply_input_def split: sum.split option.split prod.split)

interpretation gate: session_gate acquire_dispatch authority_recheck apply_input authority_close
  "\<lambda>a. sy_input_ledger a \<noteq> None" sy_stamp dp_stamp
proof
  fix a now p t m
  show "acquire_dispatch a now = Ok p \<Longrightarrow> sy_input_ledger a \<noteq> None \<and> dp_stamp p = sy_stamp a"
    by (auto simp: acquire_dispatch_def ensure_dispatchable_Ok)
  show "authority_recheck a p now = Ok t \<Longrightarrow>
      sy_input_ledger a \<noteq> None \<and> dp_stamp p = sy_stamp a \<and> t = sy_stamp a"
    by (auto simp: authority_recheck_def ensure_dispatchable_Ok split: if_splits)
  show "is_ok (snd (apply_input a m now)) \<Longrightarrow> sy_input_ledger a \<noteq> None"
    by (cases "sy_input_ledger a") (simp_all add: apply_input_def ensure_dispatchable_def)
qed (auto simp: apply_input_state authority_close_def split: option.splits)

type_synonym authority_cmd = "(dispatch_permit, input_message) gate_cmd"

abbreviation authority_step where
  "authority_step \<equiv> gate_step acquire_dispatch authority_recheck apply_input authority_close"

lemma authority_close_state:
  "sy_accepted (fst (authority_close a)) = sy_accepted a"
  "sy_stamp (fst (authority_close a)) = sy_stamp a"
  "sy_session_deadline_ns (fst (authority_close a)) = sy_session_deadline_ns a"
  "sy_release_deadline_ns (fst (authority_close a)) = sy_release_deadline_ns a"
  by (simp_all add: authority_close_def split: option.split)

text \<open>What no call changes.\<close>

definition authority_const :: "session_authority \<Rightarrow> accepted_session \<times> dispatch_stamp \<times> u64 \<times> u64" where
  "authority_const a = (sy_accepted a, sy_stamp a, sy_session_deadline_ns a, sy_release_deadline_ns a)"

interpretation authority_same: machine_invariant authority_step "\<lambda>a. authority_const a = k" for k
proof
  show "authority_const (fst (authority_step a c)) = k" if "authority_const a = k" for a c
    using that by (cases c) (simp_all add: authority_const_def apply_input_state authority_close_state)
qed

lemma new_authority_Ok:
  "new_authority acc st l sd rd = Ok a \<longleftrightarrow> as_session_id acc = ds_session_id st \<and> sd \<noteq> 0 \<and> rd \<noteq> 0
     \<and> a = \<lparr>sy_accepted = acc, sy_stamp = st, sy_input_ledger = Some l, sy_session_deadline_ns = sd,
          sy_release_deadline_ns = rd\<rparr>"
  by (auto simp: new_authority_def)

section \<open>Input on the platform\<close>

fun gate_actions :: "('e, 'p, 't, 'i, reconcile_outcome, 'c) gate_reply \<Rightarrow> applied_input list" where
  "gate_actions (GotOutcome (Inr out)) = actions (Reconciled (Ok out))"
| "gate_actions _ = []"

fun valid_gate_cmd :: "authority_cmd \<Rightarrow> bool" where
  "valid_gate_cmd (GateApply m now) = valid_event (im_event m)"
| "valid_gate_cmd GateClose = False"
| "valid_gate_cmd _ = True"

definition ledger_held :: "session_authority \<Rightarrow> platform" where
  "ledger_held a = (case sy_input_ledger a of
     None \<Rightarrow> nothing_held | Some l \<Rightarrow> held (ir_state (il_reconciler l)))"

definition ledger_ok :: "session_authority \<Rightarrow> bool" where
  "ledger_ok a \<longleftrightarrow> is_some_and (sy_input_ledger a) (\<lambda>l. wf_state (ir_state (il_reconciler l)))"

lemma apply_input_perform:
  assumes "valid_event (im_event m)" and "ledger_ok a"
  shows "ledger_ok (fst (apply_input a m now))
    \<and> perform_all (gate_actions (GotOutcome (snd (apply_input a m now)))) (ledger_held a)
        = Some (ledger_held (fst (apply_input a m now)))"
proof -
  obtain l where l: "sy_input_ledger a = Some l" "wf_state (ir_state (il_reconciler l))"
    using assms(2) by (auto simp: ledger_ok_def is_some_and_iff)
  obtain r' res where r: "apply_message (il_reconciler l) m = (r', res)" by fastforce
  have p: "wf_state (ir_state r') \<and> perform_all (actions (Reconciled res))
      (held (ir_state (il_reconciler l))) = Some (held (ir_state r'))"
    using input_step_perform [of "ApplyMessage m" "il_reconciler l"] assms(1) l(2) r by simp
  have "(\<exists>e. apply_input a m now = (a, Err (AuthorityError e)))
    \<or> apply_input a m now = (a\<lparr>sy_input_ledger := Some (l\<lparr>il_reconciler := r'\<rparr>)\<rparr>,
        case res of Inl e \<Rightarrow> Err (InputError e) | Inr out \<Rightarrow> Ok out)"
    using l(1) r
    by (cases "ensure_dispatchable a now"; cases "caps_contains (as_capabilities (sy_accepted a)) CapInput";
        cases res) (simp_all add: apply_input_def ledger_apply_def)
  then consider (refused) e where "apply_input a m now = (a, Err (AuthorityError e))"
    | (done_) "apply_input a m now = (a\<lparr>sy_input_ledger := Some (l\<lparr>il_reconciler := r'\<rparr>)\<rparr>,
        case res of Inl e \<Rightarrow> Err (InputError e) | Inr out \<Rightarrow> Ok out)"
    by blast
  then show ?thesis
  proof cases
    case refused
    then show ?thesis using assms(2) by simp
  next
    case done_
    then show ?thesis
      using p l by (cases res) (auto simp: ledger_ok_def ledger_held_def)
  qed
qed

lemma authority_run_perform:
  assumes "list_all valid_gate_cmd cs" and "ledger_ok a"
  shows "ledger_ok (fst (run authority_step a cs))
    \<and> perform_all (concat (map gate_actions (snd (run authority_step a cs)))) (ledger_held a)
        = Some (ledger_held (fst (run authority_step a cs)))"
  using assms
proof (induction cs arbitrary: a)
  case (Cons c cs)
  have step: "ledger_ok (fst (authority_step a c))
    \<and> perform_all (gate_actions (snd (authority_step a c))) (ledger_held a)
        = Some (ledger_held (fst (authority_step a c)))"
    using Cons.prems apply_input_perform [of _ a] by (cases c) auto
  show ?case
    using Cons.IH [of "fst (authority_step a c)"] Cons.prems step by (simp add: perform_all_append)
qed simp

section \<open>A concrete authority\<close>

definition sample_stamp :: dispatch_stamp where
  "sample_stamp = \<lparr>ds_session_id = 7, ds_generation = 1, ds_authorization_epoch = 1,
     ds_display_epoch = 1, ds_codec_epoch = 1\<rparr>"

definition sample_session :: accepted_session where
  "sample_session = \<lparr>as_session_id = 7, as_local_identity = [1], as_peer_pin = [2], as_capabilities = 3\<rparr>"

definition sample_authority :: session_authority where
  "sample_authority = \<lparr>sy_accepted = sample_session, sy_stamp = sample_stamp,
     sy_input_ledger = Some \<lparr>il_reconciler = new_reconciler\<rparr>, sy_session_deadline_ns = 100,
     sy_release_deadline_ns = 200\<rparr>"

lemma sample_authority_ok:
  "new_authority sample_session sample_stamp \<lparr>il_reconciler = new_reconciler\<rparr> 100 200 = Ok sample_authority"
  by (simp add: new_authority_Ok sample_authority_def sample_session_def sample_stamp_def)

lemma sample_dispatch:
  "acquire_dispatch sample_authority 5 = Ok \<lparr>dp_stamp = sample_stamp\<rparr>"
  "as_capabilities sample_session = 3" "caps_contains 3 CapView"
  by (simp_all add: acquire_dispatch_def ensure_dispatchable_def sample_authority_def
      sample_session_def caps_contains_def)

section \<open>Properties\<close>

text \<open>
  C8: the authority grants nothing it does not hold. Along any history of calls on an authority built
  from an accepted session: every permit and every successful recheck or input application happens
  before the session deadline and under the View capability, permits and rechecks carry exactly the
  authority's stamp, input is applied only under the Input capability, and a close hands over the
  release deadline the authority was built with.
\<close>

theorem authority_gate_sound:
  assumes "new_authority acc st ledger sd rd = Ok a" and "(c, r) \<in> set (trace authority_step a cs)"
    and "gate_ok r"
  shows "case c of
      GateAcquire now \<Rightarrow> now < sd \<and> caps_contains (as_capabilities acc) CapView
        \<and> r = GotPermit (Ok \<lparr>dp_stamp = st\<rparr>)
    | GateRecheck p now \<Rightarrow> now < sd \<and> caps_contains (as_capabilities acc) CapView
        \<and> dp_stamp p = st \<and> r = GotStamp (Ok st)
    | GateApply m now \<Rightarrow> now < sd \<and> caps_contains (as_capabilities acc) CapView
        \<and> caps_contains (as_capabilities acc) CapInput
    | GateClose \<Rightarrow> \<exists>l. r = GotClosed (Ok \<lparr>ca_input_ledger = l, ca_release_deadline_ns = rd\<rparr>)"
  using assms(2)
proof (rule trace_memE)
  fix before after
  define b where "b = fst (run authority_step a before)"
  assume "r = snd (authority_step (fst (run authority_step a before)) c)"
  then have r: "r = snd (authority_step b c)"
    by (simp add: b_def)
  have "authority_const b = authority_const a"
    unfolding b_def by (rule authority_same.run_inv) simp
  then have b: "sy_accepted b = acc" "sy_stamp b = st" "sy_session_deadline_ns b = sd"
    "sy_release_deadline_ns b = rd"
    using assms(1) by (simp_all add: authority_const_def new_authority_Ok)
  show ?thesis
  proof (cases c)
    case (GateAcquire now)
    then show ?thesis
      using r assms(3) b
      by (cases "ensure_dispatchable b now") (simp_all add: acquire_dispatch_def ensure_dispatchable_Ok)
  next
    case (GateRecheck p now)
    then show ?thesis
      using r assms(3) b
      by (cases "ensure_dispatchable b now")
        (auto simp: authority_recheck_def ensure_dispatchable_Ok split: if_splits)
  next
    case (GateApply m now)
    then show ?thesis
      using r assms(3) b
      by (cases "ensure_dispatchable b now")
        (auto simp: apply_input_def ensure_dispatchable_Ok split: if_splits)
  next
    case GateClose
    then show ?thesis
      using r assms(3) b by (cases "sy_input_ledger b") (auto simp: authority_close_def)
  qed
qed

theorem authority_gate_sound_witness:
  "GotPermit (Ok \<lparr>dp_stamp = sample_stamp\<rparr>) = snd (authority_step sample_authority (GateAcquire 5))
   \<and> (5 :: u64) < 100 \<and> caps_contains 3 CapView"
proof -
  have "(GateAcquire 5, GotPermit (Ok \<lparr>dp_stamp = sample_stamp\<rparr>))
      \<in> set (trace authority_step sample_authority [GateAcquire 5])"
    by (simp add: sample_dispatch)
  from authority_gate_sound [OF sample_authority_ok this] show ?thesis
    by (simp add: sample_dispatch)
qed

text \<open>
  Closing an authority is final, and permits do not outlive it. After a close every call is
  refused, whatever follows; and a permit issued by one authority passes a recheck only on an
  authority with the same stamp.
\<close>

theorem authority_close_final:
  "list_all (\<lambda>r. \<not> gate_ok r)
     (snd (run authority_step (fst (run authority_step a (before @ [GateClose]))) after))
   \<and> \<not> (acquire_dispatch a now = Ok p \<and> sy_stamp a \<noteq> sy_stamp b
        \<and> is_ok (authority_recheck b p now'))"
  using gate.closed_refuses [of a before after] gate.permit_same_stamp [of a now p b now']
  by (cases "authority_recheck b p now'") auto

text \<open>
  C9: closing releases everything. For an authority over a fresh ledger, whatever decoded input and
  dispatch checks it was given: closing it succeeds, and performing the actions it emitted and then
  the release plan of the ledger it hands over never presses a held key or releases a free one and
  leaves nothing held on the platform.
\<close>

theorem authority_close_releases_all:
  assumes "new_authority acc st \<lparr>il_reconciler = new_reconciler\<rparr> sd rd = Ok a"
    and "list_all valid_gate_cmd cs"
  shows "\<exists>closed. snd (authority_close (fst (run authority_step a cs))) = Ok closed
    \<and> perform_all (concat (map gate_actions (snd (run authority_step a cs)))
         @ snd (release_plan (ca_input_ledger closed))) nothing_held = Some nothing_held"
proof -
  let ?b = "fst (run authority_step a cs)"
  have "ledger_ok a" "ledger_held a = nothing_held"
    using assms(1) by (simp_all add: new_authority_Ok ledger_ok_def ledger_held_def new_reconciler_def
        held_default)
  then have run: "ledger_ok ?b"
    "perform_all (concat (map gate_actions (snd (run authority_step a cs)))) nothing_held
      = Some (ledger_held ?b)"
    using authority_run_perform [OF assms(2), of a] by simp_all
  then obtain l where l: "sy_input_ledger ?b = Some l"
    by (auto simp: ledger_ok_def is_some_and_iff)
  then have "ledger_held ?b = held (ir_state (il_reconciler l))"
    by (simp add: ledger_held_def)
  moreover have "perform_all (snd (release_plan l)) (held (ir_state (il_reconciler l))) = Some nothing_held"
    by (simp add: release_plan_def disconnect_release_plan_def split_beta Let_def release_all_perform)
  ultimately show ?thesis
    using l run(2) by (simp add: authority_close_def perform_all_append)
qed

theorem authority_close_releases_all_witness:
  "\<exists>closed. snd (authority_close (fst (run authority_step sample_authority
      [GateApply \<lparr>im_session_epoch = 1, im_sequence = 1, im_event = EvKey 4 True\<rparr> 5]))) = Ok closed
    \<and> perform_all (concat (map gate_actions (snd (run authority_step sample_authority
         [GateApply \<lparr>im_session_epoch = 1, im_sequence = 1, im_event = EvKey 4 True\<rparr> 5])))
         @ snd (release_plan (ca_input_ledger closed))) nothing_held = Some nothing_held"
  by (rule authority_close_releases_all [OF sample_authority_ok])
    (simp add: valid_event_def validate_key_def MAX_KEY_CODE_def)

end
