(* ===== verification/Candidate_Wire.thy ===== *)
theory Candidate_Wire
  imports Quic_Wire
begin

text \<open>
  Connectivity signalling of \<^verbatim>\<open>crates/protocol/src/lib.rs\<close>: ICE candidates and their priorities,
  candidate exchanges, ICE credentials, rendezvous registrations and relay envelopes. Arrays of
  octets are byte lists of the array's length, which \<open>wf_\<close> predicates state; arithmetic on
  priorities wraps, as it does in the release profile.
\<close>

section \<open>Candidates\<close>

datatype candidate_type = CtHost | CtServerReflexive | CtPeerReflexive | CtRelayed

fun candidate_type_code :: "candidate_type \<Rightarrow> u8" where
  "candidate_type_code CtHost = 1"
| "candidate_type_code CtServerReflexive = 2"
| "candidate_type_code CtPeerReflexive = 3"
| "candidate_type_code CtRelayed = 4"

definition candidate_type_try_from :: "u8 \<Rightarrow> protocol_error + candidate_type" where
  "candidate_type_try_from b =
     (if b = 1 then Ok CtHost else if b = 2 then Ok CtServerReflexive
      else if b = 3 then Ok CtPeerReflexive else if b = 4 then Ok CtRelayed
      else Err (Candidate (InvalidCandidateType b)))"

datatype transport_protocol = TpUdp | TpTcp

fun transport_protocol_code :: "transport_protocol \<Rightarrow> u8" where
  "transport_protocol_code TpUdp = 1"
| "transport_protocol_code TpTcp = 2"

definition transport_protocol_try_from :: "u8 \<Rightarrow> protocol_error + transport_protocol" where
  "transport_protocol_try_from b =
     (if b = 1 then Ok TpUdp else if b = 2 then Ok TpTcp
      else Err (Candidate (InvalidTransportProtocol b)))"

datatype relay_provider = RpNone | RpTurn | RpDerp

fun relay_provider_code :: "relay_provider \<Rightarrow> u8" where
  "relay_provider_code RpNone = 0"
| "relay_provider_code RpTurn = 1"
| "relay_provider_code RpDerp = 2"

definition relay_provider_try_from :: "u8 \<Rightarrow> protocol_error + relay_provider" where
  "relay_provider_try_from b =
     (if b = 0 then Ok RpNone else if b = 1 then Ok RpTurn else if b = 2 then Ok RpDerp
      else Err (Candidate (InvalidRelayProvider b)))"

datatype wire_ip_addr = V4 bytes | V6 bytes

definition compute_candidate_priority :: "candidate_type \<Rightarrow> u16 \<Rightarrow> u8 \<Rightarrow> u32" where
  "compute_candidate_priority ct local_preference component =
     (let type_pref = (case ct of CtHost \<Rightarrow> 126 | CtPeerReflexive \<Rightarrow> 110
            | CtServerReflexive \<Rightarrow> 100 | CtRelayed \<Rightarrow> 0);
          local_pref = ucast local_preference;
          comp = (256 - (ucast component AND 0xFF)) AND 0xFF
      in push_bit 24 type_pref OR push_bit 8 local_pref OR comp)"

definition compute_pair_priority :: "u32 \<Rightarrow> u32 \<Rightarrow> bool \<Rightarrow> u64" where
  "compute_pair_priority controlling_prio controlled_prio is_controlling =
     (let g = (if is_controlling then ucast controlling_prio else ucast controlled_prio);
          d = (if is_controlling then ucast controlled_prio else ucast controlling_prio);
          mn = (if g < d then g else d);
          mx = (if g > d then g else d);
          s = (if g > d then 1 else 0)
      in push_bit 32 1 * mn + 2 * mx + s)"

record ice_candidate =
  ic_foundation :: bytes
  ic_component :: u8
  ic_transport :: transport_protocol
  ic_priority :: u32
  ic_candidate_type :: candidate_type
  ic_relay_provider :: relay_provider
  ic_ip :: wire_ip_addr
  ic_port :: u16
  ic_related_address :: "(wire_ip_addr \<times> u16) option"

fun is_usable_candidate_address :: "wire_ip_addr \<Rightarrow> bool" where
  "is_usable_candidate_address (V4 octets) \<longleftrightarrow>
     octets \<noteq> replicate 4 0 \<and> octets \<noteq> replicate 4 255 \<and> octets ! 0 AND 0xf0 \<noteq> 0xe0"
| "is_usable_candidate_address (V6 octets) \<longleftrightarrow> octets \<noteq> replicate 16 0 \<and> octets ! 0 \<noteq> 0xff"

definition validate_related :: "(wire_ip_addr \<times> u16) option \<Rightarrow> protocol_error + unit" where
  "validate_related related = (case related of
     None \<Rightarrow> Ok ()
   | Some (ip, port) \<Rightarrow>
       if port = 0 then Err (Candidate InvalidCandidatePort)
       else if \<not> is_usable_candidate_address ip then Err (Candidate InvalidCandidateAddress)
       else Ok ())"

definition validate_candidate :: "ice_candidate \<Rightarrow> protocol_error + unit" where
  "validate_candidate c =
     (if ic_component c = 0 then Err (Candidate InvalidCandidateComponent)
      else if ic_port c = 0 then Err (Candidate InvalidCandidatePort)
      else if \<not> is_usable_candidate_address (ic_ip c) then Err (Candidate InvalidCandidateAddress)
      else and_then (validate_related (ic_related_address c)) (\<lambda>_.
        let is_relayed = (ic_candidate_type c = CtRelayed);
            has_relay_provider = (ic_relay_provider c \<noteq> RpNone) in
        if is_relayed \<noteq> has_relay_provider then Err (Candidate InvalidCandidateRelayProvider)
        else if is_relayed \<and> ic_transport c \<noteq> TpUdp
          then Err (Candidate UnsupportedCandidateTransport)
        else if is_relayed \<and> (drop_bit 24 (ic_priority c) \<noteq> 0
            \<or> ic_priority c AND 0xff \<noteq> (256 - ucast (ic_component c)) AND 0xff)
          then Err (Candidate InvalidCandidatePriority)
        else Ok ()))"

fun ip_bytes :: "wire_ip_addr \<Rightarrow> bytes" where
  "ip_bytes (V4 v4) = 4 # v4"
| "ip_bytes (V6 v6) = 6 # v6"

fun related_bytes :: "(wire_ip_addr \<times> u16) option \<Rightarrow> bytes" where
  "related_bytes None = [0]"
| "related_bytes (Some (ip, p)) = ip_bytes ip @ to_be_bytes p"

definition candidate_bytes :: "ice_candidate \<Rightarrow> bytes" where
  "candidate_bytes c = ic_foundation c @ [ic_component c, transport_protocol_code (ic_transport c),
      candidate_type_code (ic_candidate_type c), relay_provider_code (ic_relay_provider c)]
     @ to_be_bytes (ic_priority c) @ to_be_bytes (ic_port c) @ ip_bytes (ic_ip c)
     @ related_bytes (ic_related_address c)"

definition encode_candidate :: "ice_candidate \<Rightarrow> protocol_error + bytes" where
  "encode_candidate c = and_then (validate_candidate c) (\<lambda>_. Ok (candidate_bytes c))"

text \<open>The decoder's two variable fields, from the cursor on; each returns the new cursor.\<close>

definition decode_ip :: "bytes \<Rightarrow> nat \<Rightarrow> protocol_error + wire_ip_addr \<times> nat" where
  "decode_ip bs at =
     (let ip_type = bs ! at; cursor = at + 1 in
      if ip_type = 4 then
        if length bs < cursor + 4 then Err (Framing (Truncated (cursor + 4) (length bs)))
        else Ok (V4 (slice cursor 4 bs), cursor + 4)
      else if ip_type = 6 then
        if length bs < cursor + 16 then Err (Framing (Truncated (cursor + 16) (length bs)))
        else Ok (V6 (slice cursor 16 bs), cursor + 16)
      else Err (Candidate InvalidCandidateAddress))"

definition decode_related :: "bytes \<Rightarrow> nat \<Rightarrow> protocol_error + (wire_ip_addr \<times> u16) option \<times> nat" where
  "decode_related bs at =
     (if length bs < at + 1 then Err (Framing (Truncated (at + 1) (length bs)))
      else let rel_type = bs ! at; cursor = at + 1 in
        if rel_type = 0 then Ok (None, cursor)
        else if rel_type = 4 then
          if length bs < cursor + 6 then Err (Framing (Truncated (cursor + 6) (length bs)))
          else Ok (Some (V4 (slice cursor 4 bs), read_u16 bs (cursor + 4)), cursor + 6)
        else if rel_type = 6 then
          if length bs < cursor + 18 then Err (Framing (Truncated (cursor + 18) (length bs)))
          else Ok (Some (V6 (slice cursor 16 bs), read_u16 bs (cursor + 16)), cursor + 18)
        else Err (Candidate InvalidCandidateAddress))"

definition decode_candidate :: "bytes \<Rightarrow> protocol_error + ice_candidate" where
  "decode_candidate bs =
     (if length bs < 19 then Err (Framing (Truncated 19 (length bs)))
      else and_then (transport_protocol_try_from (bs ! 9)) (\<lambda>transport.
        and_then (candidate_type_try_from (bs ! 10)) (\<lambda>ct.
        and_then (relay_provider_try_from (bs ! 11)) (\<lambda>provider.
        and_then (decode_ip bs 18) (\<lambda>(ip, c1).
        and_then (decode_related bs c1) (\<lambda>(related, c2).
        if c2 \<noteq> length bs then Err (Framing (PayloadLength c2 (length bs)))
        else let c = \<lparr>ic_foundation = slice 0 8 bs, ic_component = bs ! 8, ic_transport = transport,
               ic_priority = read_u32 bs 12, ic_candidate_type = ct, ic_relay_provider = provider,
               ic_ip = ip, ic_port = read_u16 bs 16, ic_related_address = related\<rparr>
             in and_then (validate_candidate c) (\<lambda>_. Ok c)))))))"

section \<open>Candidate exchanges\<close>

record candidate_exchange =
  cx_version :: u8
  cx_exchange_id :: u64
  cx_generation :: u32
  cx_candidates :: "ice_candidate list"

definition EXCHANGE_VERSION :: u8 where
  "EXCHANGE_VERSION = 1"

definition MAX_EXCHANGE_CANDIDATES :: nat where
  "MAX_EXCHANGE_CANDIDATES = 8"

definition EXCHANGE_HEADER_LEN :: nat where
  "EXCHANGE_HEADER_LEN = 14"

definition is_v4 :: "wire_ip_addr \<Rightarrow> bool" where
  "is_v4 ip = (case ip of V4 _ \<Rightarrow> True | V6 _ \<Rightarrow> False)"

definition same_endpoint :: "ice_candidate \<Rightarrow> ice_candidate \<Rightarrow> bool" where
  "same_endpoint a b \<longleftrightarrow> ic_component a = ic_component b \<and> ic_transport a = ic_transport b
     \<and> ic_ip a = ic_ip b \<and> ic_port a = ic_port b"

text \<open>The loop over the candidates, with the candidates already seen.\<close>

fun validate_candidates :: "bool \<Rightarrow> ice_candidate list \<Rightarrow> ice_candidate list \<Rightarrow> protocol_error + unit" where
  "validate_candidates first_family prior [] = Ok ()"
| "validate_candidates first_family prior (c # cs) =
     and_then (validate_candidate c) (\<lambda>_.
       if ic_transport c = TpTcp then Err (Candidate UnsupportedCandidateTransport)
       else if ic_candidate_type c = CtPeerReflexive then Err (Candidate UnsupportedCandidateType)
       else if ic_candidate_type c = CtRelayed \<and> ic_relay_provider c \<noteq> RpTurn
         then Err (Candidate InvalidCandidateRelayProvider)
       else if is_v4 (ic_ip c) \<noteq> first_family then Err (Candidate MixedCandidateAddressFamily)
       else if is_some_and (ic_related_address c) (\<lambda>(ip, _). is_v4 ip \<noteq> first_family)
         then Err (Candidate RelatedCandidateAddressFamily)
       else if list_ex (\<lambda>p. same_endpoint p c) prior then Err (Candidate DuplicateCandidate)
       else validate_candidates first_family (prior @ [c]) cs)"

definition validate_exchange :: "candidate_exchange \<Rightarrow> protocol_error + unit" where
  "validate_exchange x =
     (if cx_version x \<noteq> EXCHANGE_VERSION then Err (Framing (UnsupportedVersion (cx_version x)))
      else if cx_exchange_id x = 0 then Err (Candidate InvalidCandidateExchangeId)
      else if cx_generation x = 0 then Err (Candidate InvalidCandidateGeneration)
      else if cx_candidates x = [] \<or> length (cx_candidates x) > MAX_EXCHANGE_CANDIDATES
        then Err (Candidate (CandidateExchangeCount (length (cx_candidates x))))
      else validate_candidates (is_v4 (ic_ip (hd (cx_candidates x)))) [] (cx_candidates x))"

fun encode_candidates :: "ice_candidate list \<Rightarrow> protocol_error + bytes" where
  "encode_candidates [] = Ok []"
| "encode_candidates (c # cs) = and_then (encode_candidate c) (\<lambda>encoded.
     and_then (encode_candidates cs) (\<lambda>rest.
       Ok (to_be_bytes (of_nat (length encoded) :: u16) @ encoded @ rest)))"

definition encode_exchange :: "candidate_exchange \<Rightarrow> protocol_error + bytes" where
  "encode_exchange x = and_then (validate_exchange x) (\<lambda>_.
     and_then (encode_candidates (cx_candidates x)) (\<lambda>encoded.
       let out = [cx_version x] @ to_be_bytes (cx_exchange_id x) @ to_be_bytes (cx_generation x)
             @ [of_nat (length (cx_candidates x))] @ encoded in
       if length out > unat MAX_CONTROL_BYTES
       then Err (Candidate (CandidateExchangeLength (length out))) else Ok out))"

fun decode_candidates :: "nat \<Rightarrow> bytes \<Rightarrow> nat \<Rightarrow> protocol_error + ice_candidate list \<times> nat" where
  "decode_candidates 0 bs cursor = Ok ([], cursor)"
| "decode_candidates (Suc n) bs cursor =
     (if length bs < cursor + 2 then Err (Framing (Truncated (cursor + 2) (length bs)))
      else let len = unat (read_u16 bs cursor); start = cursor + 2; fin = start + len in
        if fin > length bs then Err (Framing (Truncated fin (length bs)))
        else and_then (decode_candidate (slice start len bs)) (\<lambda>c.
          and_then (decode_candidates n bs fin) (\<lambda>(cs, k). Ok (c # cs, k))))"

definition decode_exchange :: "bytes \<Rightarrow> protocol_error + candidate_exchange" where
  "decode_exchange bs =
     (if length bs < EXCHANGE_HEADER_LEN
        then Err (Framing (Truncated EXCHANGE_HEADER_LEN (length bs)))
      else if length bs > unat MAX_CONTROL_BYTES
        then Err (Candidate (CandidateExchangeLength (length bs)))
      else if bs ! 0 \<noteq> EXCHANGE_VERSION then Err (Framing (UnsupportedVersion (bs ! 0)))
      else let count = unat (bs ! 13) in
        if count = 0 \<or> count > MAX_EXCHANGE_CANDIDATES
        then Err (Candidate (CandidateExchangeCount count))
        else and_then (decode_candidates count bs EXCHANGE_HEADER_LEN) (\<lambda>(cs, cursor).
          if cursor \<noteq> length bs then Err (Framing (PayloadLength cursor (length bs)))
          else let x = \<lparr>cx_version = bs ! 0, cx_exchange_id = read_u64 bs 1,
                 cx_generation = read_u32 bs 9, cx_candidates = cs\<rparr>
               in and_then (validate_exchange x) (\<lambda>_. Ok x)))"

section \<open>ICE credentials\<close>

datatype ice_credential_role = CrControlling | CrControlled

fun ice_credential_role_code :: "ice_credential_role \<Rightarrow> u8" where
  "ice_credential_role_code CrControlling = 1"
| "ice_credential_role_code CrControlled = 2"

definition ice_credential_role_try_from :: "u8 \<Rightarrow> protocol_error + ice_credential_role" where
  "ice_credential_role_try_from b =
     (if b = 1 then Ok CrControlling else if b = 2 then Ok CrControlled
      else Err (Service (InvalidIceCredentialRole b)))"

record ice_credential_exchange =
  ce_version :: u8
  ce_exchange_id :: u64
  ce_generation :: u32
  ce_role :: ice_credential_role
  ce_ufrag :: bytes
  ce_password :: bytes

definition CREDENTIAL_VERSION :: u8 where
  "CREDENTIAL_VERSION = 1"

definition CREDENTIAL_HEADER_LEN :: nat where
  "CREDENTIAL_HEADER_LEN = 18"

definition ufrag_len_ok :: "nat \<Rightarrow> bool" where
  "ufrag_len_ok n \<longleftrightarrow> 4 \<le> n \<and> n \<le> 64"

definition password_len_ok :: "nat \<Rightarrow> bool" where
  "password_len_ok n \<longleftrightarrow> 22 \<le> n \<and> n \<le> 128"

definition ice_byte :: "u8 \<Rightarrow> bool" where
  "ice_byte b \<longleftrightarrow> 48 \<le> b \<and> b \<le> 57 \<or> 65 \<le> b \<and> b \<le> 90 \<or> 97 \<le> b \<and> b \<le> 122 \<or> b = 43 \<or> b = 47"

definition ice_bytes_charset :: "bytes \<Rightarrow> bool" where
  "ice_bytes_charset bs = list_all ice_byte bs"

definition secret_string_from_bytes :: "bytes \<Rightarrow> protocol_error + bytes" where
  "secret_string_from_bytes bs =
     (if valid_utf8 bs then Ok bs else Err (Service InvalidIceCredentialCharset))"

definition validate_credentials :: "ice_credential_exchange \<Rightarrow> protocol_error + unit" where
  "validate_credentials c =
     (if ce_version c \<noteq> CREDENTIAL_VERSION then Err (Framing (UnsupportedVersion (ce_version c)))
      else if ce_exchange_id c = 0 then Err (Service InvalidIceCredentialExchangeId)
      else if ce_generation c = 0 then Err (Service InvalidIceCredentialGeneration)
      else if \<not> ufrag_len_ok (length (ce_ufrag c)) \<or> \<not> ice_bytes_charset (ce_ufrag c)
        then Err (Service InvalidIceCredentialUfrag)
      else if \<not> password_len_ok (length (ce_password c)) \<or> \<not> ice_bytes_charset (ce_password c)
        then Err (Service InvalidIceCredentialPassword)
      else Ok ())"

definition new_credentials :: "u8 \<Rightarrow> u64 \<Rightarrow> u32 \<Rightarrow> ice_credential_role \<Rightarrow> bytes \<Rightarrow> bytes
    \<Rightarrow> protocol_error + ice_credential_exchange" where
  "new_credentials version exchange_id gen role ufrag password =
     (let c = \<lparr>ce_version = version, ce_exchange_id = exchange_id, ce_generation = gen,
            ce_role = role, ce_ufrag = ufrag, ce_password = password\<rparr>
      in and_then (validate_credentials c) (\<lambda>_. Ok c))"

definition credentials_bytes :: "ice_credential_exchange \<Rightarrow> bytes" where
  "credentials_bytes c = [ce_version c] @ to_be_bytes (ce_exchange_id c)
     @ to_be_bytes (ce_generation c) @ [ice_credential_role_code (ce_role c)]
     @ to_be_bytes (of_nat (length (ce_ufrag c)) :: u16)
     @ to_be_bytes (of_nat (length (ce_password c)) :: u16) @ ce_ufrag c @ ce_password c"

definition encode_credentials :: "ice_credential_exchange \<Rightarrow> protocol_error + bytes" where
  "encode_credentials c = and_then (validate_credentials c) (\<lambda>_. Ok (credentials_bytes c))"

definition decode_credentials :: "bytes \<Rightarrow> protocol_error + ice_credential_exchange" where
  "decode_credentials bs =
     (if length bs > unat MAX_CONTROL_BYTES
        then Err (Framing (ControlLength (if length bs < 2 ^ 32 then of_nat (length bs) else - 1)))
      else if length bs < CREDENTIAL_HEADER_LEN
        then Err (Framing (Truncated CREDENTIAL_HEADER_LEN (length bs)))
      else let ulen = unat (read_u16 bs 14); plen = unat (read_u16 bs 16);
               expected = CREDENTIAL_HEADER_LEN + ulen + plen; split = CREDENTIAL_HEADER_LEN + ulen in
      if \<not> ufrag_len_ok ulen then Err (Service InvalidIceCredentialUfrag)
      else if \<not> password_len_ok plen then Err (Service InvalidIceCredentialPassword)
      else if length bs \<noteq> expected then Err (Framing (PayloadLength expected (length bs)))
      else if bs ! 0 \<noteq> CREDENTIAL_VERSION then Err (Framing (UnsupportedVersion (bs ! 0)))
      else if read_u64 bs 1 = 0 then Err (Service InvalidIceCredentialExchangeId)
      else if read_u32 bs 9 = 0 then Err (Service InvalidIceCredentialGeneration)
      else and_then (ice_credential_role_try_from (bs ! 13)) (\<lambda>role.
        if \<not> ice_bytes_charset (slice CREDENTIAL_HEADER_LEN ulen bs)
          then Err (Service InvalidIceCredentialUfrag)
        else if \<not> ice_bytes_charset (drop split bs) then Err (Service InvalidIceCredentialPassword)
        else and_then (secret_string_from_bytes (slice CREDENTIAL_HEADER_LEN ulen bs)) (\<lambda>ufrag.
          and_then (secret_string_from_bytes (drop split bs)) (\<lambda>password.
            new_credentials (bs ! 0) (read_u64 bs 1) (read_u32 bs 9) role ufrag password))))"

section \<open>Rendezvous registrations\<close>

datatype rendezvous_role = RrInitiator | RrResponder

fun rendezvous_role_code :: "rendezvous_role \<Rightarrow> u8" where
  "rendezvous_role_code RrInitiator = 1"
| "rendezvous_role_code RrResponder = 2"

definition rendezvous_role_try_from :: "u8 \<Rightarrow> protocol_error + rendezvous_role" where
  "rendezvous_role_try_from b =
     (if b = 1 then Ok RrInitiator else if b = 2 then Ok RrResponder
      else Err (Service (InvalidRendezvousRole b)))"

record rendezvous_registration =
  rr_version :: u8
  rr_role :: rendezvous_role
  rr_generation :: u32
  rr_ttl_seconds :: u16
  rr_match_id :: bytes
  rr_expected_peer_fingerprint :: bytes
  rr_credentials :: ice_credential_exchange
  rr_candidates :: candidate_exchange

definition REGISTRATION_VERSION :: u8 where
  "REGISTRATION_VERSION = 1"

definition REGISTRATION_HEADER_LEN :: nat where
  "REGISTRATION_HEADER_LEN = 68"

definition MIN_TTL_SECONDS :: u16 where
  "MIN_TTL_SECONDS = 5"

definition MAX_TTL_SECONDS :: u16 where
  "MAX_TTL_SECONDS = 120"

definition MAX_REGISTRATION_LEN :: nat where
  "MAX_REGISTRATION_LEN = 4 * 1024"

definition roles_match :: "rendezvous_role \<Rightarrow> ice_credential_role \<Rightarrow> bool" where
  "roles_match r c \<longleftrightarrow> (r, c) = (RrInitiator, CrControlling) \<or> (r, c) = (RrResponder, CrControlled)"

definition validate_registration :: "rendezvous_registration \<Rightarrow> protocol_error + unit" where
  "validate_registration r =
     (if rr_version r \<noteq> REGISTRATION_VERSION then Err (Framing (UnsupportedVersion (rr_version r)))
      else if rr_generation r = 0
          \<or> \<not> (MIN_TTL_SECONDS \<le> rr_ttl_seconds r \<and> rr_ttl_seconds r \<le> MAX_TTL_SECONDS)
          \<or> rr_match_id r = replicate 16 0 \<or> rr_expected_peer_fingerprint r = replicate 32 0
          \<or> ce_generation (rr_credentials r) \<noteq> rr_generation r
          \<or> cx_generation (rr_candidates r) \<noteq> rr_generation r
          \<or> ce_exchange_id (rr_credentials r) \<noteq> cx_exchange_id (rr_candidates r)
          \<or> \<not> roles_match (rr_role r) (ce_role (rr_credentials r))
        then Err (Service InvalidRendezvousRegistration)
      else and_then (validate_credentials (rr_credentials r)) (\<lambda>_.
        and_then (encode_exchange (rr_candidates r)) (\<lambda>_. Ok ())))"

definition registration_header :: "rendezvous_registration \<Rightarrow> nat \<Rightarrow> nat \<Rightarrow> bytes" where
  "registration_header r credentials_len candidates_len =
     [rr_version r, rendezvous_role_code (rr_role r), 0, 0] @ to_be_bytes (rr_generation r)
     @ to_be_bytes (rr_ttl_seconds r) @ [0, 0] @ rr_match_id r @ rr_expected_peer_fingerprint r
     @ to_be_bytes (of_nat credentials_len :: u32) @ to_be_bytes (of_nat candidates_len :: u32)"

definition encode_registration :: "rendezvous_registration \<Rightarrow> protocol_error + bytes" where
  "encode_registration r = and_then (validate_registration r) (\<lambda>_.
     and_then (encode_credentials (rr_credentials r)) (\<lambda>credentials.
     and_then (encode_exchange (rr_candidates r)) (\<lambda>candidates.
       let total = REGISTRATION_HEADER_LEN + length credentials + length candidates in
       if total > MAX_REGISTRATION_LEN then Err (Service (RendezvousLength total))
       else Ok (registration_header r (length credentials) (length candidates)
              @ credentials @ candidates))))"

definition decode_registration :: "bytes \<Rightarrow> protocol_error + rendezvous_registration" where
  "decode_registration bs =
     (if length bs > MAX_REGISTRATION_LEN then Err (Service (RendezvousLength (length bs)))
      else if length bs < REGISTRATION_HEADER_LEN
        then Err (Framing (Truncated REGISTRATION_HEADER_LEN (length bs)))
      else if slice 2 2 bs \<noteq> [0, 0] \<or> slice 10 2 bs \<noteq> [0, 0] then Err (Framing ReservedBits)
      else let credentials_len = unat (read_u32 bs 60); candidates_len = unat (read_u32 bs 64);
               expected = REGISTRATION_HEADER_LEN + credentials_len + candidates_len;
               credentials_end = REGISTRATION_HEADER_LEN + credentials_len in
        if expected \<noteq> length bs then Err (Framing (PayloadLength expected (length bs)))
        else and_then (rendezvous_role_try_from (bs ! 1)) (\<lambda>role.
          and_then (decode_credentials (slice REGISTRATION_HEADER_LEN credentials_len bs)) (\<lambda>credentials.
          and_then (decode_exchange (drop credentials_end bs)) (\<lambda>candidates.
            let r = \<lparr>rr_version = bs ! 0, rr_role = role, rr_generation = read_u32 bs 4,
                  rr_ttl_seconds = read_u16 bs 8, rr_match_id = slice 12 16 bs,
                  rr_expected_peer_fingerprint = slice 28 32 bs, rr_credentials = credentials,
                  rr_candidates = candidates\<rparr>
            in and_then (validate_registration r) (\<lambda>_. Ok r)))))"

section \<open>Relay envelopes\<close>

definition RELAY_MAGIC :: bytes where
  "RELAY_MAGIC = [0x4C, 0x44, 0x52, 0x4C]"

definition RELAY_HEADER_LEN :: nat where
  "RELAY_HEADER_LEN = 52"

definition MAX_RELAY_PAYLOAD_BYTES :: u32 where
  "MAX_RELAY_PAYLOAD_BYTES = 64 * 1024"

definition RELAY_FLAGS_KNOWN :: u16 where
  "RELAY_FLAGS_KNOWN = push_bit 0 1 OR push_bit 1 1 OR push_bit 2 1 OR push_bit 3 1"

record relay_header =
  rh_version :: u8
  rh_provider :: relay_provider
  rh_flags :: u16
  rh_relay_session_id :: u64
  rh_source_peer_id :: bytes
  rh_target_peer_id :: bytes
  rh_payload_len :: u32

definition validate_relay_header :: "relay_header \<Rightarrow> protocol_error + unit" where
  "validate_relay_header h =
     (if rh_version h \<noteq> WIRE_VERSION then Err (Framing (UnsupportedVersion (rh_version h)))
      else if rh_provider h = RpNone \<or> rh_flags h AND NOT RELAY_FLAGS_KNOWN \<noteq> 0
          \<or> rh_relay_session_id h = 0 \<or> rh_source_peer_id h = replicate 16 0
          \<or> rh_target_peer_id h = replicate 16 0 \<or> rh_source_peer_id h = rh_target_peer_id h
        then Err (Candidate InvalidRelayHeader)
      else if rh_payload_len h > MAX_RELAY_PAYLOAD_BYTES
        then Err (Framing (ControlLength (rh_payload_len h)))
      else Ok ())"

definition relay_header_bytes :: "relay_header \<Rightarrow> bytes" where
  "relay_header_bytes h = RELAY_MAGIC @ [rh_version h, relay_provider_code (rh_provider h)]
     @ to_be_bytes (rh_flags h) @ to_be_bytes (rh_relay_session_id h) @ rh_source_peer_id h
     @ rh_target_peer_id h @ to_be_bytes (rh_payload_len h)"

definition encode_relay_header :: "relay_header \<Rightarrow> protocol_error + bytes" where
  "encode_relay_header h = and_then (validate_relay_header h) (\<lambda>_. Ok (relay_header_bytes h))"

definition decode_relay_header :: "bytes \<Rightarrow> protocol_error + relay_header" where
  "decode_relay_header bs =
     (if length bs < RELAY_HEADER_LEN then Err (Framing (Truncated RELAY_HEADER_LEN (length bs)))
      else if slice 0 4 bs \<noteq> RELAY_MAGIC then Err (Framing BadMagic)
      else if bs ! 4 \<noteq> WIRE_VERSION then Err (Framing (UnsupportedVersion (bs ! 4)))
      else and_then (relay_provider_try_from (bs ! 5)) (\<lambda>provider.
        let h = \<lparr>rh_version = bs ! 4, rh_provider = provider, rh_flags = read_u16 bs 6,
              rh_relay_session_id = read_u64 bs 8, rh_source_peer_id = slice 16 16 bs,
              rh_target_peer_id = slice 32 16 bs, rh_payload_len = read_u32 bs 48\<rparr>
        in and_then (validate_relay_header h) (\<lambda>_. Ok h)))"

record relay_packet =
  rp_header :: relay_header
  rp_payload :: bytes

definition decode_relay_packet :: "bytes \<Rightarrow> protocol_error + relay_packet" where
  "decode_relay_packet bs = and_then (decode_relay_header bs) (\<lambda>h.
     let expected = RELAY_HEADER_LEN + unat (rh_payload_len h) in
     if length bs \<noteq> expected then Err (Framing (PayloadLength expected (length bs)))
     else Ok \<lparr>rp_header = h, rp_payload = drop RELAY_HEADER_LEN bs\<rparr>)"

definition encode_relay_packet :: "relay_header \<Rightarrow> bytes \<Rightarrow> protocol_error + bytes" where
  "encode_relay_packet h payload =
     (if length payload \<noteq> unat (rh_payload_len h)
        then Err (Framing (PayloadLength (unat (rh_payload_len h)) (length payload)))
      else and_then (encode_relay_header h) (\<lambda>encoded. Ok (encoded @ payload)))"

section \<open>Candidates: agreement of encoder and decoder\<close>

lemma candidate_type_inverse [wire_simps]: "candidate_type_try_from (candidate_type_code t) = Ok t"
  by (cases t) (simp_all add: candidate_type_try_from_def)

lemma candidate_type_Ok: "candidate_type_try_from b = Ok t \<longleftrightarrow> b = candidate_type_code t"
  by (cases t) (auto simp: candidate_type_try_from_def)

lemma transport_protocol_inverse [wire_simps]:
  "transport_protocol_try_from (transport_protocol_code t) = Ok t"
  by (cases t) (simp_all add: transport_protocol_try_from_def)

lemma transport_protocol_Ok: "transport_protocol_try_from b = Ok t \<longleftrightarrow> b = transport_protocol_code t"
  by (cases t) (auto simp: transport_protocol_try_from_def)

lemma relay_provider_inverse [wire_simps]: "relay_provider_try_from (relay_provider_code p) = Ok p"
  by (cases p) (simp_all add: relay_provider_try_from_def)

lemma relay_provider_Ok: "relay_provider_try_from b = Ok p \<longleftrightarrow> b = relay_provider_code p"
  by (cases p) (auto simp: relay_provider_try_from_def)

fun wf_ip :: "wire_ip_addr \<Rightarrow> bool" where
  "wf_ip (V4 v4) \<longleftrightarrow> length v4 = 4"
| "wf_ip (V6 v6) \<longleftrightarrow> length v6 = 16"

definition wf_candidate :: "ice_candidate \<Rightarrow> bool" where
  "wf_candidate c \<longleftrightarrow> length (ic_foundation c) = 8 \<and> wf_ip (ic_ip c)
     \<and> (case ic_related_address c of None \<Rightarrow> True | Some (ip, _) \<Rightarrow> wf_ip ip)"

lemma slice_Suc: "k < length xs \<Longrightarrow> slice k (Suc n) xs = xs ! k # slice (Suc k) n xs"
  by (simp add: slice_def Cons_nth_drop_Suc [symmetric])

text \<open>A field is what lies between the old and the new cursor.\<close>

lemma decode_ip_iff:
  assumes "k < length bs"
  shows "decode_ip bs k = Ok (ip, k') \<longleftrightarrow> wf_ip ip \<and> k' = k + length (ip_bytes ip)
    \<and> k' \<le> length bs \<and> slice k (length (ip_bytes ip)) bs = ip_bytes ip"
  using assms by (cases ip) (auto simp: decode_ip_def Let_def slice_Suc)

lemma u16_from_to_be [simp]: "from_be_bytes (to_be_bytes w) = w" for w :: u16
  by simp

lemma read_u16_eq_iff: "k + 2 \<le> length bs \<Longrightarrow> read_u16 bs k = p \<longleftrightarrow> slice k 2 bs = to_be_bytes p"
  by (metis to_be_read_u16 u16_from_to_be)

lemma related_field:
  assumes "k + (m + 3) \<le> length bs" and "length v = m" and "n = m + 3"
  shows "slice k n bs = t # v @ to_be_bytes (p :: u16) \<longleftrightarrow>
    bs ! k = t \<and> slice (k + 1) m bs = v \<and> read_u16 bs (k + 1 + m) = p"
proof -
  have "n = sum_list [1, m, 2]"
    using assms(3) by simp
  then have "slice k n bs = concat (cut_fields k [1, m, 2] bs)"
    unfolding concat_fields by (rule arg_cong)
  then have "slice k n bs = slice k 1 bs @ slice (k + 1) m bs @ slice (k + 1 + m) 2 bs"
    by simp
  moreover have "slice k 1 bs = [bs ! k]"
    using assms(1) by (simp add: slice_1)
  moreover have "length (slice (k + 1) m bs) = m"
    using assms(1) by simp
  ultimately show ?thesis
    using assms(1,2) by (simp add: read_u16_eq_iff)
qed

lemma decode_related_iff:
  assumes "k \<le> length bs"
  shows "decode_related bs k = Ok (rel, k') \<longleftrightarrow>
    (case rel of None \<Rightarrow> True | Some (ip, _) \<Rightarrow> wf_ip ip) \<and> k' = k + length (related_bytes rel)
    \<and> k' \<le> length bs \<and> slice k (length (related_bytes rel)) bs = related_bytes rel"
proof (cases rel)
  case None
  have "slice k (Suc 0) bs = [0] \<longleftrightarrow> bs ! k = 0" if "k < length bs"
    using that by (simp add: slice_1)
  then show ?thesis
    using assms None by (auto simp: decode_related_def Let_def)
next
  case (Some ip_port)
  then obtain ip p where rel: "rel = Some (ip, p)"
    by (cases ip_port) simp
  show ?thesis
  proof (cases ip)
    case (V4 v)
    have dec: "decode_related bs k = Ok (rel, k') \<longleftrightarrow> 7 + k \<le> length bs \<and> bs ! k = 4
        \<and> slice (Suc k) 4 bs = v \<and> read_u16 bs (5 + k) = p \<and> k' = 7 + k"
      by (auto simp: decode_related_def Let_def rel V4)
    have wf: "(case rel of None \<Rightarrow> True | Some (ip, _) \<Rightarrow> wf_ip ip) \<longleftrightarrow> length v = 4"
      by (simp add: rel V4)
    show ?thesis
    proof (cases "length v = 4 \<and> 7 + k \<le> length bs")
      case True
      then have len: "length (related_bytes rel) = 7"
        by (simp add: rel V4)
      have field: "slice k 7 bs = related_bytes rel \<longleftrightarrow>
          bs ! k = 4 \<and> slice (Suc k) 4 bs = v \<and> read_u16 bs (5 + k) = p"
      proof -
        have "k + (4 + 3) \<le> length bs" "length v = 4" "(7 :: nat) = 4 + 3"
          and pos: "k + 1 = Suc k" "Suc k + 4 = 5 + k"
          using True by simp_all
        from related_field [OF this(1-3), of 4 p] show ?thesis
          unfolding pos by (simp only: rel V4 related_bytes.simps ip_bytes.simps append_Cons)
      qed
      show ?thesis
        unfolding dec wf len field using True by (auto simp: add.commute)
    next
      case False
      then have "\<not> (7 + k \<le> length bs \<and> slice (Suc k) 4 bs = v)"
        using length_slice [of "Suc k" 4 bs] by auto
      moreover have "length (related_bytes rel) = 7" if "length v = 4"
        using that by (simp add: rel V4)
      ultimately show ?thesis
        unfolding dec wf using False by (metis add.commute)
    qed
  next
    case (V6 v)
    have dec: "decode_related bs k = Ok (rel, k') \<longleftrightarrow> 19 + k \<le> length bs \<and> bs ! k = 6
        \<and> slice (Suc k) 16 bs = v \<and> read_u16 bs (17 + k) = p \<and> k' = 19 + k"
      by (auto simp: decode_related_def Let_def rel V6)
    have wf: "(case rel of None \<Rightarrow> True | Some (ip, _) \<Rightarrow> wf_ip ip) \<longleftrightarrow> length v = 16"
      by (simp add: rel V6)
    show ?thesis
    proof (cases "length v = 16 \<and> 19 + k \<le> length bs")
      case True
      then have len: "length (related_bytes rel) = 19"
        by (simp add: rel V6)
      have field: "slice k 19 bs = related_bytes rel \<longleftrightarrow>
          bs ! k = 6 \<and> slice (Suc k) 16 bs = v \<and> read_u16 bs (17 + k) = p"
      proof -
        have "k + (16 + 3) \<le> length bs" "length v = 16" "(19 :: nat) = 16 + 3"
          and pos: "k + 1 = Suc k" "Suc k + 16 = 17 + k"
          using True by simp_all
        from related_field [OF this(1-3), of 6 p] show ?thesis
          unfolding pos by (simp only: rel V6 related_bytes.simps ip_bytes.simps append_Cons)
      qed
      show ?thesis
        unfolding dec wf len field using True by (auto simp: add.commute)
    next
      case False
      then have "\<not> (19 + k \<le> length bs \<and> slice (Suc k) 16 bs = v)"
        using length_slice [of "Suc k" 16 bs] by auto
      moreover have "length (related_bytes rel) = 19" if "length v = 16"
        using that by (simp add: rel V6)
      ultimately show ?thesis
        unfolding dec wf using False by (metis add.commute)
    qed
  qed
qed

definition candidate_fixed :: "ice_candidate \<Rightarrow> bytes" where
  "candidate_fixed c = ic_foundation c @ [ic_component c, transport_protocol_code (ic_transport c),
      candidate_type_code (ic_candidate_type c), relay_provider_code (ic_relay_provider c)]
     @ to_be_bytes (ic_priority c) @ to_be_bytes (ic_port c)"

lemma candidate_bytes_split:
  "candidate_bytes c = candidate_fixed c @ ip_bytes (ic_ip c) @ related_bytes (ic_related_address c)"
  by (simp add: candidate_bytes_def candidate_fixed_def)

lemma candidate_fixed_iff:
  assumes "18 \<le> length bs"
  shows "slice 0 18 bs = candidate_fixed c \<and> length (ic_foundation c) = 8 \<longleftrightarrow>
    slice 0 8 bs = ic_foundation c \<and> bs ! 8 = ic_component c
    \<and> bs ! 9 = transport_protocol_code (ic_transport c)
    \<and> bs ! 10 = candidate_type_code (ic_candidate_type c)
    \<and> bs ! 11 = relay_provider_code (ic_relay_provider c)
    \<and> read_u32 bs 12 = ic_priority c \<and> read_u16 bs 16 = ic_port c"
    (is "?l \<longleftrightarrow> ?r")
proof -
  have cut: "slice 0 18 bs = slice 0 8 bs @ [bs ! 8, bs ! 9, bs ! 10, bs ! 11]
      @ to_be_bytes (read_u32 bs 12) @ to_be_bytes (read_u16 bs 16)"
  proof -
    have "slice 0 18 bs = concat (cut_fields 0 [8, 1, 1, 1, 1, 4, 2] bs)"
      unfolding concat_fields by simp
    then show ?thesis
      using assms by (simp add: slice_1 to_be_read)
  qed
  show ?thesis
  proof
    assume ?r
    then show ?l
      using assms length_slice [of 0 8 bs] unfolding cut candidate_fixed_def by auto
  next
    assume l: ?l
    then have "slice 0 8 bs @ [bs ! 8, bs ! 9, bs ! 10, bs ! 11]
        @ to_be_bytes (read_u32 bs 12) @ to_be_bytes (read_u16 bs 16) = candidate_fixed c"
      using cut by simp
    moreover have "length (slice 0 8 bs) = length (ic_foundation c)"
      using l assms by simp
    ultimately show ?r
      using from_be_to_be [of "ic_priority c"] from_be_to_be [of "read_u32 bs 12"]
        from_be_to_be [of "ic_port c"] from_be_to_be [of "read_u16 bs 16"]
      unfolding candidate_fixed_def by auto
  qed
qed

lemma ip_bytes_pos: "0 < length (ip_bytes ip)"
  by (cases ip) simp_all

lemma related_bytes_pos: "0 < length (related_bytes rel)"
  by (cases rel rule: related_bytes.cases) simp_all

lemma decode_candidate_iff:
  "decode_candidate bs = Ok c \<longleftrightarrow>
     wf_candidate c \<and> validate_candidate c = Ok () \<and> bs = candidate_bytes c"
proof
  assume "decode_candidate bs = Ok c"
  then obtain t ct p ip c1 rel c2 where len: "\<not> length bs < 19"
    and t: "bs ! 9 = transport_protocol_code t" and ct: "bs ! 10 = candidate_type_code ct"
    and p: "bs ! 11 = relay_provider_code p" and ip: "decode_ip bs 18 = Ok (ip, c1)"
    and rel: "decode_related bs c1 = Ok (rel, c2)" and c2: "c2 = length bs"
    and c: "c = \<lparr>ic_foundation = slice 0 8 bs, ic_component = bs ! 8, ic_transport = t,
               ic_priority = read_u32 bs 12, ic_candidate_type = ct, ic_relay_provider = p,
               ic_ip = ip, ic_port = read_u16 bs 16, ic_related_address = rel\<rparr>"
    and valid: "validate_candidate c = Ok ()"
    by (auto simp: decode_candidate_def Let_def transport_protocol_Ok candidate_type_Ok
        relay_provider_Ok split: if_splits)
  have ip': "wf_ip ip" "c1 = 18 + length (ip_bytes ip)" "c1 \<le> length bs"
    "slice 18 (length (ip_bytes ip)) bs = ip_bytes ip"
    using ip len by (simp_all add: decode_ip_iff)
  have rel': "case rel of None \<Rightarrow> True | Some (ip, _) \<Rightarrow> wf_ip ip" "c2 = c1 + length (related_bytes rel)"
    "slice c1 (length (related_bytes rel)) bs = related_bytes rel"
    using rel ip'(3) by (simp_all add: decode_related_iff)
  have fixed: "slice 0 18 bs = candidate_fixed c \<and> length (ic_foundation c) = 8"
    using len t ct p by (subst candidate_fixed_iff) (simp_all add: c)
  have "bs = take (length bs) bs" by simp
  also have "\<dots> = concat (cut_fields 0 [18, length (ip_bytes ip), length (related_bytes rel)] bs)"
    by (rule take_fields) (use c2 rel'(2) ip'(2) in simp)
  also have "\<dots> = candidate_bytes c"
    using fixed ip'(2,4) rel'(3) by (simp add: candidate_bytes_split) (simp add: c)
  finally show "wf_candidate c \<and> validate_candidate c = Ok () \<and> bs = candidate_bytes c"
    using valid fixed ip'(1) rel'(1) by (simp add: wf_candidate_def) (simp add: c)
next
  assume r: "wf_candidate c \<and> validate_candidate c = Ok () \<and> bs = candidate_bytes c"
  let ?ip = "ip_bytes (ic_ip c)" and ?rel = "related_bytes (ic_related_address c)"
  have wf: "length (ic_foundation c) = 8" "wf_ip (ic_ip c)"
    "case ic_related_address c of None \<Rightarrow> True | Some (ip, _) \<Rightarrow> wf_ip ip"
    and bs: "bs = candidate_fixed c @ ?ip @ ?rel"
    using r by (simp_all add: wf_candidate_def candidate_bytes_split)
  have f18: "length (candidate_fixed c) = 18"
    using wf(1) by (simp add: candidate_fixed_def)
  have pos: "0 < length ?ip" "0 < length ?rel"
    by (rule ip_bytes_pos related_bytes_pos)+
  have "slice 0 18 bs = candidate_fixed c"
    using f18 by (simp add: bs wire_simps)
  then have fields: "slice 0 8 bs = ic_foundation c" "bs ! 8 = ic_component c"
    "bs ! 9 = transport_protocol_code (ic_transport c)"
    "bs ! 10 = candidate_type_code (ic_candidate_type c)"
    "bs ! 11 = relay_provider_code (ic_relay_provider c)"
    "read_u32 bs 12 = ic_priority c" "read_u16 bs 16 = ic_port c"
    using candidate_fixed_iff [of bs c] wf(1) f18 by (simp_all add: bs)
  have "decode_ip bs 18 = Ok (ic_ip c, 18 + length ?ip)"
    using wf(2) f18 pos by (subst decode_ip_iff) (simp_all add: bs wire_simps)
  moreover have "decode_related bs (18 + length ?ip) = Ok (ic_related_address c, length bs)"
    using wf(3) f18 by (subst decode_related_iff) (simp_all add: bs wire_simps)
  moreover have "\<not> length bs < 19"
    using f18 pos by (simp add: bs)
  moreover have eta: "\<lparr>ic_foundation = ic_foundation c, ic_component = ic_component c,
      ic_transport = ic_transport c, ic_priority = ic_priority c,
      ic_candidate_type = ic_candidate_type c, ic_relay_provider = ic_relay_provider c,
      ic_ip = ic_ip c, ic_port = ic_port c, ic_related_address = ic_related_address c\<rparr> = c"
    by simp
  ultimately show "decode_candidate bs = Ok c"
    using r fields by (simp add: decode_candidate_def Let_def wire_simps eta)
qed

lemma candidate_bytes_length: "wf_candidate c \<Longrightarrow> 20 \<le> length (candidate_bytes c) \<and> length (candidate_bytes c) \<le> 54"
  by (cases "ic_ip c"; cases "ic_related_address c")
    (auto simp: candidate_bytes_def wf_candidate_def elim!: wf_ip.elims split: prod.splits)

section \<open>Exchanges: agreement of encoder and decoder\<close>

definition framed :: "ice_candidate list \<Rightarrow> bytes" where
  "framed cs = concat (map (\<lambda>c. to_be_bytes (of_nat (length (candidate_bytes c)) :: u16)
     @ candidate_bytes c) cs)"

lemma framed_simps [simp]:
  "framed [] = []"
  "framed (c # cs) = to_be_bytes (of_nat (length (candidate_bytes c)) :: u16)
     @ candidate_bytes c @ framed cs"
  by (simp_all add: framed_def)

lemma slice_append_iff:
  assumes "k + (length xs + length ys) \<le> length bs"
  shows "slice k (length xs + length ys) bs = xs @ ys \<longleftrightarrow>
    slice k (length xs) bs = xs \<and> slice (k + length xs) (length ys) bs = ys"
  using assms by (simp add: append_eq_append_conv flip: slice_join)

lemma read_u16_length_iff:
  assumes "k + 2 \<le> length bs" and "n < 65536"
  shows "slice k 2 bs = to_be_bytes (of_nat n :: u16) \<longleftrightarrow> unat (read_u16 bs k) = n"
proof -
  have "slice k 2 bs = to_be_bytes (of_nat n :: u16) \<longleftrightarrow> read_u16 bs k = of_nat n"
    using assms(1) by (simp add: read_u16_eq_iff)
  also have "\<dots> \<longleftrightarrow> unat (read_u16 bs k) = n"
    using assms(2) by (simp add: word_unat_eq_iff unat_of_nat_small)
  finally show ?thesis .
qed

text \<open>One framed candidate, then the rest.\<close>

lemma framed_Cons_iff:
  assumes "wf_candidate c" and "k + length (framed (c # cs)) \<le> length bs"
  defines "n \<equiv> length (candidate_bytes c)"
  shows "slice k (length (framed (c # cs))) bs = framed (c # cs) \<longleftrightarrow>
    unat (read_u16 bs k) = n \<and> slice (k + 2) n bs = candidate_bytes c
    \<and> slice (k + 2 + n) (length (framed cs)) bs = framed cs"
proof -
  let ?h = "to_be_bytes (of_nat n :: u16)"
  have f: "framed (c # cs) = ?h @ (candidate_bytes c @ framed cs)"
    by (simp add: n_def)
  have len: "k + (length ?h + length (candidate_bytes c @ framed cs)) \<le> length bs"
    "k + 2 + (length (candidate_bytes c) + length (framed cs)) \<le> length bs"
    using assms(2) unfolding f by simp_all
  have n: "n < 65536"
    using candidate_bytes_length [OF assms(1)] by (simp add: n_def)
  have "slice k (length (framed (c # cs))) bs = framed (c # cs) \<longleftrightarrow>
      slice k 2 bs = ?h \<and> slice (k + 2) (length (candidate_bytes c @ framed cs)) bs = candidate_bytes c @ framed cs"
    unfolding f length_append [of ?h] slice_append_iff [OF len(1)] by simp
  also have "\<dots> \<longleftrightarrow> unat (read_u16 bs k) = n \<and> slice (k + 2) n bs = candidate_bytes c
    \<and> slice (k + 2 + n) (length (framed cs)) bs = framed cs"
    unfolding length_append slice_append_iff [OF len(2)]
    using read_u16_length_iff [OF _ n, of k bs] len(2) by (simp add: n_def)
  finally show ?thesis .
qed

lemma decode_candidates_iff:
  "k \<le> length bs \<Longrightarrow> decode_candidates n bs k = Ok (cs, k') \<longleftrightarrow> length cs = n
     \<and> (\<forall>c\<in>set cs. wf_candidate c \<and> validate_candidate c = Ok ())
     \<and> k' = k + length (framed cs) \<and> k' \<le> length bs
     \<and> slice k (length (framed cs)) bs = framed cs"
proof (induction n arbitrary: k cs)
  case 0
  then show ?case by (auto simp: slice_def)
next
  case (Suc n)
  let ?len = "unat (read_u16 bs k)"
  show ?case
  proof
    assume "decode_candidates (Suc n) bs k = Ok (cs, k')"
    then obtain c ds where fit: "\<not> length bs < k + 2" "\<not> k + 2 + ?len > length bs"
      and c: "decode_candidate (slice (k + 2) ?len bs) = Ok c"
      and ds: "decode_candidates n bs (k + 2 + ?len) = Ok (ds, k')" and cs: "cs = c # ds"
      by (auto simp: Let_def split: if_splits)
    have c': "wf_candidate c" "validate_candidate c = Ok ()" "slice (k + 2) ?len bs = candidate_bytes c"
      using c by (simp_all add: decode_candidate_iff)
    have n: "length (candidate_bytes c) = ?len"
      using fit c'(3) [symmetric] by simp
    have "length ds = n" "\<forall>c\<in>set ds. wf_candidate c \<and> validate_candidate c = Ok ()"
      "k' = k + 2 + ?len + length (framed ds)" "k' \<le> length bs"
      "slice (k + 2 + ?len) (length (framed ds)) bs = framed ds"
      using ds fit Suc.IH [of "k + 2 + ?len" ds] by simp_all
    then show "length cs = Suc n \<and> (\<forall>c\<in>set cs. wf_candidate c \<and> validate_candidate c = Ok ())
        \<and> k' = k + length (framed cs) \<and> k' \<le> length bs \<and> slice k (length (framed cs)) bs = framed cs"
      using c' cs n framed_Cons_iff [OF c'(1), of k ds bs] by simp
  next
    assume r: "length cs = Suc n \<and> (\<forall>c\<in>set cs. wf_candidate c \<and> validate_candidate c = Ok ())
        \<and> k' = k + length (framed cs) \<and> k' \<le> length bs \<and> slice k (length (framed cs)) bs = framed cs"
    then obtain c ds where cs: "cs = c # ds" and len: "length ds = n"
      by (cases cs) auto
    have wf: "wf_candidate c" "validate_candidate c = Ok ()"
      "\<forall>c\<in>set ds. wf_candidate c \<and> validate_candidate c = Ok ()"
      and fit: "k + length (framed (c # ds)) \<le> length bs"
      using r cs by simp_all
    have "?len = length (candidate_bytes c)" "slice (k + 2) ?len bs = candidate_bytes c"
      "slice (k + 2 + ?len) (length (framed ds)) bs = framed ds"
      using r cs framed_Cons_iff [OF wf(1) fit] by metis+
    moreover have "decode_candidate (candidate_bytes c) = Ok c"
      using wf by (simp add: decode_candidate_iff)
    moreover have "\<not> length bs < k + 2" "\<not> k + 2 + ?len > length bs"
      using fit \<open>?len = length (candidate_bytes c)\<close> by simp_all
    moreover have "decode_candidates n bs (k + 2 + ?len) = Ok (ds, k')"
      using Suc.IH [of "k + 2 + ?len" ds] wf(3) len r cs fit calculation(1,3) by simp
    ultimately show "decode_candidates (Suc n) bs k = Ok (cs, k')"
      unfolding decode_candidates.simps Let_def by (simp add: cs)
  qed
qed

lemma encode_candidates_iff:
  "encode_candidates cs = Ok bs \<longleftrightarrow> list_all (\<lambda>c. validate_candidate c = Ok ()) cs \<and> bs = framed cs"
  by (induction cs arbitrary: bs) (auto simp: encode_candidate_def)

lemma validate_candidates_all:
  "validate_candidates fam prior cs = Ok () \<Longrightarrow> list_all (\<lambda>c. validate_candidate c = Ok ()) cs"
  by (induction cs arbitrary: prior) (auto split: if_splits)

lemma framed_length: "\<forall>c\<in>set cs. wf_candidate c \<Longrightarrow> length (framed cs) \<le> 56 * length cs"
proof (induction cs)
  case (Cons c cs)
  then show ?case
    using candidate_bytes_length [of c] by simp
qed simp

definition wf_exchange :: "candidate_exchange \<Rightarrow> bool" where
  "wf_exchange x \<longleftrightarrow> (\<forall>c\<in>set (cx_candidates x). wf_candidate c)"

definition exchange_bytes :: "candidate_exchange \<Rightarrow> bytes" where
  "exchange_bytes x = [cx_version x] @ to_be_bytes (cx_exchange_id x) @ to_be_bytes (cx_generation x)
     @ [of_nat (length (cx_candidates x))] @ framed (cx_candidates x)"

lemma validate_exchange_Ok:
  assumes "validate_exchange x = Ok ()"
  shows "cx_version x = EXCHANGE_VERSION" "0 < length (cx_candidates x)"
    "length (cx_candidates x) \<le> MAX_EXCHANGE_CANDIDATES"
    "list_all (\<lambda>c. validate_candidate c = Ok ()) (cx_candidates x)"
  using assms validate_candidates_all by (auto simp: validate_exchange_def split: if_splits)

lemma encode_exchange_iff:
  assumes "wf_exchange x"
  shows "encode_exchange x = Ok bs \<longleftrightarrow> validate_exchange x = Ok () \<and> bs = exchange_bytes x"
proof -
  have "\<not> length (exchange_bytes x) > unat MAX_CONTROL_BYTES" if "validate_exchange x = Ok ()"
    using framed_length [of "cx_candidates x"] validate_exchange_Ok(3) [OF that] assms
    by (simp add: exchange_bytes_def wf_exchange_def MAX_CONTROL_BYTES_def MAX_EXCHANGE_CANDIDATES_def)
  then show ?thesis
    using validate_exchange_Ok(4) [of x]
    by (auto simp: encode_exchange_def encode_candidates_iff exchange_bytes_def Let_def)
qed

lemma exchange_header_read:
  assumes "14 \<le> length bs"
  shows "slice 0 14 bs = [bs ! 0] @ to_be_bytes (read_u64 bs 1) @ to_be_bytes (read_u32 bs 9) @ [bs ! 13]"
proof -
  have "slice 0 14 bs = concat (cut_fields 0 [1, 8, 4, 1] bs)"
    unfolding concat_fields by simp
  moreover have "slice 0 (Suc 0) bs = [bs ! 0]"
    using assms by (intro slice_1) linarith
  ultimately show ?thesis
    using assms by (simp add: slice_1 to_be_read)
qed

lemma decode_exchange_iff:
  "decode_exchange bs = Ok x \<longleftrightarrow> wf_exchange x \<and> encode_exchange x = Ok bs"
proof
  assume "decode_exchange bs = Ok x"
  then obtain cs k where len: "14 \<le> length bs"
    and cs: "decode_candidates (unat (bs ! 13)) bs 14 = Ok (cs, k)" "k = length bs"
    and x: "x = \<lparr>cx_version = bs ! 0, cx_exchange_id = read_u64 bs 1,
                 cx_generation = read_u32 bs 9, cx_candidates = cs\<rparr>"
    and valid: "validate_exchange x = Ok ()"
    by (auto simp: decode_exchange_def Let_def EXCHANGE_HEADER_LEN_def split: if_splits)
  have d: "length cs = unat (bs ! 13)" "\<forall>c\<in>set cs. wf_candidate c \<and> validate_candidate c = Ok ()"
    "length bs = 14 + length (framed cs)" "slice 14 (length (framed cs)) bs = framed cs"
    using cs decode_candidates_iff [OF len, of "unat (bs ! 13)" cs k] by simp_all
  have wf: "wf_exchange x"
    using d(2) by (simp add: wf_exchange_def x)
  have "bs = take (length bs) bs" by simp
  also have "\<dots> = concat (cut_fields 0 [14, length (framed cs)] bs)"
    by (rule take_fields) (simp add: d(3))
  also have "\<dots> = exchange_bytes x"
    using d(1,4) by (simp add: exchange_header_read [OF len] exchange_bytes_def x)
  finally show "wf_exchange x \<and> encode_exchange x = Ok bs"
    using wf valid by (simp add: encode_exchange_iff)
next
  assume r: "wf_exchange x \<and> encode_exchange x = Ok bs"
  then have wf: "\<forall>c\<in>set (cx_candidates x). wf_candidate c" and valid: "validate_exchange x = Ok ()"
    and bs: "bs = exchange_bytes x"
    using encode_exchange_iff [of x bs] by (simp_all add: wf_exchange_def)
  note ok = validate_exchange_Ok [OF valid]
  have count: "unat (of_nat (length (cx_candidates x)) :: u8) = length (cx_candidates x)"
    using ok(3) by (simp add: unat_of_nat_small MAX_EXCHANGE_CANDIDATES_def)
  have fields: "bs ! 0 = cx_version x" "read_u64 bs 1 = cx_exchange_id x"
    "read_u32 bs 9 = cx_generation x" "bs ! 13 = of_nat (length (cx_candidates x))"
    "length bs = 14 + length (framed (cx_candidates x))"
    "slice 14 (length (framed (cx_candidates x))) bs = framed (cx_candidates x)"
    by (simp_all add: bs exchange_bytes_def read_u64_def read_u32_def wire_simps nth_append)
  have "decode_candidates (length (cx_candidates x)) bs 14 = Ok (cx_candidates x, length bs)"
    using wf ok(4) fields(5,6) by (subst decode_candidates_iff) (auto simp: list_all_iff)
  moreover have "\<not> length bs > unat MAX_CONTROL_BYTES"
    using framed_length [OF wf] ok(3) fields(5)
    by (simp add: MAX_CONTROL_BYTES_def MAX_EXCHANGE_CANDIDATES_def)
  moreover have eta: "\<lparr>cx_version = EXCHANGE_VERSION, cx_exchange_id = cx_exchange_id x,
      cx_generation = cx_generation x, cx_candidates = cx_candidates x\<rparr> = x"
    using ok(1) by (cases x) simp
  ultimately show "decode_exchange bs = Ok x"
    using fields count ok valid
    by (simp add: decode_exchange_def Let_def EXCHANGE_HEADER_LEN_def eta)
qed

lemma slice_tail: "drop k bs = xs @ ys \<Longrightarrow> slice k (length xs) bs = xs"
  by (simp add: slice_def)

lemma drop_tail: "drop k bs = xs @ ys \<Longrightarrow> drop (k + length xs) bs = ys"
  by (metis add.commute append_eq_conv_conj drop_drop)

section \<open>Credentials: agreement of encoder and decoder\<close>

lemma ice_credential_role_inverse [wire_simps]:
  "ice_credential_role_try_from (ice_credential_role_code r) = Ok r"
  by (cases r) (simp_all add: ice_credential_role_try_from_def)

lemma ice_credential_role_Ok:
  "ice_credential_role_try_from b = Ok r \<longleftrightarrow> b = ice_credential_role_code r"
  by (cases r) (auto simp: ice_credential_role_try_from_def)

text \<open>Credential characters are ASCII, so the conversion to a string never fails.\<close>

lemma ice_charset_utf8: "ice_bytes_charset bs \<Longrightarrow> secret_string_from_bytes bs = Ok bs"
proof -
  assume "ice_bytes_charset bs"
  then have "list_all (\<lambda>b. b < 0x80) bs"
    unfolding ice_bytes_charset_def
    by (rule list.pred_mono_strong) (auto simp: ice_byte_def word_le_nat_alt word_less_nat_alt)
  then show ?thesis
    by (simp add: secret_string_from_bytes_def valid_utf8_ascii)
qed

lemma credentials_header_read:
  assumes "18 \<le> length bs"
  shows "slice 0 18 bs = [bs ! 0] @ to_be_bytes (read_u64 bs 1) @ to_be_bytes (read_u32 bs 9)
    @ [bs ! 13] @ to_be_bytes (read_u16 bs 14) @ to_be_bytes (read_u16 bs 16)"
proof -
  have "slice 0 18 bs = concat (cut_fields 0 [1, 8, 4, 1, 2, 2] bs)"
    unfolding concat_fields by simp
  moreover have "slice 0 (Suc 0) bs = [bs ! 0]"
    using assms by (intro slice_1) linarith
  ultimately show ?thesis
    using assms by (simp add: slice_1 to_be_read)
qed

lemma validate_credentials_Ok:
  "validate_credentials c = Ok () \<longleftrightarrow> ce_version c = CREDENTIAL_VERSION \<and> ce_exchange_id c \<noteq> 0
     \<and> ce_generation c \<noteq> 0 \<and> ufrag_len_ok (length (ce_ufrag c)) \<and> ice_bytes_charset (ce_ufrag c)
     \<and> password_len_ok (length (ce_password c)) \<and> ice_bytes_charset (ce_password c)"
  by (auto simp: validate_credentials_def)

lemma decode_credentials_iff: "decode_credentials bs = Ok c \<longleftrightarrow> encode_credentials c = Ok bs"
proof
  let ?u = "unat (read_u16 bs 14)" and ?p = "unat (read_u16 bs 16)"
  assume "decode_credentials bs = Ok c"
  then have len: "length bs = 18 + ?u + ?p" and valid: "validate_credentials c = Ok ()"
    and role: "bs ! 13 = ice_credential_role_code (ce_role c)"
    and c: "c = \<lparr>ce_version = bs ! 0, ce_exchange_id = read_u64 bs 1, ce_generation = read_u32 bs 9,
      ce_role = ce_role c, ce_ufrag = slice 18 ?u bs, ce_password = drop (18 + ?u) bs\<rparr>"
    by (auto simp: decode_credentials_def Let_def CREDENTIAL_HEADER_LEN_def new_credentials_def
        ice_credential_role_Ok ice_charset_utf8 split: if_splits)
  have parts: "length (slice 18 ?u bs) = ?u" "drop (18 + ?u) bs = slice (18 + ?u) ?p bs"
    "length (drop (18 + ?u) bs) = ?p"
    using len by (simp_all add: slice_def)
  have "bs = take (length bs) bs" by simp
  also have "\<dots> = concat (cut_fields 0 [18, ?u, ?p] bs)"
    by (rule take_fields) (simp add: len)
  also have "\<dots> = credentials_bytes c"
    using len role parts
    by (subst c) (simp add: credentials_header_read credentials_bytes_def)
  finally show "encode_credentials c = Ok bs"
    using valid by (simp add: encode_credentials_def)
next
  assume "encode_credentials c = Ok bs"
  then have valid: "validate_credentials c = Ok ()" and bs: "bs = credentials_bytes c"
    by (simp_all add: encode_credentials_def)
  note ok = valid [unfolded validate_credentials_Ok]
  let ?u = "length (ce_ufrag c)" and ?p = "length (ce_password c)"
  have small: "?u \<le> 64" "?p \<le> 128"
    using ok by (simp_all add: ufrag_len_ok_def password_len_ok_def)
  then have lens: "unat (read_u16 bs 14) = ?u" "unat (read_u16 bs 16) = ?p"
    by (simp_all add: bs credentials_bytes_def read_u16_def wire_simps nth_append unat_of_nat_small)
  have fields: "bs ! 0 = ce_version c" "read_u64 bs 1 = ce_exchange_id c"
    "read_u32 bs 9 = ce_generation c" "bs ! 13 = ice_credential_role_code (ce_role c)"
    "length bs = 18 + ?u + ?p" and tail: "drop 18 bs = ce_ufrag c @ ce_password c"
    by (simp_all add: bs credentials_bytes_def read_u64_def read_u32_def wire_simps nth_append)
  have "slice 18 ?u bs = ce_ufrag c" "drop (18 + ?u) bs = ce_password c"
    by (simp_all add: slice_tail [OF tail] drop_tail [OF tail])
  have "\<not> length bs > unat MAX_CONTROL_BYTES"
    using small fields(5) by (simp add: MAX_CONTROL_BYTES_def)
  then show "decode_credentials bs = Ok c"
    using ok valid lens fields \<open>slice 18 ?u bs = ce_ufrag c\<close>
      \<open>drop (18 + ?u) bs = ce_password c\<close>
    by (cases c) (simp add: decode_credentials_def Let_def CREDENTIAL_HEADER_LEN_def
        ice_credential_role_inverse ice_charset_utf8 new_credentials_def)
qed

section \<open>Registrations: agreement of encoder and decoder\<close>

lemma rendezvous_role_inverse [wire_simps]: "rendezvous_role_try_from (rendezvous_role_code r) = Ok r"
  by (cases r) (simp_all add: rendezvous_role_try_from_def)

lemma rendezvous_role_Ok: "rendezvous_role_try_from b = Ok r \<longleftrightarrow> b = rendezvous_role_code r"
  by (cases r) (auto simp: rendezvous_role_try_from_def)

definition wf_registration :: "rendezvous_registration \<Rightarrow> bool" where
  "wf_registration r \<longleftrightarrow> length (rr_match_id r) = 16 \<and> length (rr_expected_peer_fingerprint r) = 32
     \<and> wf_exchange (rr_candidates r)"

lemma registration_header_read:
  assumes "68 \<le> length bs" and "slice 2 2 bs = [0, 0]" and "slice 10 2 bs = [0, 0]"
  shows "slice 0 68 bs = [bs ! 0, bs ! 1, 0, 0] @ to_be_bytes (read_u32 bs 4)
    @ to_be_bytes (read_u16 bs 8) @ [0, 0] @ slice 12 16 bs @ slice 28 32 bs
    @ to_be_bytes (read_u32 bs 60) @ to_be_bytes (read_u32 bs 64)"
proof -
  have "slice 0 68 bs = concat (cut_fields 0 [1, 1, 2, 4, 2, 2, 16, 32, 4, 4] bs)"
    unfolding concat_fields by simp
  moreover have "slice 0 (Suc 0) bs = [bs ! 0]"
    using assms by (intro slice_1) linarith
  ultimately show ?thesis
    using assms by (simp add: slice_1 to_be_read flip: numeral_2_eq_2)
qed

lemma decode_registration_iff:
  "decode_registration bs = Ok r \<longleftrightarrow> wf_registration r \<and> encode_registration r = Ok bs"
proof
  let ?u = "unat (read_u32 bs 60)" and ?p = "unat (read_u32 bs 64)"
  assume "decode_registration bs = Ok r"
  then have max: "length bs \<le> MAX_REGISTRATION_LEN" and len: "length bs = 68 + ?u + ?p"
    and res: "slice 2 2 bs = [0, 0]" "slice 10 2 bs = [0, 0]"
    and valid: "validate_registration r = Ok ()"
    and role: "bs ! 1 = rendezvous_role_code (rr_role r)"
    and cred: "encode_credentials (rr_credentials r) = Ok (slice 68 ?u bs)"
    and cand: "wf_exchange (rr_candidates r)" "encode_exchange (rr_candidates r) = Ok (drop (68 + ?u) bs)"
    and r: "r = \<lparr>rr_version = bs ! 0, rr_role = rr_role r, rr_generation = read_u32 bs 4,
      rr_ttl_seconds = read_u16 bs 8, rr_match_id = slice 12 16 bs,
      rr_expected_peer_fingerprint = slice 28 32 bs, rr_credentials = rr_credentials r,
      rr_candidates = rr_candidates r\<rparr>"
    by (auto simp: decode_registration_def Let_def REGISTRATION_HEADER_LEN_def rendezvous_role_Ok
        decode_credentials_iff decode_exchange_iff not_less split: if_splits)
  have parts: "length (slice 68 ?u bs) = ?u" "drop (68 + ?u) bs = slice (68 + ?u) ?p bs"
    "length (drop (68 + ?u) bs) = ?p"
    using len by (simp_all add: slice_def)
  have "bs = take (length bs) bs" by simp
  also have "\<dots> = concat (cut_fields 0 [68, ?u, ?p] bs)"
    by (rule take_fields) (simp add: len)
  also have "\<dots> = registration_header r ?u ?p @ slice 68 ?u bs @ drop (68 + ?u) bs"
    using len role parts(2) registration_header_read [OF _ res]
    by (subst r) (simp add: registration_header_def)
  finally have "encode_registration r = Ok bs"
    using valid cred cand max len parts
    by (simp add: encode_registration_def Let_def REGISTRATION_HEADER_LEN_def)
  moreover have "wf_registration r"
    using len cand by (subst r) (simp add: wf_registration_def)
  ultimately show "wf_registration r \<and> encode_registration r = Ok bs"
    by blast
next
  assume r: "wf_registration r \<and> encode_registration r = Ok bs"
  then obtain cred cand where valid: "validate_registration r = Ok ()"
    and cred: "encode_credentials (rr_credentials r) = Ok cred"
    and cand: "encode_exchange (rr_candidates r) = Ok cand"
    and max: "68 + length cred + length cand \<le> MAX_REGISTRATION_LEN"
    and bs: "bs = registration_header r (length cred) (length cand) @ cred @ cand"
    by (auto simp: encode_registration_def Let_def REGISTRATION_HEADER_LEN_def split: if_splits)
  have wf: "length (rr_match_id r) = 16" "length (rr_expected_peer_fingerprint r) = 32"
    "wf_exchange (rr_candidates r)"
    using r by (simp_all add: wf_registration_def)
  have small: "length cred < 2 ^ 32" "length cand < 2 ^ 32"
    using max by (simp_all add: MAX_REGISTRATION_LEN_def)
  have lens: "unat (read_u32 bs 60) = length cred" "unat (read_u32 bs 64) = length cand"
    using wf small
    by (simp_all add: bs registration_header_def read_u32_def wire_simps unat_of_nat_small)
  have fields: "bs ! 0 = rr_version r" "bs ! 1 = rendezvous_role_code (rr_role r)"
    "slice 2 2 bs = [0, 0]" "read_u32 bs 4 = rr_generation r" "read_u16 bs 8 = rr_ttl_seconds r"
    "slice 10 2 bs = [0, 0]" "slice 12 16 bs = rr_match_id r"
    "slice 28 32 bs = rr_expected_peer_fingerprint r" "length bs = 68 + length cred + length cand"
    and tail: "drop 68 bs = cred @ cand"
    using wf
    by (simp_all add: bs registration_header_def read_u32_def read_u16_def wire_simps nth_append)
  have split: "slice 68 (length cred) bs = cred" "drop (68 + length cred) bs = cand"
    by (simp_all add: slice_tail [OF tail] drop_tail [OF tail])
  have dec: "decode_credentials cred = Ok (rr_credentials r)" "decode_exchange cand = Ok (rr_candidates r)"
    using cred cand wf(3) by (simp_all add: decode_credentials_iff decode_exchange_iff)
  show "decode_registration bs = Ok r"
    using valid lens fields split dec max
    by (cases r) (simp add: decode_registration_def Let_def REGISTRATION_HEADER_LEN_def
        rendezvous_role_inverse)
qed

section \<open>Relay packets: agreement of encoder and decoder\<close>

definition wf_relay_header :: "relay_header \<Rightarrow> bool" where
  "wf_relay_header h \<longleftrightarrow> length (rh_source_peer_id h) = 16 \<and> length (rh_target_peer_id h) = 16"

lemma relay_header_read:
  assumes "52 \<le> length bs"
  shows "slice 0 52 bs = slice 0 4 bs @ [bs ! 4, bs ! 5] @ to_be_bytes (read_u16 bs 6)
    @ to_be_bytes (read_u64 bs 8) @ slice 16 16 bs @ slice 32 16 bs @ to_be_bytes (read_u32 bs 48)"
proof -
  have "slice 0 52 bs = concat (cut_fields 0 [4, 1, 1, 2, 8, 16, 16, 4] bs)"
    unfolding concat_fields by simp
  then show ?thesis
    using assms by (simp add: slice_1 to_be_read)
qed

lemma decode_relay_packet_iff:
  "decode_relay_packet bs = Ok p \<longleftrightarrow> wf_relay_header (rp_header p)
     \<and> encode_relay_packet (rp_header p) (rp_payload p) = Ok bs"
proof
  assume "decode_relay_packet bs = Ok p"
  then have len: "length bs = 52 + unat (rh_payload_len (rp_header p))"
    and pay: "rp_payload p = drop 52 bs" and magic: "slice 0 4 bs = RELAY_MAGIC"
    and prov: "bs ! 5 = relay_provider_code (rh_provider (rp_header p))"
    and valid: "validate_relay_header (rp_header p) = Ok ()"
    and h: "rp_header p = \<lparr>rh_version = bs ! 4, rh_provider = rh_provider (rp_header p),
      rh_flags = read_u16 bs 6, rh_relay_session_id = read_u64 bs 8, rh_source_peer_id = slice 16 16 bs,
      rh_target_peer_id = slice 32 16 bs, rh_payload_len = read_u32 bs 48\<rparr>"
    by (auto simp: decode_relay_packet_def decode_relay_header_def Let_def RELAY_HEADER_LEN_def
        relay_provider_Ok split: if_splits)
  have ge: "52 \<le> length bs" using len by simp
  have "relay_header_bytes (rp_header p) = slice 0 52 bs"
    using prov magic by (subst h) (simp add: relay_header_read [OF ge] relay_header_bytes_def)
  then have "bs = relay_header_bytes (rp_header p) @ rp_payload p"
    by (simp add: pay slice_def)
  moreover have "wf_relay_header (rp_header p)"
    using ge by (subst h) (simp add: wf_relay_header_def)
  moreover have "length (rp_payload p) = unat (rh_payload_len (rp_header p))"
    using len pay by simp
  ultimately show "wf_relay_header (rp_header p)
      \<and> encode_relay_packet (rp_header p) (rp_payload p) = Ok bs"
    using valid by (simp add: encode_relay_packet_def encode_relay_header_def)
next
  let ?h = "rp_header p"
  assume r: "wf_relay_header ?h \<and> encode_relay_packet ?h (rp_payload p) = Ok bs"
  then have len: "length (rp_payload p) = unat (rh_payload_len ?h)"
    and valid: "validate_relay_header ?h = Ok ()" and bs: "bs = relay_header_bytes ?h @ rp_payload p"
    by (auto simp: encode_relay_packet_def encode_relay_header_def split: if_splits)
  have wf: "length (rh_source_peer_id ?h) = 16" "length (rh_target_peer_id ?h) = 16"
    using r by (simp_all add: wf_relay_header_def)
  have version: "rh_version ?h = WIRE_VERSION"
    using valid by (simp add: validate_relay_header_def split: if_splits)
  have fields: "slice 0 4 bs = RELAY_MAGIC" "bs ! 4 = rh_version ?h"
    "bs ! 5 = relay_provider_code (rh_provider ?h)" "read_u16 bs 6 = rh_flags ?h"
    "read_u64 bs 8 = rh_relay_session_id ?h" "slice 16 16 bs = rh_source_peer_id ?h"
    "slice 32 16 bs = rh_target_peer_id ?h" "read_u32 bs 48 = rh_payload_len ?h"
    "length bs = 52 + unat (rh_payload_len ?h)" "drop 52 bs = rp_payload p"
    using wf len
    by (simp_all add: bs relay_header_bytes_def RELAY_MAGIC_def read_u16_def read_u32_def
        read_u64_def wire_simps nth_append)
  have "decode_relay_header bs = Ok ?h"
    using valid version fields
    by (cases ?h) (simp add: decode_relay_header_def Let_def RELAY_HEADER_LEN_def relay_provider_inverse)
  then show "decode_relay_packet bs = Ok p"
    using fields(9,10) by (cases p) (simp add: decode_relay_packet_def Let_def RELAY_HEADER_LEN_def)
qed

section \<open>Pair priorities\<close>

lemma unat_ucast_64: "unat (ucast (a :: u32) :: u64) = unat a"
proof -
  have "unat a < 2 ^ 64"
    using unsigned_less [of a, where ?'a = nat] by simp
  then show ?thesis
    by (simp add: unsigned_ucast_eq take_bit_nat_eq_self)
qed

lemma ucast_le_iff: "(ucast (a :: u32) :: u64) < ucast b \<longleftrightarrow> a < b"
  by (simp add: word_less_nat_alt unat_ucast_64)

lemma pair_priority_form:
  "compute_pair_priority l r is_controlling = 2 ^ 32 * ucast (min l r) + 2 * ucast (max l r)
     + (if (if is_controlling then r < l else l < r) then 1 else 0)"
  by (auto simp: compute_pair_priority_def Let_def push_bit_eq_mult ucast_le_iff min_def max_def)

lemma unat_pair_priority:
  assumes "unat l < 2 ^ 31" "unat r < 2 ^ 31"
  shows "unat (compute_pair_priority l r is_controlling) =
    2 ^ 32 * unat (min l r) + 2 * unat (max l r)
      + (if (if is_controlling then r < l else l < r) then 1 else 0)"
proof -
  have plain: "unat (2 ^ 32 * m + 2 * n + k :: u64) = 2 ^ 32 * unat m + 2 * unat n + unat k"
    if "unat m < 2 ^ 31" "unat n < 2 ^ 31" "unat k \<le> 1" for m n k :: u64
    using that by (simp add: unat_word_ariths)
  have "unat (min l r) < 2 ^ 31" "unat (max l r) < 2 ^ 31"
    using assms by (simp_all add: min_def max_def)
  then show ?thesis
    unfolding pair_priority_form by (subst plain) (simp_all add: unat_ucast_64)
qed

lemma pair_priority_swap: "compute_pair_priority l r is_controlling = compute_pair_priority r l (\<not> is_controlling)"
  by (simp add: compute_pair_priority_def)

text \<open>The type preference is the top byte of a candidate's priority.\<close>

definition type_preference :: "candidate_type \<Rightarrow> nat" where
  "type_preference ct = (case ct of CtHost \<Rightarrow> 126 | CtPeerReflexive \<Rightarrow> 110
     | CtServerReflexive \<Rightarrow> 100 | CtRelayed \<Rightarrow> 0)"

lemma candidate_priority_top:
  "unat (compute_candidate_priority ct pref k) div 2 ^ 24 = type_preference ct"
proof -
  have "drop_bit 24 (push_bit 8 (ucast pref) :: u32) = 0"
    using bit_imp_le_length [of pref] by (intro bit_eqI) (fastforce simp: bit_simps)
  moreover have "drop_bit 24 (x AND 0xff :: u32) = 0" for x
  proof -
    have "(0xff :: u32) = mask 8" by (simp add: mask_eq_exp_minus_1)
    then show ?thesis by (simp only:) (rule bit_eqI, auto simp: bit_simps)
  qed
  ultimately have "drop_bit 24 (compute_candidate_priority ct pref k) = of_nat (type_preference ct)"
    by (cases ct)
      (simp_all add: compute_candidate_priority_def Let_def type_preference_def drop_bit_or)
  then have "drop_bit 24 (unat (compute_candidate_priority ct pref k)) = type_preference ct"
    unfolding unat_drop_bit_eq [symmetric] by (cases ct) (simp_all add: type_preference_def)
  then show ?thesis
    by (simp only: drop_bit_eq_div)
qed

lemma candidate_priority_less: "unat (compute_candidate_priority ct pref k) < 2 ^ 31"
proof -
  have "type_preference ct < 128"
    by (cases ct) (simp_all add: type_preference_def)
  then show ?thesis
    using candidate_priority_top [of ct pref k] by simp
qed

lemma candidate_priority_mono:
  "type_preference ct < type_preference ct' \<Longrightarrow>
     unat (compute_candidate_priority ct pref k) < unat (compute_candidate_priority ct' pref' k')"
  unfolding candidate_priority_top [of ct pref k, symmetric]
    candidate_priority_top [of ct' pref' k', symmetric]
  by (metis div_le_mono leD leI)

lemma relayed_priority_less:
  "validate_candidate c = Ok () \<Longrightarrow> ic_candidate_type c = CtRelayed \<Longrightarrow> unat (ic_priority c) < 2 ^ 24"
proof -
  assume "validate_candidate c = Ok ()" "ic_candidate_type c = CtRelayed"
  then have "drop_bit 24 (ic_priority c) = 0"
    by (auto simp: validate_candidate_def Let_def split: if_splits)
  then have "unat (ic_priority c) div 2 ^ 24 = 0"
    by (metis drop_bit_eq_div unat_drop_bit_eq unsigned_0)
  then show ?thesis
    by (simp add: div_eq_0_iff)
qed

lemma pair_priority_div:
  assumes "unat l < 2 ^ 31" "unat r < 2 ^ 31"
  shows "unat (compute_pair_priority l r p) div 2 ^ 32 = min (unat l) (unat r)"
proof -
  have "2 * unat (max l r) + (if b then 1 else 0) < 2 ^ 32" for b
    using assms by (simp add: max_def)
  moreover have "unat (min l r) = min (unat l) (unat r)"
    by (simp add: min_def word_le_nat_alt)
  ultimately show ?thesis
    unfolding unat_pair_priority [OF assms] add.assoc by (subst div_mult_self4) simp_all
qed

lemma pair_priority_less:
  assumes "unat l < 2 ^ 31" "unat r < 2 ^ 31" "unat l' < 2 ^ 31" "unat r' < 2 ^ 31"
    and "min (unat l) (unat r) < min (unat l') (unat r')"
  shows "compute_pair_priority l r p < compute_pair_priority l' r' p'"
  using assms(5)
  unfolding word_less_nat_alt pair_priority_div [OF assms(1,2), of p, symmetric]
    pair_priority_div [OF assms(3,4), of p', symmetric]
  by (metis div_le_mono leD leI)

section \<open>Properties\<close>

interpretation candidate_codec: wire_codec encode_candidate decode_candidate wf_candidate
  by unfold_locales (simp_all add: decode_candidate_iff encode_candidate_def)

interpretation exchange_codec: wire_codec encode_exchange decode_exchange wf_exchange
  by unfold_locales (simp_all add: decode_exchange_iff)

interpretation credentials_codec: wire_codec encode_credentials decode_credentials "\<lambda>_. True"
  by unfold_locales (simp_all add: decode_credentials_iff)

interpretation registration_codec: wire_codec encode_registration decode_registration wf_registration
  by unfold_locales (simp_all add: decode_registration_iff)

interpretation relay_codec: wire_codec
  "\<lambda>p. encode_relay_packet (rp_header p) (rp_payload p)" decode_relay_packet
  "\<lambda>p. wf_relay_header (rp_header p)"
  by unfold_locales (simp_all add: decode_relay_packet_iff)

text \<open>
  C40: the codecs a session is set up with (a candidate, a candidate exchange, ICE credentials, a
  rendezvous registration that nests both, a relay envelope) are exact: a byte string decodes to a
  value if and only if the value's fixed-size fields have their sizes and the string is what the
  encoder returns for it.
\<close>

theorem setup_codecs_exact:
  "(decode_candidate bs = Ok c \<longleftrightarrow> wf_candidate c \<and> encode_candidate c = Ok bs)
   \<and> (decode_exchange bs = Ok x \<longleftrightarrow> wf_exchange x \<and> encode_exchange x = Ok bs)
   \<and> (decode_credentials bs = Ok d \<longleftrightarrow> encode_credentials d = Ok bs)
   \<and> (decode_registration bs = Ok r \<longleftrightarrow> wf_registration r \<and> encode_registration r = Ok bs)
   \<and> (decode_relay_packet bs = Ok p \<longleftrightarrow>
        wf_relay_header (rp_header p) \<and> encode_relay_packet (rp_header p) (rp_payload p) = Ok bs)"
  using candidate_codec.dec_iff exchange_codec.dec_iff credentials_codec.dec_iff
    registration_codec.dec_iff relay_codec.dec_iff
  by blast

text \<open>
  Both peers give a candidate pair the same priority, whatever the priorities are; priorities
  the code computes give a pair priority that does not overflow; and a pair with a validated
  relayed candidate ranks below every pair of computed non-relayed candidates.
\<close>

theorem pair_priorities_agree:
  "compute_pair_priority l r is_controlling = compute_pair_priority r l (\<not> is_controlling)
   \<and> unat (compute_pair_priority (compute_candidate_priority t p k) (compute_candidate_priority t' p' k') b)
      div 2 ^ 32 = min (unat (compute_candidate_priority t p k)) (unat (compute_candidate_priority t' p' k'))
   \<and> (validate_candidate c = Ok () \<and> ic_candidate_type c = CtRelayed \<and> t \<noteq> CtRelayed \<and> t' \<noteq> CtRelayed
      \<longrightarrow> compute_pair_priority (compute_candidate_priority u q i) (ic_priority c) b'
        < compute_pair_priority (compute_candidate_priority t p k) (compute_candidate_priority t' p' k') b)"
proof (intro conjI impI)
  let ?a = "compute_candidate_priority t p k" and ?b = "compute_candidate_priority t' p' k'"
  show "compute_pair_priority l r is_controlling = compute_pair_priority r l (\<not> is_controlling)"
    by (rule pair_priority_swap)
  show "unat (compute_pair_priority ?a ?b b) div 2 ^ 32 = min (unat ?a) (unat ?b)"
    using candidate_priority_less [of t p k] candidate_priority_less [of t' p' k']
    by (rule pair_priority_div)
  assume c: "validate_candidate c = Ok () \<and> ic_candidate_type c = CtRelayed \<and> t \<noteq> CtRelayed \<and> t' \<noteq> CtRelayed"
  then have low: "unat (ic_priority c) < 2 ^ 24"
    using relayed_priority_less by blast
  have "2 ^ 24 \<le> unat ?a" "2 ^ 24 \<le> unat ?b"
    using c candidate_priority_top [of t p k] candidate_priority_top [of t' p' k']
    by (cases t; cases t'; simp add: type_preference_def)+
  then show "compute_pair_priority (compute_candidate_priority u q i) (ic_priority c) b'
      < compute_pair_priority ?a ?b b"
    using low candidate_priority_less by (intro pair_priority_less) auto
qed

definition relayed_sample :: ice_candidate where
  "relayed_sample = \<lparr>ic_foundation = replicate 8 1, ic_component = 1, ic_transport = TpUdp,
     ic_priority = compute_candidate_priority CtRelayed 10 1, ic_candidate_type = CtRelayed,
     ic_relay_provider = RpTurn, ic_ip = V4 [192, 0, 2, 7], ic_port = 3478, ic_related_address = None\<rparr>"

lemma relayed_sample_valid: "validate_candidate relayed_sample = Ok ()"
proof -
  have "replicate 4 (b :: u8) = [b, b, b, b]" for b
    by (simp add: numeral_eq_Suc)
  then show ?thesis
    by (simp add: relayed_sample_def validate_candidate_def validate_related_def
        compute_candidate_priority_def)
qed

lemma pair_priorities_agree_witness:
  "validate_candidate relayed_sample = Ok () \<and>
   compute_pair_priority (compute_candidate_priority CtHost 65535 1) (ic_priority relayed_sample) True
     < compute_pair_priority (compute_candidate_priority CtHost 1 1)
        (compute_candidate_priority CtServerReflexive 1 1) True"
proof -
  have "validate_candidate relayed_sample = Ok () \<and> ic_candidate_type relayed_sample = CtRelayed"
    by (simp add: relayed_sample_valid) (simp add: relayed_sample_def)
  then show ?thesis
    using pair_priorities_agree [of 0 0 True CtHost 1 1 CtServerReflexive 1 1 True relayed_sample
        CtHost 65535 1 True] by simp
qed

end
