(* ===== verification/Nat_Traversal.thy ===== *)
theory Nat_Traversal
  imports Candidate_Wire Contracts
begin

text \<open>
  Candidate gathering and route selection: \<open>src/crates/session/src/nat.rs\<close>. The gatherer collects
  local candidates; the router pairs them with the peer's, checks direct pairs first, falls back to
  an allocated relay, and keeps probing for a direct path. The hash function is a parameter.
\<close>

section \<open>Gathering\<close>

datatype nat_error = CandidateLimitReached | InvalidCandidate | AddressFamilyMismatch
  | NoCandidatesAvailable | NoValidPath | PathTimeout | DirectProbeFailed

definition MAX_CANDIDATES :: nat where
  "MAX_CANDIDATES = 32"

record candidate_gatherer =
  cg_candidates :: "ice_candidate list"
  cg_foundation_counter :: u64

definition new_gatherer :: candidate_gatherer where
  "new_gatherer = \<lparr>cg_candidates = [], cg_foundation_counter = 1\<rparr>"

definition next_foundation :: "candidate_gatherer \<Rightarrow> candidate_gatherer \<times> bytes" where
  "next_foundation g =
     (let val = cg_foundation_counter g in
      (g\<lparr>cg_foundation_counter := val + 1\<rparr>, to_be_bytes val))"

text \<open>
  The three \<open>add_\<close> operations share their body: the bound, the candidate with the next
  foundation (spent even when the candidate is refused), its validation, and the push.
\<close>

definition add_candidate :: "candidate_gatherer \<Rightarrow> (bytes \<Rightarrow> ice_candidate)
    \<Rightarrow> candidate_gatherer \<times> (nat_error + ice_candidate)" where
  "add_candidate g mk =
     (if length (cg_candidates g) \<ge> MAX_CANDIDATES then (g, Err CandidateLimitReached)
      else let (g', foundation) = next_foundation g; c = mk foundation in
        if is_ok (validate_candidate c)
        then (g'\<lparr>cg_candidates := cg_candidates g' @ [c]\<rparr>, Ok c)
        else (g', Err InvalidCandidate))"

definition add_host_candidate :: "candidate_gatherer \<Rightarrow> wire_ip_addr \<Rightarrow> u16 \<Rightarrow> u8 \<Rightarrow> u16
    \<Rightarrow> candidate_gatherer \<times> (nat_error + ice_candidate)" where
  "add_host_candidate g ip port component local_preference =
     add_candidate g (\<lambda>foundation. \<lparr>ic_foundation = foundation, ic_component = component,
       ic_transport = TpUdp, ic_priority = compute_candidate_priority CtHost local_preference component,
       ic_candidate_type = CtHost, ic_relay_provider = RpNone, ic_ip = ip, ic_port = port,
       ic_related_address = None\<rparr>)"

definition add_srflx_candidate :: "candidate_gatherer \<Rightarrow> wire_ip_addr \<Rightarrow> u16 \<Rightarrow> wire_ip_addr \<Rightarrow> u16
    \<Rightarrow> u8 \<Rightarrow> u16 \<Rightarrow> candidate_gatherer \<times> (nat_error + ice_candidate)" where
  "add_srflx_candidate g srflx_ip srflx_port base_ip base_port component local_preference =
     add_candidate g (\<lambda>foundation. \<lparr>ic_foundation = foundation, ic_component = component,
       ic_transport = TpUdp,
       ic_priority = compute_candidate_priority CtServerReflexive local_preference component,
       ic_candidate_type = CtServerReflexive, ic_relay_provider = RpNone, ic_ip = srflx_ip,
       ic_port = srflx_port, ic_related_address = Some (base_ip, base_port)\<rparr>)"

definition add_relay_candidate :: "candidate_gatherer \<Rightarrow> wire_ip_addr \<Rightarrow> u16 \<Rightarrow> relay_provider
    \<Rightarrow> u8 \<Rightarrow> u16 \<Rightarrow> candidate_gatherer \<times> (nat_error + ice_candidate)" where
  "add_relay_candidate g relay_ip relay_port provider component local_preference =
     add_candidate g (\<lambda>foundation. \<lparr>ic_foundation = foundation, ic_component = component,
       ic_transport = TpUdp,
       ic_priority = compute_candidate_priority CtRelayed local_preference component,
       ic_candidate_type = CtRelayed, ic_relay_provider = provider, ic_ip = relay_ip,
       ic_port = relay_port, ic_related_address = None\<rparr>)"

text \<open>\<open>sort_by_key\<close> with \<open>Reverse\<close> is a stable sort by descending priority.\<close>

definition finish_gathering :: "candidate_gatherer \<Rightarrow> candidate_gatherer \<times> ice_candidate list" where
  "finish_gathering g =
     (let sorted = sort_key (\<lambda>c. - uint (ic_priority c)) (cg_candidates g) in
      (g\<lparr>cg_candidates := sorted\<rparr>, sorted))"

fun wire_ip :: "ip_addr \<Rightarrow> wire_ip_addr" where
  "wire_ip (IpV4 octets) = V4 octets"
| "wire_ip (IpV6 octets) = V6 octets"

definition gather_candidate_exchange_v1 :: "socket_addr \<Rightarrow> socket_addr option \<Rightarrow> u64 \<Rightarrow> u32
    \<Rightarrow> nat_error + candidate_exchange" where
  "gather_candidate_exchange_v1 local server_reflexive exchange_id gen =
     (if is_some_and server_reflexive (\<lambda>mapped. is_ipv4 mapped \<noteq> is_ipv4 local)
      then Err AddressFamilyMismatch
      else let local_ip = wire_ip (socket_ip local);
               (g1, host) = add_host_candidate new_gatherer local_ip (socket_port local) 1 0xFFFF in
        and_then host (\<lambda>_.
          let (g2, srflx) = (case server_reflexive of
                 Some mapped \<Rightarrow>
                   if mapped \<noteq> local
                   then (let (g, r) = add_srflx_candidate g1 (wire_ip (socket_ip mapped)) (socket_port mapped) local_ip
                            (socket_port local) 1 0xFFFF in (g, and_then r (\<lambda>_. Ok ())))
                   else (g1, Ok ())
               | None \<Rightarrow> (g1, Ok ())) in
          and_then srflx (\<lambda>_.
            let exchange = \<lparr>cx_version = EXCHANGE_VERSION, cx_exchange_id = exchange_id,
                  cx_generation = gen, cx_candidates = snd (finish_gathering g2)\<rparr> in
            if is_ok (encode_exchange exchange) then Ok exchange else Err InvalidCandidate)))"

definition candidate_exchange_sha256 :: "(bytes \<Rightarrow> bytes) \<Rightarrow> candidate_exchange \<Rightarrow> nat_error + bytes" where
  "candidate_exchange_sha256 sha256 exchange = (case encode_exchange exchange of
     Inl _ \<Rightarrow> Err InvalidCandidate
   | Inr encoded \<Rightarrow> Ok (sha256 encoded))"

section \<open>Routing\<close>

datatype candidate_pair_state = CpFrozen | CpWaiting | CpInProgress | CpSucceeded | CpFailed

record candidate_pair =
  pr_local :: ice_candidate
  pr_remote :: ice_candidate
  pr_priority :: u64
  pr_state :: candidate_pair_state
  pr_rtt_ns :: "u64 option"

definition new_pair :: "ice_candidate \<Rightarrow> ice_candidate \<Rightarrow> bool \<Rightarrow> candidate_pair" where
  "new_pair l r is_controlling = \<lparr>pr_local = l, pr_remote = r,
     pr_priority = compute_pair_priority (ic_priority l) (ic_priority r) is_controlling,
     pr_state = CpWaiting, pr_rtt_ns = None\<rparr>"

definition is_direct :: "candidate_pair \<Rightarrow> bool" where
  "is_direct p \<longleftrightarrow> ic_candidate_type (pr_local p) \<noteq> CtRelayed \<and> ic_candidate_type (pr_remote p) \<noteq> CtRelayed"

datatype connection_path =
  Direct wire_ip_addr u16 wire_ip_addr u16 u64
| Relay u64 relay_provider bytes

record router_stats =
  st_direct_attempts :: u32
  st_direct_successes :: u32
  st_relay_fallbacks :: u32
  st_direct_upgrades :: u32
  st_relay_downgrades :: u32
  st_probes_sent :: u32

record connection_router =
  ro_is_controlling :: bool
  ro_direct_check_timeout_ns :: u64
  ro_initial_check_started_ns :: "u64 option"
  ro_probe_interval_ns :: u64
  ro_last_probe_ns :: u64
  ro_next_probe_cursor :: nat
  ro_local_candidates :: "ice_candidate list"
  ro_remote_candidates :: "ice_candidate list"
  ro_pairs :: "candidate_pair list"
  ro_active_path :: "connection_path option"
  ro_fallback_relay_path :: "connection_path option"
  ro_stats :: router_stats

definition new_router :: "bool \<Rightarrow> u64 \<Rightarrow> connection_router" where
  "new_router is_controlling direct_check_timeout_ns = \<lparr>ro_is_controlling = is_controlling,
     ro_direct_check_timeout_ns = direct_check_timeout_ns, ro_initial_check_started_ns = None,
     ro_probe_interval_ns = 500000000, ro_last_probe_ns = 0, ro_next_probe_cursor = 0,
     ro_local_candidates = [], ro_remote_candidates = [], ro_pairs = [], ro_active_path = None,
     ro_fallback_relay_path = None,
     ro_stats = \<lparr>st_direct_attempts = 0, st_direct_successes = 0, st_relay_fallbacks = 0,
       st_direct_upgrades = 0, st_relay_downgrades = 0, st_probes_sent = 0\<rparr>\<rparr>"

definition make_pairs :: "bool \<Rightarrow> ice_candidate list \<Rightarrow> ice_candidate list \<Rightarrow> candidate_pair list" where
  "make_pairs is_controlling locals remotes =
     [new_pair l r is_controlling. l \<leftarrow> locals, r \<leftarrow> remotes,
        ic_transport l = ic_transport r \<and> ic_component l = ic_component r]"

definition relay_fallback :: "ice_candidate list \<Rightarrow> u64 \<Rightarrow> bytes \<Rightarrow> connection_path option" where
  "relay_fallback locals relay_session_id remote_peer_id =
     map_option (\<lambda>c. Relay relay_session_id (ic_relay_provider c) remote_peer_id)
       (find (\<lambda>c. ic_candidate_type c = CtRelayed \<and> is_ok (validate_candidate c)
          \<and> relay_session_id \<noteq> 0 \<and> remote_peer_id \<noteq> replicate 16 0) locals)"

definition set_candidates :: "connection_router \<Rightarrow> ice_candidate list \<Rightarrow> ice_candidate list \<Rightarrow> u64
    \<Rightarrow> bytes \<Rightarrow> connection_router \<times> (nat_error + unit)" where
  "set_candidates s locals remotes relay_session_id remote_peer_id =
     (if locals = [] \<or> remotes = [] then (s, Err NoCandidatesAvailable)
      else if length locals > MAX_CANDIDATES \<or> length remotes > MAX_CANDIDATES
        then (s, Err CandidateLimitReached)
      else if list_ex (\<lambda>c. \<not> is_ok (validate_candidate c)) (locals @ remotes)
        then (s, Err InvalidCandidate)
      else (s\<lparr>ro_local_candidates := locals, ro_remote_candidates := remotes,
              ro_initial_check_started_ns := None, ro_last_probe_ns := 0, ro_next_probe_cursor := 0,
              ro_active_path := None,
              ro_pairs := sort_key (\<lambda>p. - uint (pr_priority p))
                (make_pairs (ro_is_controlling s) locals remotes),
              ro_fallback_relay_path := relay_fallback locals relay_session_id remote_peer_id\<rparr>, Ok ()))"

definition is_using_relay :: "connection_router \<Rightarrow> bool" where
  "is_using_relay s \<longleftrightarrow> (case ro_active_path s of Some (Relay _ _ _) \<Rightarrow> True | _ \<Rightarrow> False)"

definition direct_path :: "candidate_pair \<Rightarrow> connection_path" where
  "direct_path p = Direct (ic_ip (pr_local p)) (ic_port (pr_local p)) (ic_ip (pr_remote p))
     (ic_port (pr_remote p)) (pr_priority p)"

text \<open>The last part of \<open>select_initial_path\<close>: the window is over, or no direct pair is left.\<close>

definition fall_back :: "connection_router \<Rightarrow> connection_router \<times> (nat_error + connection_path)" where
  "fall_back s =
     (let s' = s\<lparr>ro_pairs := map (\<lambda>p. if is_direct p \<and> pr_state p = CpInProgress
            then p\<lparr>pr_state := CpFailed\<rparr> else p) (ro_pairs s)\<rparr> in
      case ro_fallback_relay_path s' of
        Some relay_path \<Rightarrow> (s'\<lparr>ro_active_path := Some relay_path, ro_stats := (ro_stats s')
            \<lparr>st_relay_fallbacks := saturating_add (st_relay_fallbacks (ro_stats s')) 1\<rparr>\<rparr>, Ok relay_path)
      | None \<Rightarrow> (s', Err NoValidPath))"

definition select_initial_path :: "connection_router \<Rightarrow> u64
    \<Rightarrow> connection_router \<times> (nat_error + connection_path)" where
  "select_initial_path s now_ns = (case ro_active_path s of
     Some path \<Rightarrow> (s, Ok path)
   | None \<Rightarrow> (case find (\<lambda>p. is_direct p \<and> pr_state p = CpSucceeded) (ro_pairs s) of
       Some p \<Rightarrow> (s\<lparr>ro_active_path := Some (direct_path p), ro_stats := (ro_stats s)
           \<lparr>st_direct_successes := st_direct_successes (ro_stats s) + 1\<rparr>\<rparr>, Ok (direct_path p))
     | None \<Rightarrow>
         let started_ns = (case ro_initial_check_started_ns s of Some t \<Rightarrow> t | None \<Rightarrow> now_ns);
             s = s\<lparr>ro_initial_check_started_ns := Some started_ns\<rparr>;
             elapsed_ns = saturating_sub now_ns started_ns in
         if elapsed_ns < ro_direct_check_timeout_ns s then
           (case position (\<lambda>p. is_direct p \<and> pr_state p = CpWaiting) (ro_pairs s) of
              Some i \<Rightarrow> (s\<lparr>ro_pairs := (ro_pairs s)[i := (ro_pairs s ! i)\<lparr>pr_state := CpInProgress\<rparr>],
                  ro_stats := (ro_stats s)\<lparr>st_direct_attempts :=
                    saturating_add (st_direct_attempts (ro_stats s)) 1\<rparr>\<rparr>, Ok (direct_path (ro_pairs s ! i)))
            | None \<Rightarrow> (case find (\<lambda>p. is_direct p \<and> pr_state p = CpInProgress) (ro_pairs s) of
                Some p \<Rightarrow> (s, Ok (direct_path p))
              | None \<Rightarrow> fall_back s))
         else fall_back s))"

definition record_check_result :: "connection_router \<Rightarrow> nat \<Rightarrow> bool \<Rightarrow> u64
    \<Rightarrow> connection_router \<times> connection_path option" where
  "record_check_result s pair_idx success rtt_ns =
     (if pair_idx \<ge> length (ro_pairs s) then (s, None)
      else let pair = ro_pairs s ! pair_idx in
        if success then
          let s = s\<lparr>ro_pairs := (ro_pairs s)[pair_idx := pair\<lparr>pr_state := CpSucceeded,
                pr_rtt_ns := Some rtt_ns\<rparr>]\<rparr> in
          if is_direct pair \<and> is_using_relay s
          then (s\<lparr>ro_active_path := Some (direct_path pair), ro_stats := (ro_stats s)
                  \<lparr>st_direct_upgrades := st_direct_upgrades (ro_stats s) + 1\<rparr>\<rparr>, Some (direct_path pair))
          else (s, ro_active_path s)
        else
          let s = s\<lparr>ro_pairs := (ro_pairs s)[pair_idx := pair\<lparr>pr_state := CpFailed\<rparr>]\<rparr> in
          case (ro_active_path s, ro_fallback_relay_path s) of
            (Some (Direct _ _ _ _ priority), Some relay) \<Rightarrow>
              if pr_priority pair = priority
              then (s\<lparr>ro_active_path := Some relay, ro_stats := (ro_stats s)
                      \<lparr>st_relay_downgrades := st_relay_downgrades (ro_stats s) + 1\<rparr>\<rparr>, Some relay)
              else (s, ro_active_path s)
          | _ \<Rightarrow> (s, ro_active_path s))"

definition probe_eligible :: "candidate_pair \<Rightarrow> bool" where
  "probe_eligible p \<longleftrightarrow> is_direct p \<and> pr_state p \<noteq> CpSucceeded \<and> pr_state p \<noteq> CpInProgress"

definition tick_background_probing :: "connection_router \<Rightarrow> u64
    \<Rightarrow> connection_router \<times> candidate_pair option" where
  "tick_background_probing s now_ns =
     (if \<not> is_using_relay s then (s, None)
      else if saturating_sub now_ns (ro_last_probe_ns s) < ro_probe_interval_ns s then (s, None)
      else let pair_count = length (ro_pairs s) in
        case find (\<lambda>offset. probe_eligible (ro_pairs s ! ((ro_next_probe_cursor s + offset) mod pair_count)))
            [0..<pair_count] of
          None \<Rightarrow> (s, None)
        | Some offset \<Rightarrow>
            let index = (ro_next_probe_cursor s + offset) mod pair_count;
                pair = (ro_pairs s ! index)\<lparr>pr_state := CpInProgress\<rparr> in
            (s\<lparr>ro_pairs := (ro_pairs s)[index := pair],
               ro_next_probe_cursor := (index + 1) mod pair_count, ro_last_probe_ns := now_ns,
               ro_stats := (ro_stats s)\<lparr>st_probes_sent := saturating_add (st_probes_sent (ro_stats s)) 1\<rparr>\<rparr>,
             Some pair))"

section \<open>The router's invariant\<close>

datatype router_cmd =
  SetCandidates "ice_candidate list" "ice_candidate list" u64 bytes
| SelectInitial u64
| RecordCheck nat bool u64
| ProbeTick u64

datatype router_reply =
  SetReply "nat_error + unit"
| PathReply "nat_error + connection_path"
| CheckReply "connection_path option"
| ProbeReply "candidate_pair option"

fun router_step :: "connection_router \<Rightarrow> router_cmd \<Rightarrow> connection_router \<times> router_reply" where
  "router_step s (SetCandidates l r i p) = map_prod id SetReply (set_candidates s l r i p)"
| "router_step s (SelectInitial now) = map_prod id PathReply (select_initial_path s now)"
| "router_step s (RecordCheck i ok rtt) = map_prod id CheckReply (record_check_result s i ok rtt)"
| "router_step s (ProbeTick now) = map_prod id ProbeReply (tick_background_probing s now)"

text \<open>What a pair is, apart from the progress of its check.\<close>

definition pair_key :: "candidate_pair \<Rightarrow> ice_candidate \<times> ice_candidate \<times> u64" where
  "pair_key p = (pr_local p, pr_remote p, pr_priority p)"

definition key_ok :: "connection_router \<Rightarrow> ice_candidate \<times> ice_candidate \<times> u64 \<Rightarrow> bool" where
  "key_ok s = (\<lambda>(l, r, priority). l \<in> set (ro_local_candidates s) \<and> r \<in> set (ro_remote_candidates s)
     \<and> validate_candidate l = Ok () \<and> validate_candidate r = Ok ()
     \<and> ic_transport l = ic_transport r \<and> ic_component l = ic_component r
     \<and> priority = compute_pair_priority (ic_priority l) (ic_priority r) (ro_is_controlling s))"

definition relay_ok :: "ice_candidate list \<Rightarrow> connection_path \<Rightarrow> bool" where
  "relay_ok locals path \<longleftrightarrow> (\<exists>c\<in>set locals. ic_candidate_type c = CtRelayed \<and> validate_candidate c = Ok ()
     \<and> (\<exists>i peer. path = Relay i (ic_relay_provider c) peer \<and> i \<noteq> 0 \<and> peer \<noteq> replicate 16 0))"

text \<open>
  A pair may carry the active path when its check succeeded, which is when it has a round-trip time.
  A later failure of the check leaves the path in place only if there is no relay to leave to.
\<close>

definition pair_checked :: "connection_router \<Rightarrow> candidate_pair \<Rightarrow> bool" where
  "pair_checked s p \<longleftrightarrow> is_direct p \<and> pr_rtt_ns p \<noteq> None
     \<and> (pr_state p = CpSucceeded \<or> pr_state p = CpFailed \<and> ro_fallback_relay_path s = None)"

definition path_checked :: "connection_router \<Rightarrow> connection_path \<Rightarrow> bool" where
  "path_checked s path \<longleftrightarrow> ro_fallback_relay_path s = Some path
     \<or> (\<exists>i<length (ro_pairs s). direct_path (ro_pairs s ! i) = path \<and> pair_checked s (ro_pairs s ! i))"

definition succeeded_timed :: "candidate_pair \<Rightarrow> bool" where
  "succeeded_timed p \<longleftrightarrow> (pr_state p = CpSucceeded \<longrightarrow> pr_rtt_ns p \<noteq> None)"

definition router_inv :: "connection_router \<Rightarrow> bool" where
  "router_inv s \<longleftrightarrow> list_all (key_ok s) (map pair_key (ro_pairs s))
     \<and> sorted (map (\<lambda>k. - uint (snd (snd k))) (map pair_key (ro_pairs s)))
     \<and> pred_option (relay_ok (ro_local_candidates s)) (ro_fallback_relay_path s)
     \<and> pred_option (path_checked s) (ro_active_path s)
     \<and> list_all succeeded_timed (ro_pairs s)
     \<and> (ro_next_probe_cursor s = 0 \<or> ro_next_probe_cursor s < length (ro_pairs s))"

lemma is_direct_key: "pair_key p = pair_key q \<Longrightarrow> is_direct p = is_direct q"
  by (simp add: pair_key_def is_direct_def)

lemma direct_path_key: "pair_key p = pair_key q \<Longrightarrow> direct_path p = direct_path q"
  by (simp add: pair_key_def direct_path_def)

lemma pair_key_update [simp]:
  "pair_key (p\<lparr>pr_state := st\<rparr>) = pair_key p"
  "pair_key (p\<lparr>pr_state := st, pr_rtt_ns := r\<rparr>) = pair_key p"
  by (simp_all add: pair_key_def)

lemma map_pair_key_update:
  "pair_key x = pair_key (ps ! i) \<Longrightarrow> map pair_key (ps[i := x]) = map pair_key ps"
  by (metis list_update_id map_update)

lemma find_SomeD: "find P xs = Some x \<Longrightarrow> x \<in> set xs \<and> P x"
  by (auto simp: find_Some_iff)

lemma router_inv_new: "router_inv (new_router c t)"
  by (simp add: router_inv_def new_router_def)

lemma relay_fallback_ok:
  "relay_fallback locals i peer = Some path \<Longrightarrow> relay_ok locals path"
  by (auto simp: relay_fallback_def relay_ok_def is_ok_iff dest!: find_SomeD)

lemma set_candidates_inv: "router_inv s \<Longrightarrow> router_inv (fst (set_candidates s l r i p))"
proof -
  assume s: "router_inv s"
  have key: "snd (snd (pair_key q)) = pr_priority q" for q
    by (simp add: pair_key_def)
  have "list_all (key_ok t) (map pair_key (make_pairs c l r))"
    if "ro_local_candidates t = l" "ro_remote_candidates t = r" "ro_is_controlling t = c"
      "\<forall>x\<in>set (l @ r). is_ok (validate_candidate x)" for t c
    using that
    by (auto simp: list_all_iff make_pairs_def key_ok_def pair_key_def new_pair_def is_ok_iff split: if_splits)
  moreover have "sorted (map (\<lambda>k. - uint (snd (snd k)))
      (map pair_key (sort_key (\<lambda>p. - uint (pr_priority p)) ps)))" for ps
    by (simp add: comp_def key)
  moreover have "succeeded_timed q" if "q \<in> set (make_pairs c l r)" for q c
    using that by (auto simp: make_pairs_def new_pair_def succeeded_timed_def)
  ultimately show ?thesis
    using s
    by (auto simp: set_candidates_def router_inv_def list_ex_iff list_all_iff
        option.pred_set relay_fallback_ok simp del: map_map split: if_splits)
qed

text \<open>Every other operation keeps the pairs' keys and the fallback, and changes the rest.\<close>

definition same_routes :: "connection_router \<Rightarrow> connection_router \<Rightarrow> bool" where
  "same_routes s t \<longleftrightarrow> map pair_key (ro_pairs t) = map pair_key (ro_pairs s)
     \<and> ro_local_candidates t = ro_local_candidates s \<and> ro_remote_candidates t = ro_remote_candidates s
     \<and> ro_is_controlling t = ro_is_controlling s \<and> ro_fallback_relay_path t = ro_fallback_relay_path s"

lemma same_routes_length: "same_routes s t \<Longrightarrow> length (ro_pairs t) = length (ro_pairs s)"
  unfolding same_routes_def by (metis length_map)

lemma same_routes_key: "same_routes s t \<Longrightarrow> i < length (ro_pairs s) \<Longrightarrow>
  pair_key (ro_pairs t ! i) = pair_key (ro_pairs s ! i)"
  using same_routes_length [of s t] unfolding same_routes_def by (metis nth_map)

lemma same_routes_inv:
  assumes "router_inv s" "same_routes s t" "pred_option (path_checked t) (ro_active_path t)"
    "list_all succeeded_timed (ro_pairs t)"
    "ro_next_probe_cursor t = ro_next_probe_cursor s \<or> ro_next_probe_cursor t < length (ro_pairs t)"
  shows "router_inv t"
proof -
  have "key_ok t = key_ok s"
    using assms(2) by (simp add: same_routes_def key_ok_def fun_eq_iff)
  then show ?thesis
    using assms same_routes_length [OF assms(2)] unfolding router_inv_def same_routes_def
    by (auto simp del: map_map)
qed

lemma same_routes_update_pair:
  "pair_key x = pair_key (ro_pairs s ! i) \<Longrightarrow> same_routes s (s\<lparr>ro_pairs := (ro_pairs s)[i := x]\<rparr>)"
  by (simp add: same_routes_def map_pair_key_update del: map_update)

lemma same_routes_refl [simp]: "same_routes s s"
  by (simp add: same_routes_def)

lemma same_routes_others [simp]:
  "same_routes s (t\<lparr>ro_active_path := a\<rparr>) = same_routes s t"
  "same_routes s (t\<lparr>ro_stats := st\<rparr>) = same_routes s t"
  "same_routes s (t\<lparr>ro_initial_check_started_ns := n\<rparr>) = same_routes s t"
  "same_routes s (t\<lparr>ro_last_probe_ns := l\<rparr>) = same_routes s t"
  "same_routes s (t\<lparr>ro_next_probe_cursor := c\<rparr>) = same_routes s t"
  "same_routes s (t\<lparr>ro_active_path := a, ro_stats := st\<rparr>) = same_routes s t"
  by (simp_all add: same_routes_def)

lemma path_checked_keep:
  assumes "path_checked s path" "same_routes s t"
    and "\<And>i. i < length (ro_pairs s) \<Longrightarrow> direct_path (ro_pairs s ! i) = path \<Longrightarrow>
      pair_checked s (ro_pairs s ! i) \<Longrightarrow> pair_checked t (ro_pairs t ! i)"
  shows "path_checked t path"
proof -
  have fb: "ro_fallback_relay_path t = ro_fallback_relay_path s"
    using assms(2) by (simp add: same_routes_def)
  consider "ro_fallback_relay_path s = Some path"
    | i where "i < length (ro_pairs s)" "direct_path (ro_pairs s ! i) = path" "pair_checked s (ro_pairs s ! i)"
    using assms(1) unfolding path_checked_def by blast
  then show ?thesis
  proof cases
    case (2 i)
    then have "i < length (ro_pairs t)" "direct_path (ro_pairs t ! i) = path" "pair_checked t (ro_pairs t ! i)"
      using same_routes_length [OF assms(2)] direct_path_key [OF same_routes_key [OF assms(2) 2(1)]] assms(3)
      by simp_all
    then show ?thesis unfolding path_checked_def by blast
  qed (simp add: path_checked_def fb)
qed

lemma succeeded_timed_update:
  "list_all succeeded_timed ps \<Longrightarrow> succeeded_timed x \<Longrightarrow> list_all succeeded_timed (ps[i := x])"
  using set_update_subset_insert [of ps i x] by (auto simp: list_all_iff)

lemma fall_back_spec:
  "same_routes s (fst (fall_back s))
   \<and> ro_active_path (fst (fall_back s)) = (case ro_fallback_relay_path s of None \<Rightarrow> ro_active_path s | r \<Rightarrow> r)
   \<and> ro_next_probe_cursor (fst (fall_back s)) = ro_next_probe_cursor s
   \<and> snd (fall_back s) = (case ro_fallback_relay_path s of None \<Rightarrow> Err NoValidPath | Some r \<Rightarrow> Ok r)"
  by (simp add: fall_back_def Let_def same_routes_def comp_def if_distrib cong: if_cong split: option.split)

lemma fall_back_timed:
  "list_all succeeded_timed (ro_pairs s) \<Longrightarrow> list_all succeeded_timed (ro_pairs (fst (fall_back s)))"
  by (auto simp: fall_back_def Let_def list_all_iff succeeded_timed_def split: option.split)

lemma select_initial_path_spec:
  assumes "ro_active_path s = None"
  shows "same_routes s (fst (select_initial_path s now))
    \<and> ro_next_probe_cursor (fst (select_initial_path s now)) = ro_next_probe_cursor s
    \<and> (list_all succeeded_timed (ro_pairs s) \<longrightarrow>
        list_all succeeded_timed (ro_pairs (fst (select_initial_path s now)))
        \<and> pred_option (path_checked (fst (select_initial_path s now)))
            (ro_active_path (fst (select_initial_path s now))))"
proof (cases "find (\<lambda>p. is_direct p \<and> pr_state p = CpSucceeded) (ro_pairs s)")
  case (Some p)
  then obtain i where i: "i < length (ro_pairs s)" "ro_pairs s ! i = p" "is_direct p" "pr_state p = CpSucceeded"
    using find_SomeD [OF Some] by (auto simp: in_set_conv_nth)
  have "pair_checked s p" if "list_all succeeded_timed (ro_pairs s)"
    using that i by (auto simp: pair_checked_def list_all_length succeeded_timed_def)
  then show ?thesis
    using assms Some i(1,2) by (auto simp: select_initial_path_def path_checked_def pair_checked_def)
next
  case None
  define t where "t = s\<lparr>ro_initial_check_started_ns := Some (case ro_initial_check_started_ns s of
    Some t \<Rightarrow> t | None \<Rightarrow> now)\<rparr>"
  have fb: "same_routes s (fst (fall_back t)) \<and> ro_next_probe_cursor (fst (fall_back t)) = ro_next_probe_cursor s
      \<and> (list_all succeeded_timed (ro_pairs s) \<longrightarrow> list_all succeeded_timed (ro_pairs (fst (fall_back t)))
        \<and> pred_option (path_checked (fst (fall_back t))) (ro_active_path (fst (fall_back t))))"
    using fall_back_spec [of t] fall_back_timed [of t] assms
    by (auto simp: t_def same_routes_def path_checked_def split: option.splits)
  let ?el = "saturating_sub now (case ro_initial_check_started_ns s of Some t \<Rightarrow> t | None \<Rightarrow> now)"
  have "select_initial_path s now = fall_back t
      \<or> (\<exists>i st. fst (select_initial_path s now) = t\<lparr>ro_pairs := (ro_pairs s)[i := (ro_pairs s ! i)\<lparr>pr_state := CpInProgress\<rparr>],
            ro_stats := st\<rparr>)
      \<or> fst (select_initial_path s now) = t"
  proof (cases "?el < ro_direct_check_timeout_ns s")
    case False
    then show ?thesis
      using assms None by (simp add: select_initial_path_def Let_def t_def)
  next
    case el: True
    show ?thesis
    proof (cases "position (\<lambda>p. is_direct p \<and> pr_state p = CpWaiting) (ro_pairs s)")
      case (Some i)
      have "\<exists>st. fst (select_initial_path s now) = t\<lparr>ro_pairs := (ro_pairs s)[i := (ro_pairs s ! i)\<lparr>pr_state := CpInProgress\<rparr>],
          ro_stats := st\<rparr>"
        using assms None el Some by (simp add: select_initial_path_def Let_def t_def) blast
      then show ?thesis by blast
    next
      case no: None
      then show ?thesis
        using assms None el
        by (cases "find (\<lambda>p. is_direct p \<and> pr_state p = CpInProgress) (ro_pairs s)")
          (simp_all add: select_initial_path_def Let_def t_def)
    qed
  qed
  then show ?thesis
  proof (elim disjE exE)
    fix i st
    assume "fst (select_initial_path s now) = t\<lparr>ro_pairs := (ro_pairs s)[i := (ro_pairs s ! i)\<lparr>pr_state := CpInProgress\<rparr>],
      ro_stats := st\<rparr>"
    then show ?thesis
      using assms(1) map_pair_key_update [of "(ro_pairs s ! i)\<lparr>pr_state := CpInProgress\<rparr>" "ro_pairs s" i]
        succeeded_timed_update [of "ro_pairs s" "(ro_pairs s ! i)\<lparr>pr_state := CpInProgress\<rparr>" i]
      by (simp add: t_def same_routes_def succeeded_timed_def del: map_update)
  next
    assume eq: "select_initial_path s now = fall_back t"
    show ?thesis unfolding eq by (rule fb)
  next
    assume eq: "fst (select_initial_path s now) = t"
    show ?thesis unfolding eq by (simp add: t_def assms)
  qed
qed

lemma select_initial_path_inv:
  assumes "router_inv s"
  shows "router_inv (fst (select_initial_path s now))"
proof (cases "ro_active_path s")
  case None
  note spec = select_initial_path_spec [OF None, of now]
  have "list_all succeeded_timed (ro_pairs s)" using assms by (simp add: router_inv_def)
  note spec = spec [THEN conjunct1] spec [THEN conjunct2, THEN conjunct1] spec [THEN conjunct2, THEN conjunct2, THEN mp, OF this]
  show ?thesis
    by (rule same_routes_inv [OF assms]) (use spec in blast)+
next
  case (Some p)
  then have "select_initial_path s now = (s, Ok p)"
    by (simp add: select_initial_path_def)
  with assms show ?thesis by (simp only: fst_conv)
qed

lemma record_check_result_inv:
  assumes s: "router_inv s"
  shows "router_inv (fst (record_check_result s i ok rtt))"
proof (cases "i < length (ro_pairs s)")
  case False
  then show ?thesis using s by (simp add: record_check_result_def)
next
  case True
  let ?p = "ro_pairs s ! i" and ?t = "fst (record_check_result s i ok rtt)"
  define x where "x = (if ok then ?p\<lparr>pr_state := CpSucceeded, pr_rtt_ns := Some rtt\<rparr> else ?p\<lparr>pr_state := CpFailed\<rparr>)"
  have key: "pair_key x = pair_key ?p" by (simp add: x_def)
  have pairs: "ro_pairs ?t = (ro_pairs s)[i := x]"
    using True by (simp add: record_check_result_def Let_def x_def split: option.split connection_path.split)
  have t: "same_routes s ?t" "ro_next_probe_cursor ?t = ro_next_probe_cursor s"
    using True same_routes_update_pair [OF key] pairs
    by (auto simp: record_check_result_def Let_def same_routes_def split: option.split connection_path.split)
  have fb: "ro_fallback_relay_path ?t = ro_fallback_relay_path s"
    using t(1) by (simp add: same_routes_def)
  have active: "ro_active_path ?t = (if ok \<and> is_direct ?p \<and> is_using_relay s then Some (direct_path ?p)
      else if \<not> ok \<and> (\<exists>a b c d. ro_active_path s = Some (Direct a b c d (pr_priority ?p)))
        \<and> ro_fallback_relay_path s \<noteq> None then ro_fallback_relay_path s else ro_active_path s)"
    using True by (auto simp: record_check_result_def Let_def is_using_relay_def
        split: option.split connection_path.split)
  have "path_checked ?t path" if p: "ro_active_path ?t = Some path" for path
  proof -
    consider "ok" "is_direct ?p" "path = direct_path ?p" | "ro_fallback_relay_path s = Some path"
      | "ro_active_path s = Some path"
        "\<not> ok \<longrightarrow> ro_fallback_relay_path s = None \<or> direct_path ?p \<noteq> path"
      using p active by (auto simp: direct_path_def split: if_splits)
    then show ?thesis
    proof cases
      case 1
      then have "direct_path (ro_pairs ?t ! i) = path" "pair_checked ?t (ro_pairs ?t ! i)"
        unfolding pairs using True is_direct_key [OF key] direct_path_key [OF key]
        by (simp_all add: pair_checked_def) (simp_all add: x_def)
      with True show ?thesis by (auto simp: path_checked_def pairs)
    next
      case 2
      then show ?thesis by (simp add: path_checked_def fb)
    next
      case 3
      then have "path_checked s path" using s by (simp add: router_inv_def)
      then show ?thesis
        using t(1)
      proof (rule path_checked_keep)
        fix j assume "j < length (ro_pairs s)" "direct_path (ro_pairs s ! j) = path"
          "pair_checked s (ro_pairs s ! j)"
        then show "pair_checked ?t (ro_pairs ?t ! j)"
          using 3(2) is_direct_key [OF key] by (cases "j = i") (auto simp: pairs pair_checked_def fb x_def)
      qed
    qed
  qed
  then have "pred_option (path_checked ?t) (ro_active_path ?t)"
    by (cases "ro_active_path ?t") simp_all
  moreover have "list_all succeeded_timed (ro_pairs ?t)"
    using s unfolding pairs by (auto simp: router_inv_def x_def succeeded_timed_def intro: succeeded_timed_update)
  ultimately show ?thesis
    using same_routes_inv [OF s t(1)] t(2) by blast
qed

text \<open>The probe rotation starts at the cursor and wraps around.\<close>

definition probe_index :: "connection_router \<Rightarrow> nat \<Rightarrow> nat" where
  "probe_index s offset = (ro_next_probe_cursor s + offset) mod length (ro_pairs s)"

lemma find_upt_Some:
  "find P [0..<n] = Some k \<longleftrightarrow> k < n \<and> P k \<and> (\<forall>j<k. \<not> P j)"
  by (auto simp: find_Some_iff)

lemma tick_cases:
  obtains (idle) "tick_background_probing s now = (s, None)"
  | (probed) k st where "is_using_relay s" "k < length (ro_pairs s)"
    "probe_eligible (ro_pairs s ! probe_index s k)"
    "\<And>j. j < k \<Longrightarrow> \<not> probe_eligible (ro_pairs s ! probe_index s j)"
    "tick_background_probing s now = (s\<lparr>ro_pairs := (ro_pairs s)[probe_index s k :=
         (ro_pairs s ! probe_index s k)\<lparr>pr_state := CpInProgress\<rparr>],
       ro_next_probe_cursor := probe_index s (k + 1), ro_last_probe_ns := now, ro_stats := st\<rparr>,
       Some ((ro_pairs s ! probe_index s k)\<lparr>pr_state := CpInProgress\<rparr>))"
proof (cases "find (\<lambda>k. probe_eligible (ro_pairs s ! probe_index s k)) [0..<length (ro_pairs s)]")
  case None
  then show thesis
    by (intro idle) (simp add: tick_background_probing_def probe_index_def)
next
  case (Some k)
  have step: "(probe_index s k + 1) mod length (ro_pairs s) = probe_index s (k + 1)"
    by (simp add: probe_index_def mod_simps)
  show thesis
  proof (cases "is_using_relay s \<and> \<not> saturating_sub now (ro_last_probe_ns s) < ro_probe_interval_ns s")
    case False
    then show thesis by (intro idle) (auto simp: tick_background_probing_def)
  next
    case True
    have found: "k < length (ro_pairs s)" "probe_eligible (ro_pairs s ! probe_index s k)"
      "\<And>j. j < k \<Longrightarrow> \<not> probe_eligible (ro_pairs s ! probe_index s j)"
      using Some unfolding find_upt_Some by blast+
    show thesis
    proof (rule probed [OF _ found])
      show "is_using_relay s" using True by simp
      show "tick_background_probing s now = (s\<lparr>ro_pairs := (ro_pairs s)[probe_index s k :=
           (ro_pairs s ! probe_index s k)\<lparr>pr_state := CpInProgress\<rparr>],
         ro_next_probe_cursor := probe_index s (k + 1), ro_last_probe_ns := now,
         ro_stats := (ro_stats s)\<lparr>st_probes_sent := saturating_add (st_probes_sent (ro_stats s)) 1\<rparr>\<rparr>,
         Some ((ro_pairs s ! probe_index s k)\<lparr>pr_state := CpInProgress\<rparr>))"
        using True Some [unfolded probe_index_def] step [unfolded probe_index_def]
        by (simp add: tick_background_probing_def Let_def probe_index_def)
    qed
  qed
qed

lemma relay_path_keep:
  "router_inv s \<Longrightarrow> is_using_relay s \<Longrightarrow> ro_active_path s = ro_fallback_relay_path s"
  by (auto simp: is_using_relay_def router_inv_def path_checked_def direct_path_def
      split: option.splits connection_path.splits)

lemma tick_inv:
  assumes s: "router_inv s"
  shows "router_inv (fst (tick_background_probing s now))"
proof (cases rule: tick_cases [of s now])
  case (probed k st)
  let ?i = "probe_index s k" and ?t = "fst (tick_background_probing s now)"
  have i: "?i < length (ro_pairs s)" "probe_index s (k + 1) < length (ro_pairs s)"
    unfolding probe_index_def using probed(2) by (intro mod_less_divisor; linarith)+
  have "same_routes s ?t"
    using same_routes_update_pair [of "(ro_pairs s ! ?i)\<lparr>pr_state := CpInProgress\<rparr>" s ?i]
    unfolding probed(5) by (simp add: same_routes_def)
  moreover have "pred_option (path_checked ?t) (ro_active_path ?t)"
    using relay_path_keep [OF s probed(1)] unfolding probed(5)
    by (auto simp: option.pred_set path_checked_def)
  moreover have "list_all succeeded_timed (ro_pairs ?t)"
    using s unfolding probed(5) by (auto simp: router_inv_def succeeded_timed_def intro: succeeded_timed_update)
  moreover have "ro_next_probe_cursor ?t < length (ro_pairs ?t)"
    using i unfolding probed(5) by simp
  ultimately show ?thesis
    using same_routes_inv [OF s] by blast
qed (simp add: s)

lemma router_step_inv: "router_inv s \<Longrightarrow> router_inv (fst (router_step s c))"
  by (cases c) (simp_all add: set_candidates_inv select_initial_path_inv record_check_result_inv tick_inv)

interpretation router: machine_invariant router_step router_inv
  by unfold_locales (rule router_step_inv)

section \<open>Checks that succeeded\<close>

text \<open>
  \<open>check_succeeded tr i\<close>: since the candidates were last replaced, a successful check was reported for
  the pair at index \<open>i\<close>. A pair has a round-trip time only then.
\<close>

type_synonym router_event = "router_cmd \<times> router_reply"

fun replaces_candidates :: "router_event \<Rightarrow> bool" where
  "replaces_candidates (SetCandidates _ _ _ _, SetReply (Inr _)) = True"
| "replaces_candidates _ = False"

definition check_succeeded :: "router_event list \<Rightarrow> nat \<Rightarrow> bool" where
  "check_succeeded tr i \<longleftrightarrow> (\<exists>before rtt reply after. tr = before @ (RecordCheck i True rtt, reply) # after
     \<and> list_all (\<lambda>e. \<not> replaces_candidates e) after)"

definition checks_explained :: "router_event list \<Rightarrow> connection_router \<Rightarrow> bool" where
  "checks_explained tr s \<longleftrightarrow>
     (\<forall>i<length (ro_pairs s). pr_rtt_ns (ro_pairs s ! i) \<noteq> None \<longrightarrow> check_succeeded tr i)"

lemma check_succeeded_mono:
  "check_succeeded tr i \<Longrightarrow> \<not> replaces_candidates e \<Longrightarrow> check_succeeded (tr @ [e]) i"
  unfolding check_succeeded_def
proof (elim exE conjE)
  fix before rtt reply after
  assume "\<not> replaces_candidates e" "tr = before @ (RecordCheck i True rtt, reply) # after"
    "list_all (\<lambda>e. \<not> replaces_candidates e) after"
  then show "\<exists>before rtt reply after'. tr @ [e] = before @ (RecordCheck i True rtt, reply) # after'
      \<and> list_all (\<lambda>e. \<not> replaces_candidates e) after'"
    by (intro exI [of _ before] exI [of _ rtt] exI [of _ reply] exI [of _ "after @ [e]"]) simp
qed

lemma check_succeeded_now: "check_succeeded (tr @ [(RecordCheck i True rtt, reply)]) i"
  unfolding check_succeeded_def
  by (intro exI [of _ tr] exI [of _ rtt] exI [of _ reply] exI [of _ "[]"]) simp

lemma checks_explained_same:
  assumes "checks_explained tr s" and "map pr_rtt_ns (ro_pairs t) = map pr_rtt_ns (ro_pairs s)"
    and "\<not> replaces_candidates e"
  shows "checks_explained (tr @ [e]) t"
proof -
  have "length (ro_pairs t) = length (ro_pairs s)"
    using assms(2) by (metis length_map)
  moreover from this have "pr_rtt_ns (ro_pairs t ! i) = pr_rtt_ns (ro_pairs s ! i)" if "i < length (ro_pairs s)" for i
    using assms(2) that by (metis nth_map)
  ultimately show ?thesis
    using assms(1,3) check_succeeded_mono unfolding checks_explained_def by metis
qed

lemma rtt_update_state: "map pr_rtt_ns (ps[i := (ps ! i)\<lparr>pr_state := st\<rparr>]) = map pr_rtt_ns ps"
  by (cases "i < length ps") (simp_all add: map_update list_update_same_conv list_update_beyond)

lemma select_initial_path_rtt: "map pr_rtt_ns (ro_pairs (fst (select_initial_path s now))) = map pr_rtt_ns (ro_pairs s)"
proof -
  have fb: "map pr_rtt_ns (ro_pairs (fst (fall_back t))) = map pr_rtt_ns (ro_pairs t)" for t
    by (simp add: fall_back_def Let_def comp_def if_distrib cong: if_cong split: option.split)
  show ?thesis
    by (simp add: select_initial_path_def Let_def fb rtt_update_state del: map_update split: option.split)
qed

lemma tick_rtt: "map pr_rtt_ns (ro_pairs (fst (tick_background_probing s now))) = map pr_rtt_ns (ro_pairs s)"
  by (cases rule: tick_cases [of s now]) (simp_all add: rtt_update_state del: map_update)

lemma record_check_result_explained:
  assumes "checks_explained tr s"
  shows "checks_explained (tr @ [(RecordCheck i ok rtt, reply)]) (fst (record_check_result s i ok rtt))"
proof (cases "i < length (ro_pairs s)")
  case False
  then show ?thesis
    using assms by (auto simp: record_check_result_def intro: checks_explained_same)
next
  case True
  let ?p = "ro_pairs s ! i" and ?t = "fst (record_check_result s i ok rtt)"
  have pairs: "ro_pairs ?t = (ro_pairs s)[i := (if ok then ?p\<lparr>pr_state := CpSucceeded, pr_rtt_ns := Some rtt\<rparr>
      else ?p\<lparr>pr_state := CpFailed\<rparr>)]"
    using True by (simp add: record_check_result_def Let_def split: option.split connection_path.split)
  show ?thesis
  proof (cases ok)
    case True
    show ?thesis
      unfolding checks_explained_def pairs
    proof (intro allI impI)
      fix j
      assume "j < length ((ro_pairs s)[i := (if ok then ?p\<lparr>pr_state := CpSucceeded, pr_rtt_ns := Some rtt\<rparr>
          else ?p\<lparr>pr_state := CpFailed\<rparr>)])"
        and "pr_rtt_ns ((ro_pairs s)[i := (if ok then ?p\<lparr>pr_state := CpSucceeded, pr_rtt_ns := Some rtt\<rparr>
          else ?p\<lparr>pr_state := CpFailed\<rparr>)] ! j) \<noteq> None"
      then have "j = i \<or> check_succeeded tr j"
        using assms by (cases "j = i") (simp_all add: checks_explained_def)
      then show "check_succeeded (tr @ [(RecordCheck i ok rtt, reply)]) j"
        using True by (auto intro: check_succeeded_now check_succeeded_mono)
    qed
  next
    case False
    then show ?thesis
      using assms pairs by (intro checks_explained_same [of tr s]) (simp_all add: rtt_update_state del: map_update)
  qed
qed

lemma set_candidates_explained:
  assumes "checks_explained tr s"
  shows "checks_explained (tr @ [(SetCandidates l r j p, SetReply (snd (set_candidates s l r j p)))])
    (fst (set_candidates s l r j p))"
proof (cases "is_ok (snd (set_candidates s l r j p))")
  case True
  then have "ro_pairs (fst (set_candidates s l r j p))
      = sort_key (\<lambda>p. - uint (pr_priority p)) (make_pairs (ro_is_controlling s) l r)"
    by (simp add: set_candidates_def split: if_splits)
  moreover have "pr_rtt_ns q = None" if "q \<in> set (make_pairs c l r)" for c q
    using that by (auto simp: make_pairs_def new_pair_def)
  ultimately show ?thesis
    unfolding checks_explained_def by (metis nth_mem set_sort)
next
  case False
  then have "fst (set_candidates s l r j p) = s" "\<not> replaces_candidates (c, SetReply (snd (set_candidates s l r j p)))" for c
    by (auto simp: set_candidates_def split: if_splits)
  then show ?thesis
    using assms by (auto intro: checks_explained_same)
qed

interpretation router_history: recorded_machine router_step router_inv checks_explained
proof
  fix s tr c
  assume "checks_explained tr s"
  then show "checks_explained (tr @ [(c, snd (router_step s c))]) (fst (router_step s c))"
    by (cases c) (auto simp: set_candidates_explained record_check_result_explained select_initial_path_rtt tick_rtt
        simp del: map_update intro: checks_explained_same)
qed

section \<open>Fairness of the probes\<close>

fun probe_sent :: "router_reply \<Rightarrow> bool" where
  "probe_sent (ProbeReply (Some _)) = True"
| "probe_sent _ = False"

fun keeps_candidates :: "router_cmd \<Rightarrow> bool" where
  "keeps_candidates (SetCandidates _ _ _ _) = False"
| "keeps_candidates _ = True"

definition eligible_at :: "connection_router \<Rightarrow> nat \<Rightarrow> bool" where
  "eligible_at s i \<longleftrightarrow> probe_eligible (ro_pairs s ! i)"

lemma probe_sent_iff: "probe_sent r \<longleftrightarrow> (\<exists>p. r = ProbeReply (Some p))"
  by (cases r rule: probe_sent.cases) simp_all

lemma select_keeps_cursor:
  "ro_next_probe_cursor (fst (select_initial_path s now)) = ro_next_probe_cursor s
   \<and> length (ro_pairs (fst (select_initial_path s now))) = length (ro_pairs s)"
proof (cases "ro_active_path s")
  case None
  from select_initial_path_spec [OF this, of now] show ?thesis
    using same_routes_length by blast
next
  case (Some p)
  then have "select_initial_path s now = (s, Ok p)"
    by (simp add: select_initial_path_def)
  then show ?thesis by simp
qed

lemma record_keeps_cursor:
  "ro_next_probe_cursor (fst (record_check_result s i ok rtt)) = ro_next_probe_cursor s
   \<and> length (ro_pairs (fst (record_check_result s i ok rtt))) = length (ro_pairs s)"
  by (simp add: record_check_result_def Let_def split: option.split connection_path.split)

text \<open>
  The pair at distance \<open>d\<close> ahead of the cursor: a command either probes it, or leaves it nearer by
  at least one for a probe sent and not farther otherwise.
\<close>

definition ahead :: "connection_router \<Rightarrow> nat \<Rightarrow> nat \<Rightarrow> bool" where
  "ahead s d i \<longleftrightarrow> d < length (ro_pairs s) \<and> probe_index s d = i"

lemma ahead_exists: "i < length (ro_pairs s) \<Longrightarrow> \<exists>d. ahead s d i"
proof -
  let ?n = "length (ro_pairs s)" and ?c = "ro_next_probe_cursor s"
  assume i: "i < ?n"
  have "(?c + (i + ?n - ?c mod ?n) mod ?n) mod ?n = (?c mod ?n + (i + ?n - ?c mod ?n)) mod ?n"
    by (simp add: mod_simps)
  also have "\<dots> = (i + ?n) mod ?n"
  proof -
    have "?c mod ?n < ?n" using i by (intro mod_less_divisor) linarith
    then show ?thesis by simp
  qed
  also have "\<dots> = i"
    using i by simp
  finally show ?thesis
    using i by (intro exI [of _ "(i + ?n - ?c mod ?n) mod ?n"])
      (auto simp: ahead_def probe_index_def intro!: mod_less_divisor)
qed

lemma ahead_step:
  assumes ahead: "ahead s d i" and keep: "keeps_candidates c" and el: "eligible_at s i"
    and el': "eligible_at (fst (router_step s c)) i"
  shows "\<exists>d'. ahead (fst (router_step s c)) d' i
    \<and> d' + (if probe_sent (snd (router_step s c)) then 1 else 0) \<le> d"
proof (cases "\<exists>now. c = ProbeTick now")
  case False
  then have "ro_next_probe_cursor (fst (router_step s c)) = ro_next_probe_cursor s
      \<and> length (ro_pairs (fst (router_step s c))) = length (ro_pairs s)"
    "\<not> probe_sent (snd (router_step s c))"
    using keep select_keeps_cursor record_keeps_cursor by (cases c; auto)+
  with ahead show ?thesis
    by (intro exI [of _ d]) (simp add: ahead_def probe_index_def)
next
  case True
  then obtain now where c: "c = ProbeTick now" by blast
  show ?thesis
  proof (cases rule: tick_cases [of s now])
    case idle
    with ahead show ?thesis by (intro exI [of _ d]) (simp add: c)
  next
    case (probed k st)
    let ?n = "length (ro_pairs s)" and ?t = "fst (router_step s c)"
    have d: "d < ?n" "probe_index s d = i" using ahead by (simp_all add: ahead_def)
    have "i < ?n"
      unfolding d(2) [symmetric] probe_index_def using d(1) by (intro mod_less_divisor) linarith
    then have "k \<noteq> d"
      using el' d(2) by (auto simp: c probed(5) eligible_at_def probe_eligible_def)
    moreover have "\<not> d < k"
      using probed(4) [of d] el d(2) by (auto simp: eligible_at_def)
    ultimately have "k < d" by simp
    then obtain e where e: "d = Suc (k + e)"
      using less_iff_Suc_add by blast
    have "(Suc (ro_next_probe_cursor s + k) mod ?n + e) mod ?n = (ro_next_probe_cursor s + d) mod ?n"
      by (simp add: e mod_add_left_eq add.assoc)
    then have "ahead ?t e i"
      using d e by (simp add: ahead_def probe_index_def c probed(5))
    then show ?thesis
      using e by (intro exI [of _ e]) (simp add: c probed(5))
  qed
qed

lemma probes_bounded:
  assumes "ahead s d i" "list_all keeps_candidates cs"
    and "\<And>m. m \<le> length cs \<Longrightarrow> eligible_at (fst (run router_step s (take m cs))) i"
  shows "length (filter probe_sent (snd (run router_step s cs))) \<le> d"
  using assms
proof (induction cs arbitrary: s d)
  case Nil
  then show ?case by simp
next
  case (Cons c cs)
  have el: "eligible_at s i" "eligible_at (fst (router_step s c)) i"
    using Cons.prems(3) [of 0] Cons.prems(3) [of 1] by simp_all
  obtain d' where d': "ahead (fst (router_step s c)) d' i"
    "d' + (if probe_sent (snd (router_step s c)) then 1 else 0) \<le> d"
    using ahead_step [OF Cons.prems(1) _ el] Cons.prems(2) by auto
  have "length (filter probe_sent (snd (run router_step (fst (router_step s c)) cs))) \<le> d'"
    using Cons.prems(2) Cons.prems(3) [of "Suc m" for m] by (intro Cons.IH [OF d'(1)]) auto
  then show ?case using d'(2) by (simp split: if_splits)
qed

section \<open>Mirrored check lists\<close>

definition mirror :: "'a \<times> 'a \<times> 'b \<Rightarrow> 'a \<times> 'a \<times> 'b" where
  "mirror = (\<lambda>(l, r, p). (r, l, p))"

lemma mset_concat_swap:
  "mset (concat (map (\<lambda>x. map (f x) (filter (P x) ys)) xs)) =
   mset (concat (map (\<lambda>y. map (\<lambda>x. f x y) (filter (\<lambda>x. P x y) xs)) ys))"
proof (induction xs)
  case Nil
  then show ?case by (induction ys) simp_all
next
  case (Cons x xs)
  have "mset (concat (map (\<lambda>y. map (\<lambda>x. f x y) (filter (\<lambda>x. P x y) (x # xs))) ys)) =
    mset (map (f x) (filter (P x) ys)) + mset (concat (map (\<lambda>y. map (\<lambda>x. f x y) (filter (\<lambda>x. P x y) xs)) ys))"
    by (induction ys) simp_all
  with Cons show ?case by simp
qed

definition compatible :: "ice_candidate \<Rightarrow> ice_candidate \<Rightarrow> bool" where
  "compatible l r \<longleftrightarrow> ic_transport l = ic_transport r \<and> ic_component l = ic_component r"

definition check_keys :: "bool \<Rightarrow> ice_candidate list \<Rightarrow> ice_candidate list \<Rightarrow> (ice_candidate \<times> ice_candidate \<times> u64) list" where
  "check_keys c locals remotes = concat (map (\<lambda>l. map (\<lambda>r. pair_key (new_pair l r c))
     (filter (compatible l) remotes)) locals)"

lemma make_pairs_keys: "map pair_key (make_pairs c locals remotes) = check_keys c locals remotes"
proof -
  have "map pair_key (concat (map (\<lambda>r. if P r then [g r] else []) remotes))
      = map (\<lambda>r. pair_key (g r)) (filter P remotes)" for P g
    by (induction remotes) simp_all
  then show ?thesis
    by (simp add: make_pairs_def check_keys_def map_concat comp_def compatible_def [abs_def])
qed

lemma check_keys_mirror: "mset (map mirror (check_keys (\<not> c) remotes locals)) = mset (check_keys c locals remotes)"
proof -
  have key: "mirror (pair_key (new_pair r l (\<not> c))) = pair_key (new_pair l r c)" for l r
    using pair_priority_swap [of "ic_priority l" "ic_priority r" c]
    by (simp add: mirror_def pair_key_def new_pair_def)
  have "filter (compatible r) xs = filter (\<lambda>l. compatible l r) xs" for r xs
    by (rule filter_cong) (auto simp: compatible_def)
  then have "map mirror (check_keys (\<not> c) remotes locals) =
      concat (map (\<lambda>r. map (\<lambda>l. pair_key (new_pair l r c)) (filter (\<lambda>l. compatible l r) locals)) remotes)"
    by (simp add: check_keys_def map_concat comp_def key)
  then show ?thesis
    by (simp add: check_keys_def mset_concat_swap [of "\<lambda>l r. pair_key (new_pair l r c)" compatible remotes locals])
qed

lemma set_candidates_pairs:
  "ro_pairs (fst (set_candidates (new_router c t) locals remotes i peer)) =
     (if is_ok (snd (set_candidates (new_router c t) locals remotes i peer))
      then sort_key (\<lambda>p. - uint (pr_priority p)) (make_pairs c locals remotes) else [])"
  by (simp add: set_candidates_def new_router_def)

lemma set_candidates_ok_swap:
  "is_ok (snd (set_candidates (new_router c t) locals remotes i peer)) =
   is_ok (snd (set_candidates (new_router c' t') remotes locals i' peer'))"
  by (auto simp: set_candidates_def)

lemma sorted_mset_unique: "sorted xs \<Longrightarrow> sorted ys \<Longrightarrow> mset xs = mset ys \<Longrightarrow> xs = ys"
  by (metis properties_for_sort)

lemma sorted_by_priority_unique:
  assumes "sorted (map (\<lambda>p. - uint (pr_priority p)) ps)" "sorted (map (\<lambda>p. - uint (pr_priority p)) qs)"
    and "mset (map pr_priority ps) = mset (map pr_priority qs)"
  shows "map pr_priority ps = map pr_priority qs"
proof -
  have "mset (map (\<lambda>w. - uint w) (map pr_priority ps)) = mset (map (\<lambda>w. - uint w) (map pr_priority qs))"
    using assms(3) by (simp only: mset_map)
  then have "map (\<lambda>w. - uint w) (map pr_priority ps) = map (\<lambda>w. - uint w) (map pr_priority qs)"
    using assms(1,2) by (intro sorted_mset_unique) (simp_all add: comp_def)
  then show ?thesis
    by (rule map_injective) (auto simp: inj_on_def word_uint_eq_iff)
qed

section \<open>Gathered exchanges\<close>

lemma wf_ip_wire_ip: "wf_socket a \<Longrightarrow> wf_ip (wire_ip (socket_ip a))"
  by (cases a) simp_all

lemma add_candidate_Ok:
  "add_candidate g mk = (g', Ok c) \<Longrightarrow> cg_candidates g' = cg_candidates g @ [c]
     \<and> c = mk (to_be_bytes (cg_foundation_counter g)) \<and> cg_foundation_counter g' = cg_foundation_counter g + 1
     \<and> validate_candidate c = Ok ()"
  by (auto simp: add_candidate_def next_foundation_def Let_def is_ok_iff split: if_splits)

definition gathered_candidates :: "socket_addr \<Rightarrow> socket_addr option \<Rightarrow> ice_candidate list \<Rightarrow> bool" where
  "gathered_candidates local server_reflexive cs \<longleftrightarrow>
     (\<exists>host rest. cs = host # rest \<and> ic_candidate_type host = CtHost \<and> ic_ip host = wire_ip (socket_ip local)
       \<and> ic_port host = socket_port local \<and> length (ic_foundation host) = 8 \<and> ic_related_address host = None
       \<and> (\<exists>t p k. ic_priority host = compute_candidate_priority t p k)
       \<and> (rest = [] \<or> (\<exists>mapped srflx. rest = [srflx] \<and> server_reflexive = Some mapped
            \<and> ic_ip srflx = wire_ip (socket_ip mapped) \<and> ic_port srflx = socket_port mapped
            \<and> length (ic_foundation srflx) = 8
            \<and> ic_related_address srflx = Some (wire_ip (socket_ip local), socket_port local)
            \<and> (\<exists>t p k. ic_priority srflx = compute_candidate_priority t p k))))"

lemma gather_Ok:
  assumes "gather_candidate_exchange_v1 local server_reflexive exchange_id gen = Ok x"
  shows "\<exists>cs. is_ok (encode_exchange x) \<and> set (cx_candidates x) = set cs
    \<and> length (cx_candidates x) = length cs \<and> gathered_candidates local server_reflexive cs"
proof -
  obtain g1 host where h: "add_host_candidate new_gatherer (wire_ip (socket_ip local)) (socket_port local) 1 0xFFFF = (g1, Ok host)"
    using assms by (auto simp: gather_candidate_exchange_v1_def Let_def split: if_splits prod.splits)
  note hs = add_candidate_Ok [OF h [unfolded add_host_candidate_def]]
  have g1: "cg_candidates g1 = [host]" using hs by (simp add: new_gatherer_def)
  have "\<exists>g2. is_ok (encode_exchange x) \<and> cx_candidates x = snd (finish_gathering g2)
      \<and> (g2 = g1 \<or> (\<exists>mapped srflx. server_reflexive = Some mapped
          \<and> add_srflx_candidate g1 (wire_ip (socket_ip mapped)) (socket_port mapped) (wire_ip (socket_ip local)) (socket_port local) 1 0xFFFF
            = (g2, Ok srflx)))"
    using assms h
    by (auto simp: gather_candidate_exchange_v1_def Let_def split: if_splits prod.splits option.splits)
  then obtain g2 where g2: "is_ok (encode_exchange x)" "cx_candidates x = snd (finish_gathering g2)"
      "g2 = g1 \<or> (\<exists>mapped srflx. server_reflexive = Some mapped
          \<and> add_srflx_candidate g1 (wire_ip (socket_ip mapped)) (socket_port mapped) (wire_ip (socket_ip local)) (socket_port local) 1 0xFFFF
            = (g2, Ok srflx))"
    by blast
  have "gathered_candidates local server_reflexive (cg_candidates g2)"
    using g2(3)
  proof (elim disjE exE conjE)
    assume "g2 = g1"
    with g1 hs show ?thesis by (auto simp: gathered_candidates_def)
  next
    fix mapped srflx
    assume m: "server_reflexive = Some mapped"
      "add_srflx_candidate g1 (wire_ip (socket_ip mapped)) (socket_port mapped) (wire_ip (socket_ip local)) (socket_port local) 1 0xFFFF
        = (g2, Ok srflx)"
    from add_candidate_Ok [OF m(2) [unfolded add_srflx_candidate_def]] g1 hs m(1) show ?thesis
      by (auto simp: gathered_candidates_def)
  qed
  then show ?thesis
    using g2(1,2) by (intro exI [of _ "cg_candidates g2"]) (simp add: finish_gathering_def Let_def)
qed

section \<open>A direct route\<close>

definition host_sample :: ice_candidate where
  "host_sample = relayed_sample\<lparr>ic_priority := compute_candidate_priority CtHost 10 1, ic_candidate_type := CtHost,
     ic_relay_provider := RpNone\<rparr>"

lemma host_sample_valid: "validate_candidate host_sample = Ok ()" "ic_candidate_type host_sample = CtHost"
proof -
  have "replicate 4 (b :: u8) = [b, b, b, b]" for b
    by (simp add: numeral_eq_Suc)
  then show "validate_candidate host_sample = Ok ()"
    by (simp add: host_sample_def relayed_sample_def validate_candidate_def validate_related_def
        compute_candidate_priority_def)
qed (simp add: host_sample_def)

lemmas host_run = set_candidates_def new_router_def make_pairs_def new_pair_def relay_fallback_def is_direct_def
  record_check_result_def is_using_relay_def select_initial_path_def direct_path_def MAX_CANDIDATES_def

section \<open>Properties\<close>

text \<open>
  C23: whatever the router is told, in any order (new candidates, selections, check results, probe
  ticks), its active path is either the relay fallback, which exists only for a validated relayed
  local candidate with a nonzero session and peer (no relay is ever invented), or the path of a
  direct pair of validated, compatible candidates for which a successful check was reported since the
  candidates were last replaced. The pair's check still stands, except that a direct path outlives a
  failed check when there is no relay to leave to. Pairs stay sorted by the priority of their
  candidates.
\<close>

theorem router_path_verified:
  "let s = fst (run router_step (new_router c t) cs); tr = trace router_step (new_router c t) cs in
   router_inv s
   \<and> (\<forall>path. ro_active_path s = Some path \<longrightarrow>
        ro_fallback_relay_path s = Some path \<and> relay_ok (ro_local_candidates s) path
        \<or> (\<exists>i<length (ro_pairs s). is_direct (ro_pairs s ! i) \<and> direct_path (ro_pairs s ! i) = path
            \<and> key_ok s (pair_key (ro_pairs s ! i)) \<and> check_succeeded tr i
            \<and> (pr_state (ro_pairs s ! i) = CpSucceeded
               \<or> pr_state (ro_pairs s ! i) = CpFailed \<and> ro_fallback_relay_path s = None)))"
proof -
  let ?s = "fst (run router_step (new_router c t) cs)"
  have inv: "router_inv ?s"
    by (rule router.run_inv) (rule router_inv_new)
  moreover have "checks_explained (trace router_step (new_router c t) cs) ?s"
    by (rule router_history.run_explained [OF router_inv_new]) (simp add: checks_explained_def new_router_def)
  moreover have "list_all (key_ok ?s) (map pair_key (ro_pairs ?s))"
    "pred_option (relay_ok (ro_local_candidates ?s)) (ro_fallback_relay_path ?s)"
    "pred_option (path_checked ?s) (ro_active_path ?s)"
    using inv unfolding router_inv_def by blast+
  ultimately show ?thesis
    unfolding Let_def
    by (auto simp: path_checked_def pair_checked_def checks_explained_def list_all_length)
qed

theorem router_path_verified_witness:
  "let cs = [SetCandidates [host_sample] [host_sample] 0 [], RecordCheck 0 True 5, SelectInitial 1] in
   ro_active_path (fst (run router_step (new_router True 10) cs))
     = Some (direct_path (new_pair host_sample host_sample True))
   \<and> check_succeeded (trace router_step (new_router True 10) cs) 0"
proof -
  let ?cs = "[SetCandidates [host_sample] [host_sample] 0 [], RecordCheck 0 True 5, SelectInitial 1]"
  let ?s = "fst (run router_step (new_router True 10) ?cs)"
  have s: "ro_active_path ?s = Some (direct_path (new_pair host_sample host_sample True))"
      "length (ro_pairs ?s) = 1" "ro_fallback_relay_path ?s = None"
    using host_sample_valid by (simp_all add: host_run)
  then have "check_succeeded (trace router_step (new_router True 10) ?cs) 0"
    using router_path_verified [of True 10 ?cs] unfolding Let_def by (auto simp del: run_Cons_fst trace_Cons)
  with s(1) show ?thesis
    unfolding Let_def by blast
qed

text \<open>
  C25: background probing starves no direct pair. Take any history without new candidates: if a
  direct pair stays neither succeeded nor under check throughout, then fewer probes were sent than
  there are pairs, so within one round every such pair is probed.
\<close>

theorem probing_starves_no_pair:
  assumes "i < length (ro_pairs s)" "list_all keeps_candidates cs"
    and "\<forall>m\<le>length cs. probe_eligible (ro_pairs (fst (run router_step s (take m cs))) ! i)"
  shows "length (filter probe_sent (snd (run router_step s cs))) < length (ro_pairs s)"
proof -
  obtain d where "ahead s d i" using ahead_exists [OF assms(1)] by blast
  with probes_bounded [of s d i cs] assms(2,3) show ?thesis
    by (auto simp: eligible_at_def ahead_def)
qed

text \<open>
  C24: two peers that exchanged their candidates build mirrored check lists: the controlling side's
  pairs are the controlled side's with local and remote exchanged, with equal priorities, and both
  lists run through the same priorities in the same order. If one side refuses the candidates, so
  does the other.
\<close>

theorem peers_build_mirrored_checks:
  "let s = fst (set_candidates (new_router True t) locals remotes i peer);
       u = fst (set_candidates (new_router False t') remotes locals i' peer')
   in mset (map pair_key (ro_pairs s)) = mset (map mirror (map pair_key (ro_pairs u)))
      \<and> map pr_priority (ro_pairs s) = map pr_priority (ro_pairs u)"
proof -
  let ?s = "fst (set_candidates (new_router True t) locals remotes i peer)"
    and ?u = "fst (set_candidates (new_router False t') remotes locals i' peer')"
  have ok: "is_ok (snd (set_candidates (new_router False t') remotes locals i' peer')) =
      is_ok (snd (set_candidates (new_router True t) locals remotes i peer))"
    by (rule set_candidates_ok_swap)
  have keys: "mset (map pair_key (ro_pairs ?s)) = mset (map mirror (map pair_key (ro_pairs ?u)))"
    using check_keys_mirror [of True remotes locals]
    by (simp add: set_candidates_pairs ok flip: make_pairs_keys)
  have "snd (snd (mirror k)) = snd (snd k)" for k :: "ice_candidate \<times> ice_candidate \<times> u64"
    by (simp add: mirror_def split: prod.split)
  then have "image_mset (\<lambda>k. snd (snd k)) (mset (map pair_key (ro_pairs ?s)))
      = image_mset (\<lambda>k. snd (snd k)) (mset (map pair_key (ro_pairs ?u)))"
    unfolding keys by (simp add: image_mset.compositionality comp_def)
  then have "mset (map pr_priority (ro_pairs ?s)) = mset (map pr_priority (ro_pairs ?u))"
    by (simp add: pair_key_def image_mset.compositionality comp_def)
  then have "map pr_priority (ro_pairs ?s) = map pr_priority (ro_pairs ?u)"
    by (intro sorted_by_priority_unique) (simp_all add: set_candidates_pairs)
  with keys show ?thesis by (simp add: Let_def)
qed

text \<open>
  Once the window for direct checks is over, the first selection decides. It returns, and makes
  active, the path of the highest-priority direct pair whose check succeeded; without one the relay
  fallback; and \<open>NoValidPath\<close> exactly when there is neither.
\<close>

theorem initial_selection_decides:
  assumes "router_inv s" "ro_active_path s = None" "ro_initial_check_started_ns s = Some t0"
    and "ro_direct_check_timeout_ns s \<le> saturating_sub now t0"
  shows "(case snd (select_initial_path s now) of
      Inr path \<Rightarrow> ro_active_path (fst (select_initial_path s now)) = Some path \<and>
        ((\<exists>p\<in>set (ro_pairs s). is_direct p \<and> pr_state p = CpSucceeded \<and> path = direct_path p \<and>
            (\<forall>q\<in>set (ro_pairs s). is_direct q \<and> pr_state q = CpSucceeded \<longrightarrow> pr_priority q \<le> pr_priority p))
         \<or> (\<forall>q\<in>set (ro_pairs s). \<not> (is_direct q \<and> pr_state q = CpSucceeded))
           \<and> ro_fallback_relay_path s = Some path)
    | Inl e \<Rightarrow> e = NoValidPath \<and> ro_fallback_relay_path s = None
        \<and> (\<forall>q\<in>set (ro_pairs s). \<not> (is_direct q \<and> pr_state q = CpSucceeded)))"
proof (cases "find (\<lambda>p. is_direct p \<and> pr_state p = CpSucceeded) (ro_pairs s)")
  case None
  define t where "t = s\<lparr>ro_initial_check_started_ns := Some t0\<rparr>"
  have eq: "select_initial_path s now = fall_back t"
    using assms(2,3) None leD [OF assms(4)] by (simp add: select_initial_path_def Let_def t_def)
  show ?thesis
    unfolding eq using fall_back_spec [of t] None
    by (cases "ro_fallback_relay_path s") (auto simp: t_def find_None_iff)
next
  case (Some p)
  then obtain n where n: "n < length (ro_pairs s)" "p = ro_pairs s ! n" "is_direct p" "pr_state p = CpSucceeded"
    "\<And>j. j < n \<Longrightarrow> \<not> (is_direct (ro_pairs s ! j) \<and> pr_state (ro_pairs s ! j) = CpSucceeded)"
    unfolding find_Some_iff by blast
  have sorted: "sorted (map (\<lambda>q. - uint (pr_priority q)) (ro_pairs s))"
    using assms(1) by (simp add: router_inv_def comp_def pair_key_def)
  have best: "pr_priority q \<le> pr_priority p"
    if "q \<in> set (ro_pairs s)" "is_direct q \<and> pr_state q = CpSucceeded" for q
  proof -
    obtain j where j: "j < length (ro_pairs s)" "q = ro_pairs s ! j"
      using \<open>q \<in> set (ro_pairs s)\<close> by (metis in_set_conv_nth)
    then have "n \<le> j" using n(5) [of j] that(2) by (metis not_less)
    then show ?thesis
      using sorted_nth_mono [OF sorted, of n j] j n(1,2) by (simp add: word_le_def)
  qed
  then show ?thesis
    using assms(2) Some n by (auto simp: select_initial_path_def)
qed

text \<open>
  The exchange a peer gathers for its socket and mapped address is one the other peer decodes to
  the same value; it offers the socket itself as host candidate and at most one mapped candidate
  with the socket as its base, all with priorities that computed pair priorities can hold.
\<close>

theorem gathered_exchange_decodes:
  assumes "wf_socket local" "pred_option wf_socket server_reflexive"
    and ok: "gather_candidate_exchange_v1 local server_reflexive exchange_id gen = Ok x"
  shows "(\<exists>bs. encode_exchange x = Ok bs \<and> decode_exchange bs = Ok x)
    \<and> (\<exists>host\<in>set (cx_candidates x). ic_candidate_type host = CtHost \<and> ic_ip host = wire_ip (socket_ip local)
        \<and> ic_port host = socket_port local)
    \<and> length (cx_candidates x) \<le> 2
    \<and> (\<forall>c\<in>set (cx_candidates x). unat (ic_priority c) < 2 ^ 31 \<and>
        (ic_candidate_type c = CtHost \<or> (\<exists>mapped. server_reflexive = Some mapped \<and> ic_ip c = wire_ip (socket_ip mapped)
           \<and> ic_port c = socket_port mapped \<and> ic_related_address c = Some (wire_ip (socket_ip local), socket_port local))))"
proof -
  obtain cs where enc: "is_ok (encode_exchange x)" and cs: "set (cx_candidates x) = set cs"
      "length (cx_candidates x) = length cs"
    and gathered: "gathered_candidates local server_reflexive cs"
    using gather_Ok [OF ok] by blast
  have "wf_exchange x"
    using gathered assms(1,2) cs(1)
    by (auto simp: wf_exchange_def gathered_candidates_def wf_candidate_def wf_ip_wire_ip)
  with enc have "\<exists>bs. encode_exchange x = Ok bs \<and> decode_exchange bs = Ok x"
    by (auto simp: is_ok_iff decode_exchange_iff)
  then show ?thesis
    using gathered cs candidate_priority_less by (auto simp: gathered_candidates_def)
qed

section \<open>Witnesses\<close>

definition sample_host :: "u8 \<Rightarrow> ice_candidate" where
  "sample_host n = \<lparr>ic_foundation = replicate 8 n, ic_component = 1, ic_transport = TpUdp,
     ic_priority = compute_candidate_priority CtHost (ucast n) 1, ic_candidate_type = CtHost,
     ic_relay_provider = RpNone, ic_ip = V4 [192, 0, 2, n], ic_port = 4000, ic_related_address = None\<rparr>"

definition sample_router :: connection_router where
  "sample_router = (new_router True 10)\<lparr>ro_pairs := [new_pair (sample_host 2) (sample_host 3) True,
       new_pair (sample_host 1) (sample_host 3) True],
     ro_active_path := Some (Relay 1 RpTurn (replicate 16 1)), ro_last_probe_ns := 0\<rparr>"

lemma probing_starves_no_pair_witness:
  "length (filter probe_sent (snd (run router_step sample_router [ProbeTick 500000000]))) < 2"
proof -
  let ?cs = "[ProbeTick 500000000]"
  have direct: "is_direct (new_pair (sample_host a) (sample_host b) c)" for a b c
    by (simp add: is_direct_def new_pair_def sample_host_def)
  have el: "probe_eligible (new_pair (sample_host a) (sample_host b) c)" for a b c
    using direct [of a b c] by (simp add: probe_eligible_def new_pair_def)
  have first: "router_step sample_router (ProbeTick 500000000) =
      (sample_router\<lparr>ro_pairs := [(new_pair (sample_host 2) (sample_host 3) True)\<lparr>pr_state := CpInProgress\<rparr>,
         new_pair (sample_host 1) (sample_host 3) True], ro_next_probe_cursor := 1,
         ro_last_probe_ns := 500000000, ro_stats := (ro_stats sample_router)\<lparr>st_probes_sent := 1\<rparr>\<rparr>,
       ProbeReply (Some ((new_pair (sample_host 2) (sample_host 3) True)\<lparr>pr_state := CpInProgress\<rparr>)))"
    by (simp add: sample_router_def new_router_def tick_background_probing_def is_using_relay_def Let_def
        saturating_sub_def saturating_add_def el upt_rec)
  have "\<forall>m\<le>length ?cs. probe_eligible (ro_pairs (fst (run router_step sample_router (take m ?cs))) ! 1)"
    using first el by (auto simp: le_Suc_eq sample_router_def)
  then show ?thesis
    using probing_starves_no_pair [of 1 sample_router ?cs] by (simp add: sample_router_def)
qed

definition waiting_router :: connection_router where
  "waiting_router = (new_router True 10)\<lparr>ro_local_candidates := [relayed_sample],
     ro_fallback_relay_path := Some (Relay 7 RpTurn (replicate 16 1)), ro_initial_check_started_ns := Some 0\<rparr>"

lemma initial_selection_decides_witness:
  "ro_active_path (fst (select_initial_path waiting_router 10)) = Some (Relay 7 RpTurn (replicate 16 1))"
proof -
  have "replicate 16 (1 :: u8) \<noteq> replicate 16 0" by (simp add: replicate_eq_replicate)
  then have inv: "router_inv waiting_router"
    using relayed_sample_valid
    by (auto simp: router_inv_def waiting_router_def new_router_def relay_ok_def relayed_sample_def)
  have "ro_active_path waiting_router = None" "ro_initial_check_started_ns waiting_router = Some 0"
    "ro_direct_check_timeout_ns waiting_router \<le> saturating_sub 10 0"
    "ro_pairs waiting_router = []" "ro_fallback_relay_path waiting_router = Some (Relay 7 RpTurn (replicate 16 1))"
    by (simp_all add: waiting_router_def new_router_def saturating_sub_def)
  then show ?thesis
    using initial_selection_decides [OF inv, of 0 10] by (simp split: sum.splits)
qed

lemma gathered_exchange_decodes_witness:
  "\<exists>x bs. gather_candidate_exchange_v1 (SocketV4 [192, 0, 2, 1] 4000) None 5 1 = Ok x
     \<and> encode_exchange x = Ok bs \<and> decode_exchange bs = Ok x"
proof -
  let ?local = "SocketV4 [192, 0, 2, 1] 4000"
  have four: "replicate 4 (b :: u8) = [b, b, b, b]" for b
    by (simp add: numeral_eq_Suc)
  define c where "c = \<lparr>ic_foundation = to_be_bytes (1 :: u64), ic_component = 1, ic_transport = TpUdp,
    ic_priority = compute_candidate_priority CtHost 65535 1, ic_candidate_type = CtHost,
    ic_relay_provider = RpNone, ic_ip = V4 [192, 0, 2, 1], ic_port = 4000, ic_related_address = None\<rparr>"
  have valid: "validate_candidate c = Ok ()"
    by (simp add: c_def validate_candidate_def validate_related_def four)
  have host: "add_host_candidate new_gatherer (wire_ip (socket_ip ?local)) (socket_port ?local) 1 0xFFFF
      = (\<lparr>cg_candidates = [c], cg_foundation_counter = 2\<rparr>, Ok c)"
    using valid by (simp add: add_host_candidate_def add_candidate_def next_foundation_def new_gatherer_def
        Let_def MAX_CANDIDATES_def flip: c_def)
  have enc: "is_ok (encode_exchange \<lparr>cx_version = EXCHANGE_VERSION, cx_exchange_id = 5, cx_generation = 1,
      cx_candidates = [c]\<rparr>)"
    using valid by (simp add: encode_exchange_def validate_exchange_def EXCHANGE_VERSION_def Let_def
        MAX_EXCHANGE_CANDIDATES_def encode_candidate_def MAX_CONTROL_BYTES_def)
      (simp add: c_def candidate_bytes_def)
  have "\<exists>x. gather_candidate_exchange_v1 ?local None 5 1 = Ok x"
    using enc host by (simp add: gather_candidate_exchange_v1_def Let_def finish_gathering_def)
  then obtain x where x: "gather_candidate_exchange_v1 ?local None 5 1 = Ok x" by blast
  from gathered_exchange_decodes [OF _ _ x] x show ?thesis by auto
qed

end
