(* ===== verification/Route_Transition.thy ===== *)
theory Route_Transition
  imports Nat_Traversal Control_Wire
begin

text \<open>
  Two-phase route promotion: \<open>src/crates/session/src/route_transition.rs\<close>. A candidate route is
  proposed with a proof, acknowledged by the peer, committed under a new route epoch, and watched
  for a stability window with the previous route kept for a verified rollback. SHA-256 is a
  parameter.
\<close>

section \<open>The controller\<close>

record route_proof =
  ice_nominated :: bool
  exact_mtls :: bool
  transcript_bound :: bool
  consent_fresh :: bool
  transcript_digest :: bytes

definition proof_is_complete :: "route_proof \<Rightarrow> bool" where
  "proof_is_complete p \<longleftrightarrow> ice_nominated p \<and> exact_mtls p \<and> transcript_bound p \<and> consent_fresh p
     \<and> transcript_digest p \<noteq> replicate 32 0"

record promotion_token =
  pt_sequence :: u64
  pt_base_route_epoch :: u64
  pt_stamp :: session_stamp
  pt_route :: connection_path
  pt_route_digest :: bytes
  pt_transcript_digest :: bytes
  pt_expires_at_ns :: u64

datatype route_transition_error = InvalidConfig | InvalidRoute | SameRoute | UnverifiedRoute
  | TransitionInProgress | TokenMismatch | RtInvalidState | RtExpired | NoVerifiedRoute
  | SequenceExhausted | RouteEpochExhausted | RtTimeOverflow

definition ok_or :: "'a option \<Rightarrow> 'e \<Rightarrow> 'e + 'a" where
  "ok_or v e = (case v of Some x \<Rightarrow> Ok x | None \<Rightarrow> Err e)"

definition wire_message :: "promotion_token \<Rightarrow> route_transition_stage
    \<Rightarrow> route_transition_error + route_transition_message" where
  "wire_message t stage = and_then (ok_or (checked_add (pt_base_route_epoch t) 1) RouteEpochExhausted)
     (\<lambda>next_route_epoch. Ok \<lparr>rm_version = WIRE_VERSION, rm_stage = stage, rm_sequence = pt_sequence t,
        rm_base_route_epoch = pt_base_route_epoch t, rm_next_route_epoch = next_route_epoch,
        rm_expires_at_ns = pt_expires_at_ns t, rm_route_digest = pt_route_digest t,
        rm_transcript_digest = pt_transcript_digest t\<rparr>)"

record route_switch =
  sw_sequence :: u64
  sw_route_epoch :: u64
  sw_stamp :: session_stamp
  sw_from :: connection_path
  sw_to :: connection_path

datatype route_health_action = NoChange | Stabilized | RollbackRequired promotion_token

datatype transition_state =
  TsStable
| TsProbing promotion_token connection_path
| TsPrepared promotion_token connection_path
| TsCommitted promotion_token connection_path bytes u64

record route_transition_controller =
  rc_stamp :: session_stamp
  rc_active :: connection_path
  rc_active_transcript_digest :: bytes
  rc_prepare_timeout_ns :: u64
  rc_stability_window_ns :: u64
  rc_next_sequence :: u64
  rc_active_authority :: bool
  rc_state :: transition_state

fun valid_ip :: "wire_ip_addr \<Rightarrow> bool" where
  "valid_ip (V4 octets) \<longleftrightarrow> octets \<noteq> replicate 4 0 \<and> octets \<noteq> replicate 4 255
     \<and> \<not> (224 \<le> octets ! 0 \<and> octets ! 0 \<le> 239)"
| "valid_ip (V6 octets) \<longleftrightarrow> octets \<noteq> replicate 16 0 \<and> octets ! 0 \<noteq> 0xff"

fun valid_path :: "connection_path \<Rightarrow> bool" where
  "valid_path (Direct local_ip local_port remote_ip remote_port pair_priority) \<longleftrightarrow>
     local_port \<noteq> 0 \<and> remote_port \<noteq> 0 \<and> pair_priority \<noteq> 0 \<and> valid_ip local_ip \<and> valid_ip remote_ip
     \<and> is_v4 local_ip = is_v4 remote_ip"
| "valid_path (Relay relay_session_id provider remote_peer_id) \<longleftrightarrow>
     relay_session_id \<noteq> 0 \<and> provider \<noteq> RpNone \<and> remote_peer_id \<noteq> replicate 16 0"

definition ROUTE_DIGEST_LABEL :: bytes where
  "ROUTE_DIGEST_LABEL = map (\<lambda>c. of_nat (of_char c)) ''latencydesk-route-v1''"

fun path_digest_input :: "connection_path \<Rightarrow> bytes" where
  "path_digest_input (Direct local_ip local_port remote_ip remote_port pair_priority) =
     [1] @ ip_bytes local_ip @ to_be_bytes local_port @ ip_bytes remote_ip @ to_be_bytes remote_port
     @ to_be_bytes pair_priority"
| "path_digest_input (Relay relay_session_id provider remote_peer_id) =
     [2] @ to_be_bytes relay_session_id @ [relay_provider_code provider] @ remote_peer_id"

definition connection_path_digest :: "(bytes \<Rightarrow> bytes) \<Rightarrow> connection_path \<Rightarrow> bytes" where
  "connection_path_digest sha256 path = sha256 (ROUTE_DIGEST_LABEL @ path_digest_input path)"

definition new_controller :: "session_stamp \<Rightarrow> connection_path \<Rightarrow> route_proof \<Rightarrow> u64 \<Rightarrow> u64
    \<Rightarrow> route_transition_error + route_transition_controller" where
  "new_controller stamp active active_proof prepare_timeout_ns stability_window_ns =
     (if \<not> is_ok (validate_pending stamp) \<or> authorization_epoch stamp = 0 \<or> display_epoch stamp = 0
         \<or> codec_epoch stamp = 0 \<or> \<not> proof_is_complete active_proof \<or> prepare_timeout_ns = 0
         \<or> stability_window_ns = 0 then Err InvalidConfig
      else if \<not> valid_path active then Err InvalidRoute
      else Ok \<lparr>rc_stamp = stamp, rc_active = active,
        rc_active_transcript_digest = transcript_digest active_proof,
        rc_prepare_timeout_ns = prepare_timeout_ns, rc_stability_window_ns = stability_window_ns,
        rc_next_sequence = 0, rc_active_authority = True, rc_state = TsStable\<rparr>)"

definition accepts_application_route :: "route_transition_controller \<Rightarrow> u64 \<Rightarrow> connection_path \<Rightarrow> bool" where
  "accepts_application_route s epoch route \<longleftrightarrow>
     rc_active_authority s \<and> epoch = route_epoch (rc_stamp s) \<and> route = rc_active s"

definition accepts_packet :: "route_transition_controller \<Rightarrow> session_stamp \<Rightarrow> connection_path \<Rightarrow> bool" where
  "accepts_packet s stamp route \<longleftrightarrow>
     rc_stamp s = stamp \<and> accepts_application_route s (route_epoch stamp) route"

definition rollback_route :: "route_transition_controller \<Rightarrow> connection_path option" where
  "rollback_route s = (case rc_state s of TsCommitted _ previous _ _ \<Rightarrow> Some previous | _ \<Rightarrow> None)"

definition begin_promotion :: "(bytes \<Rightarrow> bytes) \<Rightarrow> route_transition_controller \<Rightarrow> connection_path \<Rightarrow> route_proof
    \<Rightarrow> u64 \<Rightarrow> route_transition_controller \<times> (route_transition_error + promotion_token)" where
  "begin_promotion sha256 s candidate p now_ns =
     (if \<not> rc_active_authority s then (s, Err NoVerifiedRoute)
      else if rc_state s \<noteq> TsStable then (s, Err TransitionInProgress)
      else if candidate = rc_active s then (s, Err SameRoute)
      else if \<not> valid_path candidate then (s, Err InvalidRoute)
      else if \<not> proof_is_complete p then (s, Err UnverifiedRoute)
      else case checked_add (rc_next_sequence s) 1 of
        None \<Rightarrow> (s, Err SequenceExhausted)
      | Some sequence \<Rightarrow> (case checked_add now_ns (rc_prepare_timeout_ns s) of
          None \<Rightarrow> (s, Err RtTimeOverflow)
        | Some expires_at_ns \<Rightarrow>
            let token = \<lparr>pt_sequence = sequence, pt_base_route_epoch = route_epoch (rc_stamp s),
                  pt_stamp = rc_stamp s, pt_route = candidate,
                  pt_route_digest = connection_path_digest sha256 candidate,
                  pt_transcript_digest = transcript_digest p, pt_expires_at_ns = expires_at_ns\<rparr> in
            (s\<lparr>rc_next_sequence := sequence, rc_state := TsProbing token (rc_active s)\<rparr>, Ok token)))"

definition peer_prepared :: "route_transition_controller \<Rightarrow> promotion_token \<Rightarrow> u64
    \<Rightarrow> route_transition_controller \<times> (route_transition_error + unit)" where
  "peer_prepared s token now_ns = (case rc_state s of
     TsProbing expected previous \<Rightarrow>
       if token \<noteq> expected then (s, Err TokenMismatch)
       else if now_ns \<ge> pt_expires_at_ns token then (s\<lparr>rc_state := TsStable\<rparr>, Err RtExpired)
       else (s\<lparr>rc_state := TsPrepared token previous\<rparr>, Ok ())
   | _ \<Rightarrow> (s, Err RtInvalidState))"

definition commit_promotion :: "route_transition_controller \<Rightarrow> promotion_token \<Rightarrow> u64
    \<Rightarrow> route_transition_controller \<times> (route_transition_error + route_switch)" where
  "commit_promotion s token now_ns = (case rc_state s of
     TsPrepared expected previous \<Rightarrow>
       if token \<noteq> expected then (s, Err TokenMismatch)
       else if now_ns \<ge> pt_expires_at_ns token then (s\<lparr>rc_state := TsStable\<rparr>, Err RtExpired)
       else (case checked_add now_ns (rc_stability_window_ns s) of
         None \<Rightarrow> (s, Err RtTimeOverflow)
       | Some stable_at_ns \<Rightarrow> (case checked_add (route_epoch (rc_stamp s)) 1 of
           None \<Rightarrow> (s, Err RouteEpochExhausted)
         | Some epoch \<Rightarrow>
             let stamp = (rc_stamp s)\<lparr>route_epoch := epoch\<rparr> in
             (s\<lparr>rc_stamp := stamp, rc_active_transcript_digest := pt_transcript_digest token,
                rc_active := pt_route token, rc_active_authority := True,
                rc_state := TsCommitted token previous (rc_active_transcript_digest s) stable_at_ns\<rparr>,
              Ok \<lparr>sw_sequence = pt_sequence token, sw_route_epoch = epoch, sw_stamp = stamp,
                  sw_from = previous, sw_to = pt_route token\<rparr>)))
   | _ \<Rightarrow> (s, Err RtInvalidState))"

definition begin_verified_rollback :: "(bytes \<Rightarrow> bytes) \<Rightarrow> route_transition_controller \<Rightarrow> connection_path
    \<Rightarrow> bytes \<Rightarrow> u64 \<Rightarrow> route_transition_controller \<times> (route_transition_error + promotion_token)" where
  "begin_verified_rollback sha256 s previous digest now_ns =
     (if checked_add (route_epoch (rc_stamp s)) 1 = None
      then (s\<lparr>rc_active_authority := False, rc_state := TsStable\<rparr>, Err RouteEpochExhausted)
      else case checked_add (rc_next_sequence s) 1 of
        None \<Rightarrow> (s, Err SequenceExhausted)
      | Some sequence \<Rightarrow> (case checked_add now_ns (rc_prepare_timeout_ns s) of
          None \<Rightarrow> (s, Err RtTimeOverflow)
        | Some expires_at_ns \<Rightarrow>
            let token = \<lparr>pt_sequence = sequence, pt_base_route_epoch = route_epoch (rc_stamp s),
                  pt_stamp = rc_stamp s, pt_route = previous,
                  pt_route_digest = connection_path_digest sha256 previous,
                  pt_transcript_digest = digest, pt_expires_at_ns = expires_at_ns\<rparr> in
            (s\<lparr>rc_next_sequence := sequence, rc_active_authority := False,
               rc_state := TsProbing token (rc_active s)\<rparr>, Ok token)))"

definition settle_committed :: "(bytes \<Rightarrow> bytes) \<Rightarrow> route_transition_controller \<Rightarrow> u64 \<Rightarrow> route_proof
    \<Rightarrow> route_proof \<Rightarrow> route_transition_controller \<times> (route_transition_error + route_health_action)" where
  "settle_committed sha256 s now_ns candidate_proof previous_proof = (case rc_state s of
     TsCommitted token previous previous_digest _ \<Rightarrow>
       if proof_is_complete candidate_proof \<and> transcript_digest candidate_proof = pt_transcript_digest token
       then (s\<lparr>rc_active_authority := True, rc_state := TsStable\<rparr>, Ok Stabilized)
       else if proof_is_complete previous_proof \<and> transcript_digest previous_proof = previous_digest
       then (let (s', r) = begin_verified_rollback sha256 s previous previous_digest now_ns in
             (s', and_then r (\<lambda>rollback. Ok (RollbackRequired rollback))))
       else (s\<lparr>rc_active_authority := False, rc_state := TsStable\<rparr>, Err NoVerifiedRoute)
   | _ \<Rightarrow> (s, Err RtInvalidState))"

definition note_healthy :: "(bytes \<Rightarrow> bytes) \<Rightarrow> route_transition_controller \<Rightarrow> u64 \<Rightarrow> u64 \<Rightarrow> route_proof
    \<Rightarrow> route_proof \<Rightarrow> route_transition_controller \<times> (route_transition_error + route_health_action)" where
  "note_healthy sha256 s sequence now_ns candidate_proof previous_proof = (case rc_state s of
     TsCommitted token _ _ stable_at_ns \<Rightarrow>
       if sequence \<noteq> pt_sequence token then (s, Err TokenMismatch)
       else if now_ns \<ge> stable_at_ns then settle_committed sha256 s now_ns candidate_proof previous_proof
       else if \<not> proof_is_complete candidate_proof
           \<or> transcript_digest candidate_proof \<noteq> pt_transcript_digest token then (s, Err UnverifiedRoute)
       else (s, Ok NoChange)
   | _ \<Rightarrow> (s, Err RtInvalidState))"

definition note_unhealthy :: "(bytes \<Rightarrow> bytes) \<Rightarrow> route_transition_controller \<Rightarrow> u64 \<Rightarrow> u64 \<Rightarrow> route_proof
    \<Rightarrow> route_transition_controller \<times> (route_transition_error + promotion_token)" where
  "note_unhealthy sha256 s sequence now_ns previous_proof = (case rc_state s of
     TsCommitted token previous previous_digest _ \<Rightarrow>
       if sequence \<noteq> pt_sequence token then (s, Err TokenMismatch)
       else if \<not> proof_is_complete previous_proof \<or> transcript_digest previous_proof \<noteq> previous_digest
       then (s\<lparr>rc_active_authority := False, rc_state := TsStable\<rparr>, Err NoVerifiedRoute)
       else begin_verified_rollback sha256 s previous previous_digest now_ns
   | _ \<Rightarrow> (s, Err RtInvalidState))"

definition route_tick :: "(bytes \<Rightarrow> bytes) \<Rightarrow> route_transition_controller \<Rightarrow> u64 \<Rightarrow> route_proof
    \<Rightarrow> route_proof \<Rightarrow> route_transition_controller \<times> (route_transition_error + route_health_action)" where
  "route_tick sha256 s now_ns candidate_proof previous_proof = (case rc_state s of
     TsProbing token _ \<Rightarrow>
       if now_ns \<ge> pt_expires_at_ns token then (s\<lparr>rc_state := TsStable\<rparr>, Ok NoChange) else (s, Ok NoChange)
   | TsPrepared token _ \<Rightarrow>
       if now_ns \<ge> pt_expires_at_ns token then (s\<lparr>rc_state := TsStable\<rparr>, Ok NoChange) else (s, Ok NoChange)
   | TsCommitted _ _ _ stable_at_ns \<Rightarrow>
       if now_ns \<ge> stable_at_ns then settle_committed sha256 s now_ns candidate_proof previous_proof
       else (s, Ok NoChange)
   | TsStable \<Rightarrow> (s, Ok NoChange))"

section \<open>Histories\<close>

datatype route_cmd =
  BeginCmd connection_path route_proof u64
| PreparedCmd promotion_token u64
| CommitCmd promotion_token u64
| HealthyCmd u64 u64 route_proof route_proof
| UnhealthyCmd u64 u64 route_proof
| TickCmd u64 route_proof route_proof

datatype route_reply =
  TokenReply "route_transition_error + promotion_token"
| PreparedReply "route_transition_error + unit"
| SwitchReply "route_transition_error + route_switch"
| HealthReply "route_transition_error + route_health_action"

fun route_step :: "(bytes \<Rightarrow> bytes) \<Rightarrow> route_transition_controller \<Rightarrow> route_cmd
    \<Rightarrow> route_transition_controller \<times> route_reply" where
  "route_step sha s (BeginCmd path p now) = map_prod id TokenReply (begin_promotion sha s path p now)"
| "route_step sha s (PreparedCmd t now) = map_prod id PreparedReply (peer_prepared s t now)"
| "route_step sha s (CommitCmd t now) = map_prod id SwitchReply (commit_promotion s t now)"
| "route_step sha s (HealthyCmd i now c p) = map_prod id HealthReply (note_healthy sha s i now c p)"
| "route_step sha s (UnhealthyCmd i now p) = map_prod id TokenReply (note_unhealthy sha s i now p)"
| "route_step sha s (TickCmd now c p) = map_prod id HealthReply (route_tick sha s now c p)"

text \<open>
  One step, seen from outside: a token is issued by a proposal or by a rollback, confirmed,
  committed, or the controller rests, gives up or stops accepting.
\<close>

inductive route_move :: "route_transition_controller \<Rightarrow> route_cmd \<Rightarrow> route_reply
    \<Rightarrow> route_transition_controller \<Rightarrow> bool" where
  stay: "(\<And>t. r \<noteq> TokenReply (Ok t)) \<Longrightarrow> (\<And>x. r \<noteq> SwitchReply (Ok x)) \<Longrightarrow>
    (\<And>x. r \<noteq> HealthReply (Ok (RollbackRequired x))) \<Longrightarrow> route_move s c r s"
| settle: "rc_state s = TsCommitted t p d e \<Longrightarrow>
    route_move s c (HealthReply (Ok Stabilized)) (s\<lparr>rc_active_authority := True, rc_state := TsStable\<rparr>)"
| lapse: "(\<And>t. r \<noteq> TokenReply (Ok t)) \<Longrightarrow> (\<And>x. r \<noteq> SwitchReply (Ok x)) \<Longrightarrow>
    (\<And>x. r \<noteq> HealthReply (Ok (RollbackRequired x))) \<Longrightarrow> route_move s c r (s\<lparr>rc_state := TsStable\<rparr>)"
| close: "rc_state s = TsCommitted t p d e \<Longrightarrow> (\<And>t. r \<noteq> TokenReply (Ok t)) \<Longrightarrow> (\<And>x. r \<noteq> SwitchReply (Ok x)) \<Longrightarrow>
    (\<And>x. r \<noteq> HealthReply (Ok (RollbackRequired x))) \<Longrightarrow>
    route_move s c r (s\<lparr>rc_active_authority := False, rc_state := TsStable\<rparr>)"
| propose: "rc_active_authority s \<Longrightarrow> rc_state s = TsStable \<Longrightarrow> proof_is_complete p \<Longrightarrow> valid_path path \<Longrightarrow>
    pt_route t = path \<Longrightarrow> pt_transcript_digest t = transcript_digest p \<Longrightarrow>
    rc_next_sequence s < pt_sequence t \<Longrightarrow>
    route_move s (BeginCmd path p now) (TokenReply (Ok t))
      (s\<lparr>rc_next_sequence := pt_sequence t, rc_state := TsProbing t (rc_active s)\<rparr>)"
| roll_back: "rc_state s = TsCommitted tok previous digest e \<Longrightarrow>
    r = TokenReply (Ok t) \<or> r = HealthReply (Ok (RollbackRequired t)) \<Longrightarrow>
    (\<And>path p now. c \<noteq> BeginCmd path p now) \<Longrightarrow>
    pt_route t = previous \<Longrightarrow> pt_transcript_digest t = digest \<Longrightarrow> rc_next_sequence s < pt_sequence t \<Longrightarrow>
    route_move s c r (s\<lparr>rc_next_sequence := pt_sequence t, rc_active_authority := False,
      rc_state := TsProbing t (rc_active s)\<rparr>)"
| prepare: "rc_state s = TsProbing t previous \<Longrightarrow> now < pt_expires_at_ns t \<Longrightarrow>
    route_move s (PreparedCmd t now) (PreparedReply (Ok ())) (s\<lparr>rc_state := TsPrepared t previous\<rparr>)"
| commit: "rc_state s = TsPrepared t previous \<Longrightarrow> now < pt_expires_at_ns t \<Longrightarrow>
    checked_add (route_epoch (rc_stamp s)) 1 = Some epoch \<Longrightarrow> stamp = (rc_stamp s)\<lparr>route_epoch := epoch\<rparr> \<Longrightarrow>
    route_move s (CommitCmd t now) (SwitchReply (Ok \<lparr>sw_sequence = pt_sequence t, sw_route_epoch = epoch,
        sw_stamp = stamp, sw_from = previous, sw_to = pt_route t\<rparr>))
      (s\<lparr>rc_stamp := stamp, rc_active_transcript_digest := pt_transcript_digest t, rc_active := pt_route t,
        rc_active_authority := True, rc_state := TsCommitted t previous (rc_active_transcript_digest s) e\<rparr>)"

text \<open>A step with a result that issues nothing.\<close>

definition issues_nothing :: "route_reply \<Rightarrow> bool" where
  "issues_nothing r \<longleftrightarrow> (\<forall>t. r \<noteq> TokenReply (Ok t)) \<and> (\<forall>x. r \<noteq> SwitchReply (Ok x))
     \<and> (\<forall>x. r \<noteq> HealthReply (Ok (RollbackRequired x)))"

lemma quiet_moves:
  "issues_nothing r \<Longrightarrow> route_move s c r s"
  "issues_nothing r \<Longrightarrow> route_move s c r (s\<lparr>rc_state := TsStable\<rparr>)"
  "issues_nothing r \<Longrightarrow> rc_state s = TsCommitted t p d e \<Longrightarrow>
     route_move s c r (s\<lparr>rc_active_authority := False, rc_state := TsStable\<rparr>)"
  by (auto simp: issues_nothing_def intro: stay lapse close)

lemma issues_nothing_simps [simp]:
  "issues_nothing (TokenReply (Err x))" "issues_nothing (PreparedReply u)" "issues_nothing (SwitchReply (Err x))"
  "issues_nothing (HealthReply (Err x))" "issues_nothing (HealthReply (Ok NoChange))"
  by (simp_all add: issues_nothing_def)

lemma checked_add_1_less: "checked_add a (1 :: u64) = Some b \<Longrightarrow> a < b"
  using checked_add_less [of a 1 b] by simp

lemma begin_promotion_move:
  "route_move s (BeginCmd path p now) (TokenReply (snd (begin_promotion sha s path p now)))
     (fst (begin_promotion sha s path p now))"
proof (cases "snd (begin_promotion sha s path p now)")
  case (Inl e)
  then have "fst (begin_promotion sha s path p now) = s"
    by (auto simp: begin_promotion_def Let_def split: if_splits option.splits)
  with Inl show ?thesis by (simp add: quiet_moves)
next
  case (Inr t)
  then obtain sequence expires where t: "rc_active_authority s" "rc_state s = TsStable" "valid_path path"
      "proof_is_complete p" "checked_add (rc_next_sequence s) 1 = Some sequence"
      "checked_add now (rc_prepare_timeout_ns s) = Some expires" "pt_sequence t = sequence"
      "pt_route t = path" "pt_transcript_digest t = transcript_digest p"
      "fst (begin_promotion sha s path p now) =
        s\<lparr>rc_next_sequence := sequence, rc_state := TsProbing t (rc_active s)\<rparr>"
    by (auto simp: begin_promotion_def Let_def split: if_splits option.splits)
  then show ?thesis
    using propose [of s p path t now] checked_add_1_less [OF t(5)] Inr by simp
qed

lemma rollback_cases:
  fixes s previous digest now sha
  defines "out \<equiv> begin_verified_rollback sha s previous digest now"
  obtains (refused) e where "out = (s, Err e)"
  | (closed) e where "out = (s\<lparr>rc_active_authority := False, rc_state := TsStable\<rparr>, Err e)"
  | (issued) t where "pt_route t = previous" "pt_transcript_digest t = digest"
    "rc_next_sequence s < pt_sequence t"
    "out = (s\<lparr>rc_next_sequence := pt_sequence t, rc_active_authority := False,
       rc_state := TsProbing t (rc_active s)\<rparr>, Ok t)"
proof (cases "checked_add (route_epoch (rc_stamp s)) 1")
  case None
  then show thesis by (intro closed) (simp add: out_def begin_verified_rollback_def)
next
  case epoch: (Some x)
  show thesis
  proof (cases "checked_add (rc_next_sequence s) 1")
    case None
    with epoch show thesis by (intro refused) (simp add: out_def begin_verified_rollback_def)
  next
    case seq: (Some n)
    show thesis
    proof (cases "checked_add now (rc_prepare_timeout_ns s)")
      case None
      with epoch seq show thesis by (intro refused) (simp add: out_def begin_verified_rollback_def)
    next
      case (Some expires)
      with epoch seq show thesis
        using checked_add_1_less [OF seq]
        by (intro issued [of "projr (snd out)"]) (simp_all add: out_def begin_verified_rollback_def Let_def)
    qed
  qed
qed

lemma peer_prepared_move:
  "route_move s (PreparedCmd t now) (PreparedReply (snd (peer_prepared s t now))) (fst (peer_prepared s t now))"
  by (auto simp: peer_prepared_def not_le intro!: quiet_moves prepare split: transition_state.split)

lemma commit_promotion_move:
  "route_move s (CommitCmd t now) (SwitchReply (snd (commit_promotion s t now))) (fst (commit_promotion s t now))"
  by (auto simp: commit_promotion_def Let_def not_le intro!: quiet_moves commit
      split: transition_state.split option.split)

lemma rollback_move:
  assumes "rc_state s = TsCommitted tok previous digest e" "\<And>path p now. c \<noteq> BeginCmd path p now"
    and "\<And>x. issues_nothing (wrap (Err x))"
    and "\<And>t. wrap (Ok t) = TokenReply (Ok t) \<or> wrap (Ok t) = HealthReply (Ok (RollbackRequired t))"
  shows "route_move s c (wrap (snd (begin_verified_rollback sha s previous digest now)))
    (fst (begin_verified_rollback sha s previous digest now))"
proof (cases rule: rollback_cases [of sha s previous digest now])
  case (issued t)
  then show ?thesis
    using roll_back [OF assms(1) assms(4) assms(2)] by simp
qed (use assms quiet_moves in auto)

lemma settle_committed_move:
  assumes "\<And>path p now. c \<noteq> BeginCmd path p now"
  shows "route_move s c (HealthReply (snd (settle_committed sha s now cp pp))) (fst (settle_committed sha s now cp pp))"
proof (cases "rc_state s")
  case (TsCommitted tok previous digest e)
  have "route_move s c (HealthReply (and_then (snd (begin_verified_rollback sha s previous digest now))
      (\<lambda>rollback. Ok (RollbackRequired rollback)))) (fst (begin_verified_rollback sha s previous digest now))"
    using rollback_move [OF TsCommitted assms, of "\<lambda>r. HealthReply (and_then r (\<lambda>rollback. Ok (RollbackRequired rollback)))"]
    by simp
  then show ?thesis
    using settle [OF TsCommitted] quiet_moves(3) [OF _ TsCommitted]
    by (auto simp: settle_committed_def TsCommitted split: prod.split)
qed (simp_all add: settle_committed_def quiet_moves)

lemma note_healthy_move:
  "route_move s (HealthyCmd i now cp pp) (HealthReply (snd (note_healthy sha s i now cp pp)))
     (fst (note_healthy sha s i now cp pp))"
  using settle_committed_move [of "HealthyCmd i now cp pp" s sha now cp pp]
  by (cases "rc_state s") (auto simp: note_healthy_def quiet_moves)

lemma note_unhealthy_move:
  "route_move s (UnhealthyCmd i now pp) (TokenReply (snd (note_unhealthy sha s i now pp)))
     (fst (note_unhealthy sha s i now pp))"
proof (cases "rc_state s")
  case (TsCommitted tok previous digest e)
  have "route_move s (UnhealthyCmd i now pp) (TokenReply (snd (begin_verified_rollback sha s previous digest now)))
      (fst (begin_verified_rollback sha s previous digest now))"
    by (rule rollback_move [OF TsCommitted]) simp_all
  then show ?thesis
    using quiet_moves(3) [OF _ TsCommitted] quiet_moves(1)
    by (auto simp: note_unhealthy_def TsCommitted)
qed (simp_all add: note_unhealthy_def quiet_moves)

lemma route_tick_move:
  "route_move s (TickCmd now cp pp) (HealthReply (snd (route_tick sha s now cp pp))) (fst (route_tick sha s now cp pp))"
  using settle_committed_move [of "TickCmd now cp pp" s sha now cp pp]
  by (cases "rc_state s") (simp_all add: route_tick_def quiet_moves)

lemma route_step_move: "route_move s c (snd (route_step sha s c)) (fst (route_step sha s c))"
  by (cases c) (simp_all add: begin_promotion_move peer_prepared_move commit_promotion_move
      note_healthy_move note_unhealthy_move route_tick_move)

section \<open>Epochs\<close>

text \<open>While a commit is under observation the active route has authority.\<close>

definition controller_inv :: "route_transition_controller \<Rightarrow> bool" where
  "controller_inv s \<longleftrightarrow> (\<forall>t p d e. rc_state s = TsCommitted t p d e \<longrightarrow> rc_active_authority s)"

lemma controller_inv_move: "route_move s c r s' \<Longrightarrow> controller_inv s \<Longrightarrow> controller_inv s'"
  by (induction rule: route_move.induct) (simp_all add: controller_inv_def)

interpretation controller: machine_invariant "route_step sha" controller_inv
  by unfold_locales (rule controller_inv_move [OF route_step_move])

text \<open>
  What an epoch was good for is over: a later epoch is current, or the epoch has lost authority.
\<close>

definition epoch_over :: "route_transition_controller \<Rightarrow> u64 \<Rightarrow> bool" where
  "epoch_over s e \<longleftrightarrow> e < route_epoch (rc_stamp s) \<or> e = route_epoch (rc_stamp s) \<and> \<not> rc_active_authority s"

lemma epoch_over_move:
  "route_move s c r s' \<Longrightarrow> controller_inv s \<Longrightarrow> epoch_over s e \<Longrightarrow> epoch_over s' e"
proof (induction rule: route_move.induct)
  case (commit s t previous now epoch stamp e')
  then show ?case using checked_add_1_less [OF commit.hyps(3)] by (auto simp: epoch_over_def)
qed (auto simp: epoch_over_def controller_inv_def)

lemma route_move_epoch:
  "route_move s c r s' \<Longrightarrow> route_epoch (rc_stamp s) < route_epoch (rc_stamp s')
     \<or> (rc_stamp s' = rc_stamp s \<and> rc_active s' = rc_active s)"
proof (induction rule: route_move.induct)
  case (commit s t previous now epoch stamp e')
  then show ?case using checked_add_1_less [OF commit.hyps(3)] by simp
qed simp_all

lemma epoch_over_run:
  "controller_inv s \<Longrightarrow> epoch_over s e \<Longrightarrow> epoch_over (fst (run (route_step sha) s cs)) e"
proof (induction cs arbitrary: s)
  case (Cons c cs)
  then show ?case
    using controller_inv_move [OF route_step_move] epoch_over_move [OF route_step_move] by simp
qed simp

lemma route_run_epoch:
  "route_epoch (rc_stamp s) < route_epoch (rc_stamp (fst (run (route_step sha) s cs)))
   \<or> (rc_stamp (fst (run (route_step sha) s cs)) = rc_stamp s \<and> rc_active (fst (run (route_step sha) s cs)) = rc_active s)"
proof (induction cs arbitrary: s)
  case (Cons c cs)
  show ?case
    using route_move_epoch [OF route_step_move [of s c sha]] Cons.IH [of "fst (route_step sha s c)"] by auto
qed simp

lemma not_accepted_over: "epoch_over s (route_epoch stamp) \<Longrightarrow> \<not> accepts_packet s stamp route"
  by (auto simp: epoch_over_def accepts_packet_def accepts_application_route_def)

section \<open>Where the active route comes from\<close>

type_synonym route_trace = "(route_cmd \<times> route_reply) list"

text \<open>The first route, or a route proposed earlier with a complete proof.\<close>

definition route_proved :: "connection_path \<Rightarrow> route_trace \<Rightarrow> connection_path \<Rightarrow> bool" where
  "route_proved first tr path \<longleftrightarrow> path = first
     \<or> (\<exists>p now t. (BeginCmd path p now, TokenReply (Ok t)) \<in> set tr \<and> proof_is_complete p \<and> valid_path path)"

definition issued :: "route_cmd \<times> route_reply \<Rightarrow> promotion_token \<Rightarrow> bool" where
  "issued ev t \<longleftrightarrow> snd ev = TokenReply (Ok t) \<or> snd ev = HealthReply (Ok (RollbackRequired t))"

abbreviation prepared_event :: "promotion_token \<Rightarrow> u64 \<Rightarrow> route_cmd \<times> route_reply" where
  "prepared_event t now \<equiv> (PreparedCmd t now, PreparedReply (Ok ()))"

definition token_prepared :: "route_trace \<Rightarrow> promotion_token \<Rightarrow> bool" where
  "token_prepared tr t \<longleftrightarrow> (\<exists>ev n. issued ev t \<and> n < pt_expires_at_ns t \<and> subseq [ev, prepared_event t n] tr)"

definition route_committed :: "route_trace \<Rightarrow> route_switch \<Rightarrow> bool" where
  "route_committed tr sw \<longleftrightarrow> (\<exists>t ev n m. issued ev t \<and> n < pt_expires_at_ns t \<and> m < pt_expires_at_ns t
     \<and> pt_route t = sw_to sw
     \<and> subseq [ev, prepared_event t n, (CommitCmd t m, SwitchReply (Ok sw))] tr)"

definition state_explained :: "connection_path \<Rightarrow> route_trace \<Rightarrow> transition_state \<Rightarrow> bool" where
  "state_explained first tr st = (case st of
     TsStable \<Rightarrow> True
   | TsProbing t previous \<Rightarrow> route_proved first tr (pt_route t) \<and> route_proved first tr previous
       \<and> (\<exists>ev\<in>set tr. issued ev t)
   | TsPrepared t previous \<Rightarrow> route_proved first tr (pt_route t) \<and> route_proved first tr previous
       \<and> token_prepared tr t
   | TsCommitted t previous _ _ \<Rightarrow> route_proved first tr previous)"

definition route_explained :: "route_transition_controller \<Rightarrow> route_trace \<Rightarrow> route_transition_controller \<Rightarrow> bool" where
  "route_explained s0 tr s \<longleftrightarrow> route_proved (rc_active s0) tr (rc_active s)
     \<and> (rc_stamp s = rc_stamp s0 \<and> rc_active s = rc_active s0
        \<or> (\<exists>sw. route_committed tr sw \<and> sw_stamp sw = rc_stamp s \<and> sw_to sw = rc_active s))
     \<and> state_explained (rc_active s0) tr (rc_state s)"

lemma route_proved_snoc: "route_proved first tr path \<Longrightarrow> route_proved first (tr @ [ev]) path"
  by (auto simp: route_proved_def)

lemma token_prepared_snoc: "token_prepared tr t \<Longrightarrow> token_prepared (tr @ [ev]) t"
  unfolding token_prepared_def by (meson subseq_snoc_mono)

lemma route_committed_snoc: "route_committed tr sw \<Longrightarrow> route_committed (tr @ [ev]) sw"
  unfolding route_committed_def by (meson subseq_snoc_mono)

lemma state_explained_snoc: "state_explained first tr st \<Longrightarrow> state_explained first (tr @ [ev]) st"
  by (auto simp: state_explained_def route_proved_snoc token_prepared_snoc split: transition_state.splits)

lemma route_explained_snoc: "route_explained s0 tr s \<Longrightarrow> route_explained s0 (tr @ [ev]) s"
  unfolding route_explained_def
  by (metis route_proved_snoc route_committed_snoc state_explained_snoc)

lemma route_explained_state:
  "route_explained s0 tr s \<Longrightarrow> state_explained (rc_active s0) tr st \<Longrightarrow> rc_stamp t = rc_stamp s \<Longrightarrow>
     rc_active t = rc_active s \<Longrightarrow> rc_state t = st \<Longrightarrow> route_explained s0 tr t"
  by (simp add: route_explained_def)

lemma stable_explained [simp]: "state_explained first tr TsStable"
  by (simp add: state_explained_def)

lemma route_explained_rest:
  "route_explained s0 tr s \<Longrightarrow> route_explained s0 (tr @ [ev]) (s\<lparr>rc_state := TsStable\<rparr>)"
  "route_explained s0 tr s \<Longrightarrow>
     route_explained s0 (tr @ [ev]) (s\<lparr>rc_active_authority := b, rc_state := TsStable\<rparr>)"
  by (drule route_explained_snoc [of _ _ _ ev], simp add: route_explained_def)+

lemma route_explained_move:
  assumes "route_move s c r s'" "route_explained s0 tr s"
  shows "route_explained s0 (tr @ [(c, r)]) s'"
  using assms
proof (induction rule: route_move.induct)
  case (propose s p path t now)
  note old = route_explained_snoc [OF propose.prems, of "(BeginCmd path p now, TokenReply (Ok t))"]
  show ?case
  proof (rule route_explained_state [OF old])
    show "state_explained (rc_active s0) (tr @ [(BeginCmd path p now, TokenReply (Ok t))]) (TsProbing t (rc_active s))"
      using old propose.hyps unfolding state_explained_def route_explained_def
      by (auto simp: route_proved_def issued_def)
  qed simp_all
next
  case (roll_back s tok previous digest e r t c)
  note old = route_explained_snoc [OF roll_back.prems, of "(c, r)"]
  show ?case
  proof (rule route_explained_state [OF old])
    show "state_explained (rc_active s0) (tr @ [(c, r)]) (TsProbing t (rc_active s))"
      using old roll_back.hyps by (auto simp: state_explained_def route_explained_def issued_def)
  qed simp_all
next
  case (prepare s t previous now)
  note old = route_explained_snoc [OF prepare.prems, of "prepared_event t now"]
  obtain ev where ev: "ev \<in> set tr" "issued ev t"
    using prepare.prems prepare.hyps by (auto simp: route_explained_def state_explained_def)
  have "subseq ([ev] @ [prepared_event t now]) (tr @ [prepared_event t now])"
    using ev(1) by (intro subseq_snoc) (simp add: subseq_singleton_left)
  then have "token_prepared (tr @ [prepared_event t now]) t"
    using prepare.hyps(2) ev(2) unfolding token_prepared_def append_Cons append_Nil by blast
  with old prepare.hyps show ?case
    by (auto simp: route_explained_def state_explained_def)
next
  case (commit s t previous now epoch stamp e)
  let ?sw = "\<lparr>sw_sequence = pt_sequence t, sw_route_epoch = epoch, sw_stamp = stamp, sw_from = previous,
    sw_to = pt_route t\<rparr>"
  let ?ev = "(CommitCmd t now, SwitchReply (Ok ?sw))"
  have "token_prepared tr t" "route_proved (rc_active s0) tr (pt_route t)" "route_proved (rc_active s0) tr previous"
    using commit.prems commit.hyps(1) by (simp_all add: route_explained_def state_explained_def)
  then obtain ev n where ev: "issued ev t" "n < pt_expires_at_ns t" "subseq [ev, prepared_event t n] tr"
    unfolding token_prepared_def by blast
  then have "route_committed (tr @ [?ev]) ?sw"
    unfolding route_committed_def
    using commit.hyps(2) subseq_snoc [OF ev(3), of ?ev]
    by (intro exI [of _ t] exI [of _ ev] exI [of _ n] exI [of _ now]) simp
  with \<open>route_proved _ _ (pt_route t)\<close> \<open>route_proved _ _ previous\<close> show ?case
    by (auto simp: route_explained_def state_explained_def route_proved_snoc)
qed (auto intro: route_explained_snoc route_explained_rest)

interpretation route_history: recorded_machine "route_step sha" controller_inv "route_explained s0"
  by unfold_locales (rule route_explained_move [OF route_step_move])

lemma new_controller_Ok:
  "new_controller stamp active p t w = Ok s \<Longrightarrow> rc_stamp s = stamp \<and> rc_active s = active \<and> rc_active_authority s
     \<and> rc_state s = TsStable \<and> rc_next_sequence s = 0 \<and> proof_is_complete p \<and> valid_path active"
  by (auto simp: new_controller_def split: if_splits)

lemma new_controller_explained:
  "new_controller stamp active p t w = Ok s \<Longrightarrow> controller_inv s \<and> route_explained s [] s"
  by (auto dest!: new_controller_Ok simp: controller_inv_def route_explained_def route_proved_def)

section \<open>Properties\<close>

text \<open>
  C11: a packet is accepted only on a route that went through the whole promotion. Take any history
  from a new controller: if a packet passes the gate, its stamp and route are the initial ones, or
  they are those of a switch that was committed under a token that had been issued, acknowledged by
  the peer before its expiry, and committed before its expiry, in this order; and the route is the
  initial one or was proposed with a complete proof.
\<close>

theorem accepted_route_was_promoted:
  assumes "new_controller stamp0 first p0 timeout window = Ok s0"
    and "accepts_packet (fst (run (route_step sha) s0 cs)) stamp route"
  shows "route_proved first (trace (route_step sha) s0 cs) route
    \<and> (stamp = stamp0 \<and> route = first
       \<or> (\<exists>sw. route_committed (trace (route_step sha) s0 cs) sw \<and> sw_stamp sw = stamp \<and> sw_to sw = route))"
proof -
  have "route_explained s0 (trace (route_step sha) s0 cs) (fst (run (route_step sha) s0 cs))"
    using new_controller_explained [OF assms(1)] by (intro route_history.run_explained) blast+
  then show ?thesis
    using assms(2) new_controller_Ok [OF assms(1)]
    by (auto simp: route_explained_def accepts_packet_def accepts_application_route_def)
qed

text \<open>
  C12: no stamp comes back. Once a stamp and route that passed the gate are refused, because the
  route was switched, rolled back or lost its proof, they are refused for ever; and two routes are
  never accepted under stamps of the same epoch.
\<close>

theorem refused_route_stays_refused:
  assumes "controller_inv s" "accepts_packet s stamp route"
  shows "(\<not> accepts_packet (fst (run (route_step sha) s cs)) stamp route \<longrightarrow>
      \<not> accepts_packet (fst (run (route_step sha) s (cs @ ds))) stamp route)
    \<and> (accepts_packet (fst (run (route_step sha) s cs)) stamp' route' \<and> route_epoch stamp' = route_epoch stamp
      \<longrightarrow> stamp' = stamp \<and> route' = route)"
proof (intro conjI impI)
  let ?t = "fst (run (route_step sha) s cs)"
  have s: "rc_stamp s = stamp" "rc_active s = route" "rc_active_authority s"
    using assms(2) by (simp_all add: accepts_packet_def accepts_application_route_def)
  assume "\<not> accepts_packet ?t stamp route"
  then have "epoch_over ?t (route_epoch stamp)"
    using route_run_epoch [of s sha cs] s
    by (auto simp: epoch_over_def accepts_packet_def accepts_application_route_def)
  then have "epoch_over (fst (run (route_step sha) s (cs @ ds))) (route_epoch stamp)"
    using epoch_over_run controller.run_inv [OF assms(1)] by (simp add: run_append_fst)
  then show "\<not> accepts_packet (fst (run (route_step sha) s (cs @ ds))) stamp route"
    by (rule not_accepted_over)
next
  let ?t = "fst (run (route_step sha) s cs)"
  assume t: "accepts_packet ?t stamp' route' \<and> route_epoch stamp' = route_epoch stamp"
  then have t': "rc_stamp ?t = stamp'" "rc_active ?t = route'"
    by (simp_all add: accepts_packet_def accepts_application_route_def)
  have s: "rc_stamp s = stamp" "rc_active s = route"
    using assms(2) by (simp_all add: accepts_packet_def accepts_application_route_def)
  have "\<not> route_epoch (rc_stamp s) < route_epoch (rc_stamp ?t)"
    unfolding t' s using t by simp
  then have "rc_stamp ?t = rc_stamp s" "rc_active ?t = rc_active s"
    using route_run_epoch [of s sha cs] by blast+
  then show "stamp' = stamp" "route' = route"
    unfolding t' s by blast+
qed

text \<open>
  C27: a proven route that the peer acknowledges in time is promoted. From a stable controller with
  authority, proposing a new valid route with a complete proof, hearing from the peer and
  committing before the token expires, and reporting the candidate's proof once the stability
  window is over, ends in a stable controller that accepts exactly the new route under the next
  route epoch. (The counters and clocks must not be at the end of their range.)
\<close>

theorem promotion_completes:
  assumes "rc_active_authority s" "rc_state s = TsStable" "path \<noteq> rc_active s" "valid_path path"
    "proof_is_complete p" "checked_add (rc_next_sequence s) 1 = Some n"
    and "checked_add t0 (rc_prepare_timeout_ns s) = Some deadline" "t1 < deadline" "t2 < deadline"
    and "checked_add t2 (rc_stability_window_ns s) = Some settled" "settled \<le> t3"
    and "checked_add (route_epoch (rc_stamp s)) 1 = Some e"
  shows "\<exists>token. snd (route_step sha s (BeginCmd path p t0)) = TokenReply (Ok token) \<and>
    (let s' = fst (run (route_step sha) s [BeginCmd path p t0, PreparedCmd token t1, CommitCmd token t2,
           TickCmd t3 p q]) in
     rc_state s' = TsStable \<and> (\<forall>stamp route. accepts_packet s' stamp route
        \<longleftrightarrow> stamp = (rc_stamp s)\<lparr>route_epoch := e\<rparr> \<and> route = path))"
proof -
  define token where "token = \<lparr>pt_sequence = n, pt_base_route_epoch = route_epoch (rc_stamp s),
    pt_stamp = rc_stamp s, pt_route = path, pt_route_digest = connection_path_digest sha path,
    pt_transcript_digest = transcript_digest p, pt_expires_at_ns = deadline\<rparr>"
  have token: "pt_expires_at_ns token = deadline" "pt_route token = path"
    "pt_transcript_digest token = transcript_digest p"
    by (simp_all add: token_def)
  define s1 where "s1 = s\<lparr>rc_next_sequence := n, rc_state := TsProbing token (rc_active s)\<rparr>"
  define s2 where "s2 = s1\<lparr>rc_state := TsPrepared token (rc_active s)\<rparr>"
  define s3 where "s3 = s2\<lparr>rc_stamp := (rc_stamp s)\<lparr>route_epoch := e\<rparr>,
    rc_active_transcript_digest := transcript_digest p, rc_active := path, rc_active_authority := True,
    rc_state := TsCommitted token (rc_active s) (rc_active_transcript_digest s) settled\<rparr>"
  have 1: "begin_promotion sha s path p t0 = (s1, Ok token)"
    using assms by (simp add: begin_promotion_def Let_def s1_def token_def)
  have 2: "fst (peer_prepared s1 token t1) = s2"
    using assms(8) token by (simp add: peer_prepared_def s1_def s2_def)
  have 3: "fst (commit_promotion s2 token t2) = s3"
    using assms(9,10,12) token by (simp add: commit_promotion_def Let_def s1_def s2_def s3_def)
  have 4: "fst (route_tick sha s3 t3 p q) = s3\<lparr>rc_active_authority := True, rc_state := TsStable\<rparr>"
    using assms(5,11) token by (simp add: route_tick_def settle_committed_def s3_def)
  have "fst (run (route_step sha) s [BeginCmd path p t0, PreparedCmd token t1, CommitCmd token t2, TickCmd t3 p q])
      = s3\<lparr>rc_active_authority := True, rc_state := TsStable\<rparr>"
    by (simp add: 1 2 3 4)
  then show ?thesis
    by (intro exI [of _ token]) (auto simp: 1 Let_def accepts_packet_def accepts_application_route_def s3_def)
qed

section \<open>Witnesses\<close>

definition sample_proof :: route_proof where
  "sample_proof = \<lparr>ice_nominated = True, exact_mtls = True, transcript_bound = True, consent_fresh = True,
     transcript_digest = replicate 32 1\<rparr>"

definition sample_stamp :: session_stamp where
  "sample_stamp = \<lparr>session_id = 7, generation = 1, authorization_epoch = 1, display_epoch = 1, codec_epoch = 1,
     route_epoch = 1\<rparr>"

abbreviation sample_relay :: "u64 \<Rightarrow> connection_path" where
  "sample_relay i \<equiv> Relay i RpTurn (replicate 16 1)"

definition sample_controller :: route_transition_controller where
  "sample_controller = \<lparr>rc_stamp = sample_stamp, rc_active = sample_relay 1,
     rc_active_transcript_digest = replicate 32 1, rc_prepare_timeout_ns = 100, rc_stability_window_ns = 100,
     rc_next_sequence = 0, rc_active_authority = True, rc_state = TsStable\<rparr>"

lemma replicate_1_0: "0 < n \<Longrightarrow> replicate n (1 :: u8) \<noteq> replicate n 0"
  by (simp add: replicate_eq_replicate)

lemma sample_proof_complete: "proof_is_complete sample_proof"
  by (simp add: proof_is_complete_def sample_proof_def replicate_1_0)

lemma sample_new_controller:
  "new_controller sample_stamp (sample_relay 1) sample_proof 100 100 = Ok sample_controller"
  using sample_proof_complete
  by (simp add: new_controller_def sample_stamp_def validate_pending_def replicate_1_0 sample_controller_def)
    (simp add: sample_proof_def)

lemma accepted_route_was_promoted_witness:
  "route_proved (sample_relay 1) [] (sample_relay 1)"
  using accepted_route_was_promoted [OF sample_new_controller, of id "[]" sample_stamp "sample_relay 1"]
  by (simp add: accepts_packet_def accepts_application_route_def sample_controller_def)

lemma refused_route_stays_refused_witness:
  "controller_inv sample_controller \<and> accepts_packet sample_controller sample_stamp (sample_relay 1)
   \<and> \<not> accepts_packet (fst (run (route_step id) sample_controller [TickCmd 5 sample_proof sample_proof]))
      sample_stamp (sample_relay 2)"
proof -
  have "controller_inv sample_controller" "accepts_packet sample_controller sample_stamp (sample_relay 1)"
    by (simp_all add: controller_inv_def accepts_packet_def accepts_application_route_def sample_controller_def)
  with refused_route_stays_refused [OF this, of id "[TickCmd 5 sample_proof sample_proof]" "[]" sample_stamp
      "sample_relay 2"] show ?thesis
    by auto
qed

lemma promotion_completes_witness:
  "\<exists>token. snd (route_step id sample_controller (BeginCmd (sample_relay 2) sample_proof 0)) = TokenReply (Ok token) \<and>
    accepts_packet (fst (run (route_step id) sample_controller [BeginCmd (sample_relay 2) sample_proof 0,
      PreparedCmd token 1, CommitCmd token 2, TickCmd 102 sample_proof sample_proof]))
      (sample_stamp\<lparr>route_epoch := 2\<rparr>) (sample_relay 2)"
proof -
  have "rc_active_authority sample_controller" "rc_state sample_controller = TsStable"
    "sample_relay 2 \<noteq> rc_active sample_controller" "valid_path (sample_relay 2)"
    "checked_add (rc_next_sequence sample_controller) 1 = Some 1"
    "checked_add 0 (rc_prepare_timeout_ns sample_controller) = Some 100"
    "checked_add 2 (rc_stability_window_ns sample_controller) = Some 102"
    "checked_add (route_epoch (rc_stamp sample_controller)) 1 = Some 2"
    by (simp_all add: sample_controller_def replicate_1_0 checked_add_def sample_stamp_def)
  with promotion_completes [of sample_controller "sample_relay 2" sample_proof 1 0 100 1 2 102 102 2 id sample_proof]
    sample_proof_complete show ?thesis
    by (auto simp: Let_def sample_controller_def)
qed

end
