(* ===== verification/Turn_Wire.thy ===== *)
theory Turn_Wire
  imports Contracts
begin

text \<open>
  The TURN wire subset of the relay: \<open>src/crates/turn-relay/src/wire.rs\<close>. Messages are a STUN
  header and padded attributes, the last of which may be an HMAC over everything before it. HMAC and
  SHA-256 are parameters.
\<close>

section \<open>Messages\<close>

definition MAGIC_COOKIE :: u32 where
  "MAGIC_COOKIE = 0x2112A442"

definition MAX_DATAGRAM_BYTES :: nat where
  "MAX_DATAGRAM_BYTES = 4 * 1024"

definition CHANNEL_MIN :: u16 where
  "CHANNEL_MIN = 0x4000"

definition CHANNEL_MAX :: u16 where
  "CHANNEL_MAX = 0x4fff"

definition TURN_HEADER_LEN :: nat where
  "TURN_HEADER_LEN = 20"

definition ATTRIBUTE_HEADER_LEN :: nat where
  "ATTRIBUTE_HEADER_LEN = 4"

abbreviation MESSAGE_INTEGRITY_SHA256 :: u16 where "MESSAGE_INTEGRITY_SHA256 \<equiv> 0x001c"
abbreviation USERNAME :: u16 where "USERNAME \<equiv> 0x0006"
abbreviation ERROR_CODE :: u16 where "ERROR_CODE \<equiv> 0x0009"
abbreviation CHANNEL_NUMBER :: u16 where "CHANNEL_NUMBER \<equiv> 0x000c"
abbreviation LIFETIME :: u16 where "LIFETIME \<equiv> 0x000d"
abbreviation XOR_PEER_ADDRESS :: u16 where "XOR_PEER_ADDRESS \<equiv> 0x0012"
abbreviation DATA :: u16 where "DATA \<equiv> 0x0013"
abbreviation REALM :: u16 where "REALM \<equiv> 0x0014"
abbreviation NONCE :: u16 where "NONCE \<equiv> 0x0015"
abbreviation XOR_RELAYED_ADDRESS :: u16 where "XOR_RELAYED_ADDRESS \<equiv> 0x0016"
abbreviation REQUESTED_TRANSPORT :: u16 where "REQUESTED_TRANSPORT \<equiv> 0x0019"
abbreviation XOR_MAPPED_ADDRESS :: u16 where "XOR_MAPPED_ADDRESS \<equiv> 0x0020"

datatype turn_class = ClRequest | ClIndication | ClSuccess | ClError

datatype turn_method = MAllocate | MRefresh | MCreatePermission | MChannelBind | MSend | MData

record turn_header =
  th_class :: turn_class
  th_method :: turn_method
  th_transaction_id :: bytes

datatype turn_attribute =
  Username bytes
| Realm bytes
| Nonce bytes
| MessageIntegritySha256 bytes
| RequestedTransport u8
| Lifetime u32
| XorPeerAddress socket_addr
| XorRelayedAddress socket_addr
| XorMappedAddress socket_addr
| ChannelNumber u16
| Data bytes
| ErrorCode u16 bytes

record turn_message =
  tm_header :: turn_header
  tm_attributes :: "turn_attribute list"

datatype wire_error = TooLarge | WTruncated | InvalidHeader | InvalidLength | InvalidPadding
  | UnknownRequired u16 | Duplicate u16 | InvalidAttribute | InvalidTransaction | InvalidMethodClass
  | WInvalidChannel | IntegrityMissing | IntegrityPosition | IntegrityMismatch

definition derive_long_term_key_sha256 :: "(bytes \<Rightarrow> bytes) \<Rightarrow> bytes \<Rightarrow> bytes \<Rightarrow> bytes \<Rightarrow> bytes" where
  "derive_long_term_key_sha256 sha256 username realm password = sha256 (username @ [58] @ realm @ [58] @ password)"

section \<open>Channel data\<close>

definition encode_channel_data :: "u16 \<Rightarrow> bytes \<Rightarrow> wire_error + bytes" where
  "encode_channel_data channel data =
     (if \<not> (CHANNEL_MIN \<le> channel \<and> channel \<le> CHANNEL_MAX) then Err WInvalidChannel
      else if length data > 0xFFFF \<or> length data + 4 > MAX_DATAGRAM_BYTES then Err TooLarge
      else Ok (to_be_bytes channel @ to_be_bytes (of_nat (length data) :: u16) @ data))"

definition decode_channel_data :: "bytes \<Rightarrow> wire_error + u16 \<times> bytes" where
  "decode_channel_data input =
     (if length input > MAX_DATAGRAM_BYTES then Err TooLarge
      else if length input < 4 then Err WTruncated
      else let channel = read_u16 input 0 in
        if \<not> (CHANNEL_MIN \<le> channel \<and> channel \<le> CHANNEL_MAX) then Err WInvalidChannel
        else let exact = 4 + unat (read_u16 input 2); padded = (exact + 3) div 4 * 4 in
          if length input \<noteq> exact \<and> length input \<noteq> padded then Err InvalidLength
          else Ok (channel, slice 4 (exact - 4) input))"

section \<open>Header\<close>

fun method_code :: "turn_method \<Rightarrow> u16" where
  "method_code MAllocate = 0x003"
| "method_code MRefresh = 0x004"
| "method_code MSend = 0x006"
| "method_code MData = 0x007"
| "method_code MCreatePermission = 0x008"
| "method_code MChannelBind = 0x009"

definition decode_method :: "u16 \<Rightarrow> turn_method option" where
  "decode_method v =
     (if v = 0x003 then Some MAllocate else if v = 0x004 then Some MRefresh
      else if v = 0x006 then Some MSend else if v = 0x007 then Some MData
      else if v = 0x008 then Some MCreatePermission else if v = 0x009 then Some MChannelBind
      else None)"

fun class_bits :: "turn_class \<Rightarrow> u16" where
  "class_bits ClRequest = 0"
| "class_bits ClIndication = 1"
| "class_bits ClSuccess = 2"
| "class_bits ClError = 3"

definition encode_type :: "turn_class \<Rightarrow> u16 \<Rightarrow> u16" where
  "encode_type class method =
     push_bit 2 (method AND 0x0f80) OR push_bit 1 (method AND 0x0070) OR (method AND 0x000f)
     OR push_bit 4 (class_bits class AND 1) OR push_bit 7 (class_bits class AND 2)"

definition decode_type :: "u16 \<Rightarrow> (turn_class \<times> u16) option" where
  "decode_type v =
     (if v AND 0xc000 \<noteq> 0 then None
      else let method = (drop_bit 2 v AND 0x0f80) OR (drop_bit 1 v AND 0x0070) OR (v AND 0x000f);
               bits = (drop_bit 4 v AND 1) OR (drop_bit 7 v AND 2) in
        if bits = 0 then Some (ClRequest, method) else if bits = 1 then Some (ClIndication, method)
        else if bits = 2 then Some (ClSuccess, method) else if bits = 3 then Some (ClError, method)
        else None)"

definition validate_turn_header :: "turn_header \<Rightarrow> wire_error + unit" where
  "validate_turn_header h =
     (if th_transaction_id h = replicate 12 0 then Err InvalidTransaction
      else if \<not> (case th_class h of
          ClIndication \<Rightarrow> th_method h = MSend \<or> th_method h = MData
        | _ \<Rightarrow> th_method h \<in> {MAllocate, MRefresh, MCreatePermission, MChannelBind}) then Err InvalidMethodClass
      else Ok ())"

definition decode_turn_header :: "bytes \<Rightarrow> wire_error + turn_header \<times> nat" where
  "decode_turn_header input =
     (if length input > MAX_DATAGRAM_BYTES then Err TooLarge
      else if length input < TURN_HEADER_LEN then Err WTruncated
      else case decode_type (read_u16 input 0) of
        None \<Rightarrow> Err InvalidHeader
      | Some (class, raw_method) \<Rightarrow> (case decode_method raw_method of
          None \<Rightarrow> Err InvalidMethodClass
        | Some method \<Rightarrow>
            let body_len = unat (read_u16 input 2) in
            if slice 4 4 input \<noteq> to_be_bytes MAGIC_COOKIE \<or> body_len mod 4 \<noteq> 0
               \<or> TURN_HEADER_LEN + body_len \<noteq> length input then Err InvalidLength
            else let header = \<lparr>th_class = class, th_method = method, th_transaction_id = slice 8 12 input\<rparr> in
              and_then (validate_turn_header header) (\<lambda>_. Ok (header, body_len))))"

section \<open>Attributes\<close>

definition address_mask :: "bytes \<Rightarrow> bytes" where
  "address_mask transaction_id = to_be_bytes MAGIC_COOKIE @ transaction_id"

definition xor_bytes :: "bytes \<Rightarrow> bytes \<Rightarrow> bytes" where
  "xor_bytes xs ys = map2 (XOR) xs ys"

abbreviation port_mask :: u16 where
  "port_mask \<equiv> ucast (drop_bit 16 MAGIC_COOKIE)"

definition encode_xor_address :: "socket_addr \<Rightarrow> bytes \<Rightarrow> bytes" where
  "encode_xor_address address transaction_id =
     (let mask = address_mask transaction_id in
      case socket_ip address of
        IpV4 octets \<Rightarrow> [0, 0x01] @ to_be_bytes (socket_port address XOR port_mask) @ xor_bytes octets (take 4 mask)
      | IpV6 octets \<Rightarrow> [0, 0x02] @ to_be_bytes (socket_port address XOR port_mask) @ xor_bytes octets mask)"

definition decode_xor_address :: "bytes \<Rightarrow> bytes \<Rightarrow> wire_error + socket_addr" where
  "decode_xor_address v transaction_id =
     (if length v < 4 then Err InvalidAttribute
      else let port = read_u16 v 2 XOR port_mask in
        if port = 0 then Err InvalidAttribute
        else let mask = address_mask transaction_id in
          if v ! 1 = 0x01 \<and> length v = 8 then Ok (SocketV4 (xor_bytes (slice 4 4 v) (take 4 mask)) port)
          else if v ! 1 = 0x02 \<and> length v = 20 then Ok (SocketV6 (xor_bytes (slice 4 16 v) mask) port 0 0)
          else Err InvalidAttribute)"

definition bounded_text :: "bytes \<Rightarrow> nat \<Rightarrow> nat \<Rightarrow> wire_error + bytes" where
  "bounded_text v lo hi =
     (if \<not> (lo \<le> length v \<and> length v \<le> hi) \<or> \<not> valid_utf8 v then Err InvalidAttribute else Ok v)"

text \<open>\<open>chars().count()\<close>: every character has one byte that is not a continuation byte.\<close>

definition utf8_chars :: "bytes \<Rightarrow> nat" where
  "utf8_chars bs = length (filter (\<lambda>b. \<not> utf8_cont b) bs)"

fun encode_attribute :: "turn_attribute \<Rightarrow> bytes \<Rightarrow> wire_error + u16 \<times> bytes" where
  "encode_attribute (Username v) _ = and_then (bounded_text v 1 512) (\<lambda>t. Ok (USERNAME, t))"
| "encode_attribute (Realm v) _ = and_then (bounded_text v 1 127) (\<lambda>t. Ok (REALM, t))"
| "encode_attribute (Nonce v) _ = and_then (bounded_text v 1 763) (\<lambda>t. Ok (NONCE, t))"
| "encode_attribute (MessageIntegritySha256 v) _ = Ok (MESSAGE_INTEGRITY_SHA256, v)"
| "encode_attribute (RequestedTransport protocol) _ = Ok (REQUESTED_TRANSPORT, [protocol, 0, 0, 0])"
| "encode_attribute (Lifetime seconds) _ = Ok (LIFETIME, to_be_bytes seconds)"
| "encode_attribute (XorPeerAddress a) tid = Ok (XOR_PEER_ADDRESS, encode_xor_address a tid)"
| "encode_attribute (XorRelayedAddress a) tid = Ok (XOR_RELAYED_ADDRESS, encode_xor_address a tid)"
| "encode_attribute (XorMappedAddress a) tid = Ok (XOR_MAPPED_ADDRESS, encode_xor_address a tid)"
| "encode_attribute (ChannelNumber channel) _ =
     (if \<not> (CHANNEL_MIN \<le> channel \<and> channel \<le> CHANNEL_MAX) then Err WInvalidChannel
      else Ok (CHANNEL_NUMBER, to_be_bytes channel @ [0, 0]))"
| "encode_attribute (Data data) _ =
     (if length data > MAX_DATAGRAM_BYTES - TURN_HEADER_LEN - ATTRIBUTE_HEADER_LEN then Err TooLarge
      else Ok (DATA, data))"
| "encode_attribute (ErrorCode code reason) _ =
     (if \<not> (300 \<le> code \<and> code \<le> 699) \<or> utf8_chars reason \<ge> 128 \<or> length reason > 0xFFFF - 4
      then Err InvalidAttribute
      else Ok (ERROR_CODE, [0, 0, ucast (code div 100), ucast (code mod 100)] @ reason))"

definition is_known_attribute :: "u16 \<Rightarrow> bool" where
  "is_known_attribute kind \<longleftrightarrow> kind \<in> {USERNAME, REALM, NONCE, MESSAGE_INTEGRITY_SHA256, REQUESTED_TRANSPORT,
     LIFETIME, XOR_PEER_ADDRESS, XOR_RELAYED_ADDRESS, XOR_MAPPED_ADDRESS, CHANNEL_NUMBER, DATA, ERROR_CODE}"

definition decode_error_code :: "bytes \<Rightarrow> wire_error + turn_attribute" where
  "decode_error_code v =
     (let class = v ! 2 AND 0x07 in
      if \<not> (3 \<le> class \<and> class \<le> 6) \<or> v ! 3 > 99 then Err InvalidAttribute
      else let code = ucast class * 100 + ucast (v ! 3) in
        if \<not> valid_utf8 (drop 4 v) then Err InvalidAttribute
        else if \<not> (300 \<le> code \<and> code \<le> 699) \<or> utf8_chars (drop 4 v) \<ge> 128 then Err InvalidAttribute
        else Ok (ErrorCode code (drop 4 v)))"

definition decode_attribute :: "u16 \<Rightarrow> bytes \<Rightarrow> bytes \<Rightarrow> wire_error + turn_attribute option" where
  "decode_attribute kind v tid =
     (if kind = USERNAME then and_then (bounded_text v 1 512) (\<lambda>t. Ok (Some (Username t)))
      else if kind = REALM then and_then (bounded_text v 1 127) (\<lambda>t. Ok (Some (Realm t)))
      else if kind = NONCE then and_then (bounded_text v 1 763) (\<lambda>t. Ok (Some (Nonce t)))
      else if kind = MESSAGE_INTEGRITY_SHA256 \<and> length v = 32 then Ok (Some (MessageIntegritySha256 v))
      else if kind = REQUESTED_TRANSPORT \<and> length v = 4 then Ok (Some (RequestedTransport (v ! 0)))
      else if kind = LIFETIME \<and> length v = 4 then Ok (Some (Lifetime (from_be_bytes v)))
      else if kind = XOR_PEER_ADDRESS then and_then (decode_xor_address v tid) (\<lambda>a. Ok (Some (XorPeerAddress a)))
      else if kind = XOR_RELAYED_ADDRESS
        then and_then (decode_xor_address v tid) (\<lambda>a. Ok (Some (XorRelayedAddress a)))
      else if kind = XOR_MAPPED_ADDRESS
        then and_then (decode_xor_address v tid) (\<lambda>a. Ok (Some (XorMappedAddress a)))
      else if kind = CHANNEL_NUMBER \<and> length v = 4 \<and> CHANNEL_MIN \<le> read_u16 v 0 \<and> read_u16 v 0 \<le> CHANNEL_MAX
        then Ok (Some (ChannelNumber (read_u16 v 0)))
      else if kind = DATA then Ok (Some (Data v))
      else if kind = ERROR_CODE \<and> length v \<ge> 4 then and_then (decode_error_code v) (\<lambda>a. Ok (Some a))
      else if kind \<ge> 0x8000 then Ok None
      else if \<not> is_known_attribute kind then Err (UnknownRequired kind)
      else Err InvalidAttribute)"

definition padding_len :: "nat \<Rightarrow> nat" where
  "padding_len n = (4 - n mod 4) mod 4"

definition append_attribute :: "bytes \<Rightarrow> u16 \<Rightarrow> bytes \<Rightarrow> wire_error + bytes" where
  "append_attribute output kind v =
     (if length v > 0xFFFF then Err TooLarge
      else let next_len = length output + ATTRIBUTE_HEADER_LEN + length v + padding_len (length v) in
        if next_len > MAX_DATAGRAM_BYTES then Err TooLarge
        else Ok (output @ to_be_bytes kind @ to_be_bytes (of_nat (length v) :: u16) @ v
               @ replicate (padding_len (length v)) 0))"

definition write_length :: "bytes \<Rightarrow> nat \<Rightarrow> bytes" where
  "write_length output n = take 2 output @ to_be_bytes (of_nat n :: u16) @ drop 4 output"

definition finish_length :: "bytes \<Rightarrow> wire_error + bytes" where
  "finish_length output =
     (if length output < TURN_HEADER_LEN \<or> length output > MAX_DATAGRAM_BYTES then Err TooLarge
      else if length output - TURN_HEADER_LEN > 0xFFFF then Err TooLarge
      else Ok (write_length output (length output - TURN_HEADER_LEN)))"

definition read_raw_attribute :: "bytes \<Rightarrow> nat \<Rightarrow> nat \<Rightarrow> wire_error + u16 \<times> bytes \<times> nat" where
  "read_raw_attribute input cursor end_pos =
     (let value_start = cursor + ATTRIBUTE_HEADER_LEN in
      if value_start > end_pos then Err WTruncated
      else let kind = read_u16 input cursor; value_len = unat (read_u16 input (cursor + 2));
               value_end = value_start + value_len in
        if value_end > end_pos then Err WTruncated
        else let next_pos = value_end + padding_len value_len in
          if next_pos > end_pos then Err InvalidPadding
          else Ok (kind, slice value_start value_len input, next_pos))"

section \<open>Whole messages\<close>

definition repeat_peer :: "turn_header \<Rightarrow> u16 \<Rightarrow> bool" where
  "repeat_peer h kind \<longleftrightarrow> kind = XOR_PEER_ADDRESS \<and> th_method h = MCreatePermission \<and> th_class h = ClRequest"

fun encode_attributes :: "turn_header \<Rightarrow> u16 list \<Rightarrow> bytes \<Rightarrow> turn_attribute list \<Rightarrow> wire_error + bytes" where
  "encode_attributes h seen output [] = Ok output"
| "encode_attributes h seen output (a # as) =
     and_then (encode_attribute a (th_transaction_id h)) (\<lambda>(kind, v).
       if kind \<in> set seen \<and> \<not> repeat_peer h kind then Err (Duplicate kind)
       else if kind = MESSAGE_INTEGRITY_SHA256 \<and> as \<noteq> [] then Err IntegrityPosition
       else and_then (append_attribute output kind v) (\<lambda>output'.
         encode_attributes h (kind # seen) output' as))"

definition turn_prefix :: "turn_header \<Rightarrow> bytes" where
  "turn_prefix h = to_be_bytes (encode_type (th_class h) (method_code (th_method h))) @ [0, 0]
     @ to_be_bytes MAGIC_COOKIE @ th_transaction_id h"

definition encode_message :: "turn_message \<Rightarrow> wire_error + bytes" where
  "encode_message m = and_then (validate_turn_header (tm_header m)) (\<lambda>_.
     and_then (encode_attributes (tm_header m) [] (turn_prefix (tm_header m)) (tm_attributes m)) finish_length)"

fun is_integrity :: "turn_attribute \<Rightarrow> bool" where
  "is_integrity (MessageIntegritySha256 _) = True"
| "is_integrity _ = False"

definition encode_with_integrity :: "(bytes \<Rightarrow> bytes \<Rightarrow> bytes) \<Rightarrow> turn_message \<Rightarrow> bytes \<Rightarrow> wire_error + bytes" where
  "encode_with_integrity hmac m key =
     (if list_ex is_integrity (tm_attributes m) then Err (Duplicate MESSAGE_INTEGRITY_SHA256)
      else and_then (encode_message m) (\<lambda>output.
        let final_len = length output + (ATTRIBUTE_HEADER_LEN + 32) in
        if final_len > MAX_DATAGRAM_BYTES then Err TooLarge
        else let output = write_length output (final_len - TURN_HEADER_LEN);
                 integrity = hmac key output in
          append_attribute output MESSAGE_INTEGRITY_SHA256 integrity))"

lemma read_raw_attribute_progress:
  "read_raw_attribute input cursor end_pos = Ok (kind, v, next_pos) \<Longrightarrow> cursor < next_pos \<and> next_pos \<le> end_pos"
  by (auto simp: read_raw_attribute_def Let_def ATTRIBUTE_HEADER_LEN_def split: if_splits)

text \<open>The attribute loops run from the cursor to the end; every attribute moves the cursor on.\<close>

function decode_attributes :: "bytes \<Rightarrow> turn_header \<Rightarrow> nat \<Rightarrow> nat \<Rightarrow> u16 list \<Rightarrow> bool
    \<Rightarrow> wire_error + turn_attribute list" where
  "decode_attributes input h cursor end_pos seen integrity_seen =
     (if cursor < end_pos then
        (case read_raw_attribute input cursor end_pos of
           Inl e \<Rightarrow> Err e
         | Inr (kind, v, next_pos) \<Rightarrow>
             if integrity_seen then Err IntegrityPosition
             else if kind \<in> set seen \<and> \<not> repeat_peer h kind then Err (Duplicate kind)
             else and_then (decode_attribute kind v (th_transaction_id h)) (\<lambda>attribute.
               and_then (decode_attributes input h next_pos end_pos (kind # seen)
                   (kind = MESSAGE_INTEGRITY_SHA256)) (\<lambda>rest.
                 Ok (case attribute of Some a \<Rightarrow> a # rest | None \<Rightarrow> rest))))
      else Ok [])"
  by pat_completeness auto
termination
  by (relation "measure (\<lambda>(_, _, cursor, end_pos, _, _). end_pos - cursor)")
    (auto dest: read_raw_attribute_progress)

declare decode_attributes.simps [simp del]

definition decode_message :: "bytes \<Rightarrow> wire_error + turn_message" where
  "decode_message input = and_then (decode_turn_header input) (\<lambda>(header, body_len).
     and_then (decode_attributes input header TURN_HEADER_LEN (TURN_HEADER_LEN + body_len) [] False)
       (\<lambda>attributes. Ok \<lparr>tm_header = header, tm_attributes = attributes\<rparr>))"

function find_integrity :: "bytes \<Rightarrow> nat \<Rightarrow> nat \<Rightarrow> (nat \<times> bytes) option
    \<Rightarrow> wire_error + (nat \<times> bytes) option" where
  "find_integrity input cursor end_pos integrity =
     (if cursor < end_pos then
        (case read_raw_attribute input cursor end_pos of
           Inl e \<Rightarrow> Err e
         | Inr (kind, v, next_pos) \<Rightarrow>
             if kind = MESSAGE_INTEGRITY_SHA256 then
               if length v \<noteq> 32 \<or> next_pos \<noteq> end_pos \<or> integrity \<noteq> None then Err IntegrityPosition
               else find_integrity input next_pos end_pos (Some (cursor, v))
             else find_integrity input next_pos end_pos integrity)
      else Ok integrity)"
  by pat_completeness auto
termination
  by (relation "measure (\<lambda>(_, cursor, end_pos, _). end_pos - cursor)")
    (auto dest: read_raw_attribute_progress)

declare find_integrity.simps [simp del]

definition verify_integrity :: "(bytes \<Rightarrow> bytes \<Rightarrow> bytes) \<Rightarrow> bytes \<Rightarrow> bytes \<Rightarrow> wire_error + turn_message" where
  "verify_integrity hmac input key = and_then (decode_turn_header input) (\<lambda>(_, body_len).
     and_then (find_integrity input TURN_HEADER_LEN (TURN_HEADER_LEN + body_len) None) (\<lambda>integrity.
       case integrity of
         None \<Rightarrow> Err IntegrityMissing
       | Some (start, supplied) \<Rightarrow>
           let integrity_end = start + (ATTRIBUTE_HEADER_LEN + 32);
               prefix = write_length (take start input) (integrity_end - TURN_HEADER_LEN);
               expected = hmac key prefix in
           if expected \<noteq> supplied then Err IntegrityMismatch
           else decode_message input))"

section \<open>Reading what was written\<close>

text \<open>
  The messages that can be read back. The encoder writes any address, but the decoder refuses port
  zero, and the wire form has no place for the flow label and the scope of an IPv6 address.
\<close>

fun wf_turn_address :: "socket_addr \<Rightarrow> bool" where
  "wf_turn_address (SocketV4 octets port) \<longleftrightarrow> length octets = 4 \<and> port \<noteq> 0"
| "wf_turn_address (SocketV6 octets port flow scope) \<longleftrightarrow> length octets = 16 \<and> port \<noteq> 0 \<and> flow = 0 \<and> scope = 0"

fun wf_turn_attribute :: "turn_attribute \<Rightarrow> bool" where
  "wf_turn_attribute (MessageIntegritySha256 v) \<longleftrightarrow> length v = 32"
| "wf_turn_attribute (XorPeerAddress a) \<longleftrightarrow> wf_turn_address a"
| "wf_turn_attribute (XorRelayedAddress a) \<longleftrightarrow> wf_turn_address a"
| "wf_turn_attribute (XorMappedAddress a) \<longleftrightarrow> wf_turn_address a"
| "wf_turn_attribute (ErrorCode _ reason) \<longleftrightarrow> valid_utf8 reason"
| "wf_turn_attribute _ \<longleftrightarrow> True"

definition wf_turn_message :: "turn_message \<Rightarrow> bool" where
  "wf_turn_message m \<longleftrightarrow> length (th_transaction_id (tm_header m)) = 12 \<and> list_all wf_turn_attribute (tm_attributes m)"

lemma read_u16_append [simp]: "read_u16 (xs @ ys) (length xs + n) = read_u16 ys n"
  "read_u16 (xs @ ys) (length xs) = read_u16 ys 0"
  by (simp_all add: read_u16_def slice_append)

lemma from_be_to_be_u16 [simp]: "from_be_bytes (to_be_bytes w) = w" for w :: u16
  by (rule from_be_to_be) simp

lemma read_u16_to_be [simp]: "read_u16 (to_be_bytes w @ ys) 0 = w"
  by (simp add: read_u16_def slice_append slice_0_self)

lemma read_u16_to_be_next [simp]: "read_u16 (to_be_bytes (v :: u16) @ to_be_bytes w @ ys) 2 = w"
  using read_u16_append(1) [of "to_be_bytes v" "to_be_bytes w @ ys" 0] by simp

lemma xor_masked: "(a XOR m) XOR m = (a :: 'a::len word)"
  by (simp add: xor.assoc)

lemma xor_bytes_self: "length ys \<le> length m \<Longrightarrow> xor_bytes (xor_bytes ys m) m = ys"
proof (induction ys arbitrary: m)
  case (Cons y ys)
  then show ?case by (cases m) (simp_all add: xor_bytes_def xor_masked)
qed (simp add: xor_bytes_def)

lemma length_xor_bytes [simp]: "length (xor_bytes xs ys) = min (length xs) (length ys)"
  by (simp add: xor_bytes_def)

lemma decode_encode_xor_address:
  assumes "wf_turn_address a" "length tid = 12"
  shows "decode_xor_address (encode_xor_address a tid) tid = Ok a"
proof (cases a)
  case (SocketV4 octets port)
  then show ?thesis
    using assms xor_bytes_self [of octets "take 4 (address_mask tid)"]
    by (simp add: encode_xor_address_def decode_xor_address_def Let_def read_u16_def address_mask_def
        wire_simps xor_masked)
next
  case (SocketV6 octets port flow scope)
  then show ?thesis
    using assms xor_bytes_self [of octets "address_mask tid"]
    by (simp add: encode_xor_address_def decode_xor_address_def Let_def read_u16_def address_mask_def
        wire_simps xor_masked)
qed

lemma error_code_parts:
  fixes c :: u16
  assumes "300 \<le> c" "c \<le> 699"
  shows "ucast ((ucast (c div 100) :: u8) AND 7) * 100 + ucast (ucast (c mod 100) :: u8) = c"
    and "3 \<le> (ucast (c div 100) :: u8) AND 7" "(ucast (c div 100) :: u8) AND 7 \<le> 6" "(ucast (c mod 100) :: u8) \<le> 99"
proof -
  have c: "300 \<le> unat c" "unat c \<le> 699" using assms by (simp_all add: word_le_nat_alt)
  then have "unat c div 100 \<in> {3, 4, 5, 6}" by auto
  then have d: "c div 100 \<in> {3, 4, 5, 6}" by (auto simp: word_unat_eq_iff unat_div)
  have m: "unat (c mod 100) \<le> 99" by (simp add: unat_mod)
  have m': "unat (ucast (c mod 100) :: u8) = unat (c mod 100)"
    using m by (simp add: unsigned_ucast_eq take_bit_nat_eq_self_iff)
  show "3 \<le> (ucast (c div 100) :: u8) AND 7" "(ucast (c div 100) :: u8) AND 7 \<le> 6"
    using d by auto
  show "(ucast (c mod 100) :: u8) \<le> 99" using m m' by (simp add: word_le_nat_alt)
  have rem: "ucast (ucast (c mod 100) :: u8) = c mod 100"
    using m m' by (simp add: word_unat_eq_iff unat_ucast_up)
  have "ucast ((ucast (c div 100) :: u8) AND 7) = c div 100"
    using d by auto
  with rem show "ucast ((ucast (c div 100) :: u8) AND 7) * 100 + ucast (ucast (c mod 100) :: u8) = c"
    using word_mod_div_equality [of c 100] by (simp add: mult.commute)
qed

fun attribute_kind :: "turn_attribute \<Rightarrow> u16" where
  "attribute_kind (Username _) = USERNAME"
| "attribute_kind (Realm _) = REALM"
| "attribute_kind (Nonce _) = NONCE"
| "attribute_kind (MessageIntegritySha256 _) = MESSAGE_INTEGRITY_SHA256"
| "attribute_kind (RequestedTransport _) = REQUESTED_TRANSPORT"
| "attribute_kind (Lifetime _) = LIFETIME"
| "attribute_kind (XorPeerAddress _) = XOR_PEER_ADDRESS"
| "attribute_kind (XorRelayedAddress _) = XOR_RELAYED_ADDRESS"
| "attribute_kind (XorMappedAddress _) = XOR_MAPPED_ADDRESS"
| "attribute_kind (ChannelNumber _) = CHANNEL_NUMBER"
| "attribute_kind (Data _) = DATA"
| "attribute_kind (ErrorCode _ _) = ERROR_CODE"

lemma encode_attribute_kind: "encode_attribute a tid = Ok (k, v) \<Longrightarrow> k = attribute_kind a"
  by (cases a) (auto split: if_splits)

lemma attribute_kind_integrity: "attribute_kind a = MESSAGE_INTEGRITY_SHA256 \<longleftrightarrow> is_integrity a"
  by (cases a) simp_all

lemma decode_encode_error_code:
  assumes "encode_attribute (ErrorCode c reason) tid = Ok (k, v)" "valid_utf8 reason"
  shows "decode_error_code v = Ok (ErrorCode c reason)"
proof -
  from assms have v: "v = [0, 0, ucast (c div 100), ucast (c mod 100)] @ reason"
    and c: "300 \<le> c" "c \<le> 699" and r: "utf8_chars reason < 128"
    by (auto split: if_splits)
  show ?thesis
    using assms(2) r c error_code_parts [OF c]
    by (simp add: decode_error_code_def v Let_def not_less)
qed

lemma decode_encode_attribute:
  assumes "wf_turn_attribute a" "length tid = 12" "encode_attribute a tid = Ok (k, v)"
  shows "decode_attribute k v tid = Ok (Some a)"
proof (cases a)
  case (ErrorCode c reason)
  have "4 \<le> length v" "k = ERROR_CODE" using assms(3) ErrorCode by (auto split: if_splits)
  with decode_encode_error_code [of c reason tid k v] assms ErrorCode show ?thesis
    by (simp add: decode_attribute_def)
next
  case (ChannelNumber c)
  then show ?thesis
    using assms read_u16_to_be [of c "[0, 0]"] by (auto simp: decode_attribute_def split: if_splits)
next
  case (Lifetime n)
  then show ?thesis using assms by (auto simp: decode_attribute_def)
qed (use assms in \<open>auto simp: decode_attribute_def decode_encode_xor_address bounded_text_def split: if_splits\<close>)

definition attribute_bytes :: "u16 \<Rightarrow> bytes \<Rightarrow> bytes" where
  "attribute_bytes k v = to_be_bytes k @ to_be_bytes (of_nat (length v) :: u16) @ v @ replicate (padding_len (length v)) 0"

lemma length_attribute_bytes: "length (attribute_bytes k v) = 4 + length v + padding_len (length v)"
  by (simp add: attribute_bytes_def)

lemma append_attribute_Ok_iff:
  "append_attribute out k v = Ok out' \<longleftrightarrow> length v \<le> 0xFFFF \<and> out' = out @ attribute_bytes k v \<and> length out' \<le> MAX_DATAGRAM_BYTES"
  by (auto simp: append_attribute_def Let_def attribute_bytes_def ATTRIBUTE_HEADER_LEN_def)

lemma read_raw_attribute_bytes:
  assumes "length v \<le> 0xFFFF" "length pre + length (attribute_bytes k v) \<le> e"
  shows "read_raw_attribute (pre @ attribute_bytes k v @ rest) (length pre) e
    = Ok (k, v, length pre + length (attribute_bytes k v))"
proof -
  have len: "unat (of_nat (length v) :: u16) = length v"
    using assms(1) by (intro unat_of_nat_small) simp
  have "slice (length pre + 4) (length v) (pre @ attribute_bytes k v @ rest) = v"
    by (simp add: attribute_bytes_def slice_def)
  moreover have "read_u16 (pre @ attribute_bytes k v @ rest) (length pre) = k"
    unfolding read_u16_append by (simp add: attribute_bytes_def)
  moreover have "read_u16 (pre @ attribute_bytes k v @ rest) (length pre + 2) = of_nat (length v)"
    unfolding read_u16_append by (simp add: attribute_bytes_def)
  ultimately show ?thesis
    using assms(2) len by (simp add: read_raw_attribute_def Let_def ATTRIBUTE_HEADER_LEN_def length_attribute_bytes)
qed

lemma attribute_bytes_aligned: "4 dvd length (attribute_bytes k v)"
proof (cases "length v mod 4 = 0")
  case True
  then show ?thesis by (simp add: length_attribute_bytes padding_len_def dvd_eq_mod_eq_0)
next
  case False
  let ?n = "length v"
  have arith: "n = 4 * q + r \<Longrightarrow> r < 4 \<Longrightarrow> p = 4 - r \<Longrightarrow> 4 + n + p = 4 * (2 + q)" for n p q r :: nat
    by simp
  have "?n mod 4 < 4" by (rule mod_less_divisor) simp
  moreover from this False have "padding_len ?n = 4 - ?n mod 4"
    unfolding padding_len_def by (intro mod_less) linarith
  ultimately have "length (attribute_bytes k v) = 4 * (2 + ?n div 4)"
    unfolding length_attribute_bytes by (intro arith [OF mult_div_mod_eq [symmetric]])
  then show ?thesis by simp
qed

text \<open>
  What the encoder appends, the decoder reads back, whatever stands before and behind it.
\<close>

definition reads_back :: "turn_header \<Rightarrow> u16 list \<Rightarrow> bytes \<Rightarrow> turn_attribute list \<Rightarrow> bool" where
  "reads_back h seen body as \<longleftrightarrow> (\<forall>pre rest e. length (pre @ body) \<le> e \<longrightarrow>
     decode_attributes (pre @ body @ rest) h (length pre) e seen False
     = and_then (decode_attributes (pre @ body @ rest) h (length (pre @ body)) e (rev (map attribute_kind as) @ seen)
           (as \<noteq> [] \<and> is_integrity (last as))) (\<lambda>r. Ok (as @ r)))"

lemma reads_back_Nil: "reads_back h seen [] []"
proof -
  have "and_then r Ok = r" for r :: "wire_error + turn_attribute list" by (cases r) simp_all
  then show ?thesis by (simp add: reads_back_def)
qed

lemma decode_attributes_one:
  assumes "length v \<le> 0xFFFF" "length (pre @ attribute_bytes k v) \<le> e" "\<not> (k \<in> set seen \<and> \<not> repeat_peer h k)"
    "decode_attribute k v (th_transaction_id h) = Ok (Some a)" "k = attribute_kind a"
  shows "decode_attributes (pre @ attribute_bytes k v @ rest) h (length pre) e seen False
    = and_then (decode_attributes (pre @ attribute_bytes k v @ rest) h (length (pre @ attribute_bytes k v)) e
        (k # seen) (is_integrity a)) (\<lambda>r. Ok (a # r))"
proof -
  have read: "read_raw_attribute (pre @ attribute_bytes k v @ rest) (length pre) e
      = Ok (k, v, length pre + length (attribute_bytes k v))"
    using assms(1,2) by (intro read_raw_attribute_bytes) simp_all
  have "length pre < e" using assms(2) by (simp add: length_attribute_bytes)
  moreover have "k = MESSAGE_INTEGRITY_SHA256 \<longleftrightarrow> is_integrity a"
    unfolding assms(5) by (rule attribute_kind_integrity)
  ultimately show ?thesis
    using assms(3,4) by (subst decode_attributes.simps) (auto simp: read)
qed

lemma reads_back_Cons:
  assumes "length v \<le> 0xFFFF" "\<not> (k \<in> set seen \<and> \<not> repeat_peer h k)"
    "decode_attribute k v (th_transaction_id h) = Ok (Some a)" "k = attribute_kind a"
    and last: "is_integrity a \<Longrightarrow> as = [] \<and> body = []" and ih: "reads_back h (k # seen) body as"
  shows "reads_back h seen (attribute_bytes k v @ body) (a # as)"
  unfolding reads_back_def
proof (intro allI impI)
  fix pre rest e
  assume e: "length (pre @ attribute_bytes k v @ body) \<le> e"
  note one = decode_attributes_one [OF assms(1) _ assms(2-4), of pre e "body @ rest"]
  show "decode_attributes (pre @ (attribute_bytes k v @ body) @ rest) h (length pre) e seen False
    = and_then (decode_attributes (pre @ (attribute_bytes k v @ body) @ rest) h (length (pre @ attribute_bytes k v @ body)) e
        (rev (map attribute_kind (a # as)) @ seen) (a # as \<noteq> [] \<and> is_integrity (last (a # as)))) (\<lambda>r. Ok ((a # as) @ r))"
  proof (cases "is_integrity a")
    case True
    with last one e assms(4) show ?thesis by simp
  next
    case False
    have comp': "and_then (and_then r (\<lambda>r. Ok (as @ r))) (\<lambda>r. Ok (a # r)) = and_then r (\<lambda>r. Ok ((a # as) @ r))"
      for r :: "wire_error + turn_attribute list" by (cases r) simp_all
    have "decode_attributes ((pre @ attribute_bytes k v) @ body @ rest) h (length (pre @ attribute_bytes k v)) e (k # seen) False
      = and_then (decode_attributes ((pre @ attribute_bytes k v) @ body @ rest) h (length ((pre @ attribute_bytes k v) @ body)) e
          (rev (map attribute_kind as) @ k # seen) (as \<noteq> [] \<and> is_integrity (last as))) (\<lambda>r. Ok (as @ r))"
      using e by (intro ih [unfolded reads_back_def, rule_format]) simp
    with one e False assms(4) comp' show ?thesis by (cases "as = []") simp_all
  qed
qed

lemma encode_attributes_body:
  assumes "encode_attributes h seen out as = Ok out'" "list_all wf_turn_attribute as"
    "length (th_transaction_id h) = 12" "length out \<le> MAX_DATAGRAM_BYTES"
  shows "\<exists>body. out' = out @ body \<and> length out' \<le> MAX_DATAGRAM_BYTES \<and> 4 dvd length body \<and> reads_back h seen body as"
  using assms
proof (induction as arbitrary: seen out)
  case Nil
  then show ?case by (simp add: reads_back_Nil)
next
  case (Cons a as)
  from Cons.prems(1) obtain k v where kv: "encode_attribute a (th_transaction_id h) = Ok (k, v)"
    and dup: "\<not> (k \<in> set seen \<and> \<not> repeat_peer h k)"
    and last: "\<not> (k = MESSAGE_INTEGRITY_SHA256 \<and> as \<noteq> [])"
    and len: "length v \<le> 0xFFFF" "length (out @ attribute_bytes k v) \<le> MAX_DATAGRAM_BYTES"
    and rec: "encode_attributes h (k # seen) (out @ attribute_bytes k v) as = Ok out'"
    by (auto simp: append_attribute_Ok_iff split: if_splits)
  note k = encode_attribute_kind [OF kv]
  have dec: "decode_attribute k v (th_transaction_id h) = Ok (Some a)"
    using Cons.prems kv by (intro decode_encode_attribute) simp_all
  obtain body where body: "out' = (out @ attribute_bytes k v) @ body" "length out' \<le> MAX_DATAGRAM_BYTES" "4 dvd length body"
    and back': "reads_back h (k # seen) body as"
    using Cons.IH [OF rec _ Cons.prems(3) len(2)] Cons.prems(2) by auto
  have "as = [] \<and> body = []" if "is_integrity a"
    using last k attribute_kind_integrity [of a] that rec body(1) by auto
  then have "reads_back h seen (attribute_bytes k v @ body) (a # as)"
    by (intro reads_back_Cons len(1) dup dec k back')
  with body attribute_bytes_aligned [of k v] show ?case
    by (intro exI [of _ "attribute_bytes k v @ body"]) simp
qed

definition turn_head :: "turn_header \<Rightarrow> nat \<Rightarrow> bytes" where
  "turn_head h n = to_be_bytes (encode_type (th_class h) (method_code (th_method h))) @ to_be_bytes (of_nat n :: u16)
     @ to_be_bytes MAGIC_COOKIE @ th_transaction_id h"

lemma length_turn_head: "length (th_transaction_id h) = 12 \<Longrightarrow> length (turn_head h n) = 20"
  by (simp add: turn_head_def)

lemma write_length_prefix: "write_length (turn_prefix h @ body) n = turn_head h n @ body"
  by (simp add: write_length_def turn_prefix_def turn_head_def take_Cons' drop_Cons')

lemma write_length_head: "write_length (turn_head h m @ body) n = turn_head h n @ body"
  by (simp add: write_length_def turn_head_def)

lemma decode_type_encode: "decode_type (encode_type c (method_code m)) = Some (c, method_code m)"
  by (cases c; cases m) (simp_all add: encode_type_def decode_type_def)

lemma decode_method_code: "decode_method (method_code m) = Some m"
  by (cases m) (simp_all add: decode_method_def)

lemma decode_turn_head:
  assumes "validate_turn_header h = Ok ()" "length (th_transaction_id h) = 12" "4 dvd length body"
    "20 + length body \<le> MAX_DATAGRAM_BYTES"
  shows "decode_turn_header (turn_head h (length body) @ body) = Ok (h, length body)"
proof -
  let ?in = "turn_head h (length body) @ body"
  have "read_u16 ?in 0 = encode_type (th_class h) (method_code (th_method h))" "read_u16 ?in 2 = of_nat (length body)"
    by (simp_all add: turn_head_def)
  moreover have "unat (of_nat (length body) :: u16) = length body"
    using assms(4) by (intro unat_of_nat_small) (simp add: MAX_DATAGRAM_BYTES_def)
  moreover have "slice 4 4 ?in = to_be_bytes MAGIC_COOKIE" "slice 8 12 ?in = th_transaction_id h"
    using assms(2) by (simp_all add: turn_head_def wire_simps)
  moreover have "length ?in = 20 + length body"
    using assms(2) by (simp add: length_turn_head)
  ultimately show ?thesis
    using assms by (cases h) (simp add: decode_turn_header_def decode_type_encode decode_method_code Let_def
        TURN_HEADER_LEN_def dvd_eq_mod_eq_0)
qed

lemma encode_message_body:
  assumes "wf_turn_message m" "encode_message m = Ok bs"
  obtains body where "bs = turn_head (tm_header m) (length body) @ body" "validate_turn_header (tm_header m) = Ok ()"
    "length bs \<le> MAX_DATAGRAM_BYTES" "4 dvd length body" "reads_back (tm_header m) [] body (tm_attributes m)"
proof -
  from assms(2) obtain out where v: "validate_turn_header (tm_header m) = Ok ()"
    and out: "encode_attributes (tm_header m) [] (turn_prefix (tm_header m)) (tm_attributes m) = Ok out"
    and fin: "finish_length out = Ok bs"
    by (auto simp: encode_message_def)
  have len: "length (turn_prefix (tm_header m)) = 20"
    using assms(1) by (simp add: turn_prefix_def wf_turn_message_def)
  obtain body where body: "out = turn_prefix (tm_header m) @ body" "4 dvd length body"
    "reads_back (tm_header m) [] body (tm_attributes m)" "length out \<le> MAX_DATAGRAM_BYTES"
    using encode_attributes_body [OF out] assms(1) len by (auto simp: wf_turn_message_def MAX_DATAGRAM_BYTES_def)
  have bs: "bs = turn_head (tm_header m) (length body) @ body"
    using fin len by (auto simp: finish_length_def body(1) write_length_prefix TURN_HEADER_LEN_def split: if_splits)
  moreover have "length bs = length out"
    using assms(1) len by (simp add: bs body(1) length_turn_head wf_turn_message_def)
  ultimately show thesis using that [of body] v body by simp
qed

lemma decode_body:
  assumes "length (th_transaction_id h) = 12" "reads_back h [] body as" "list_all (\<lambda>a. \<not> is_integrity a) as"
  shows "decode_attributes (turn_head h n @ body @ rest) h 20 (20 + length body + k) [] False
    = and_then (decode_attributes (turn_head h n @ body @ rest) h (20 + length body) (20 + length body + k)
        (rev (map attribute_kind as)) False) (\<lambda>r. Ok (as @ r))"
proof -
  have "\<not> (as \<noteq> [] \<and> is_integrity (last as))" using assms(3) by (auto simp: list_all_iff)
  with assms(2) [unfolded reads_back_def, rule_format, of "turn_head h n" "20 + length body + k" rest]
  show ?thesis by (simp add: length_turn_head [OF assms(1)])
qed

text \<open>An encoded message is decoded to itself, attributes in order.\<close>

lemma turn_message_roundtrip:
  assumes wf: "wf_turn_message m" and enc: "encode_message m = Ok bs"
  shows "decode_message bs = Ok m"
proof (rule encode_message_body [OF wf enc])
  fix body
  let ?h = "tm_header m"
  assume bs: "bs = turn_head ?h (length body) @ body" and v: "validate_turn_header ?h = Ok ()"
    and len: "length bs \<le> MAX_DATAGRAM_BYTES" and al: "4 dvd length body"
    and reads: "reads_back ?h [] body (tm_attributes m)"
  have tid: "length (th_transaction_id ?h) = 12" using wf by (simp add: wf_turn_message_def)
  have head: "decode_turn_header bs = Ok (?h, length body)"
    unfolding bs using v tid al len by (intro decode_turn_head) (simp_all add: bs length_turn_head)
  have "decode_attributes bs ?h 20 (20 + length body) [] False = Ok (tm_attributes m)"
    using reads [unfolded reads_back_def, rule_format, of "turn_head ?h (length body)" "20 + length body" "[]"] tid
    by (simp add: bs length_turn_head) (simp add: decode_attributes.simps)
  with head show ?thesis by (simp add: decode_message_def TURN_HEADER_LEN_def)
qed

lemma channel_data_roundtrip:
  assumes "encode_channel_data c data = Ok bs"
  shows "decode_channel_data bs = Ok (c, data)"
proof -
  from assms have bs: "bs = to_be_bytes c @ to_be_bytes (of_nat (length data) :: u16) @ data"
    and c: "CHANNEL_MIN \<le> c" "c \<le> CHANNEL_MAX" and len: "length data \<le> 0xFFFF" "length data + 4 \<le> MAX_DATAGRAM_BYTES"
    by (auto simp: encode_channel_data_def split: if_splits)
  have "unat (of_nat (length data) :: u16) = length data"
    using len(1) by (intro unat_of_nat_small) simp
  moreover have "read_u16 bs 0 = c" "read_u16 bs 2 = of_nat (length data)" "slice 4 (length data) bs = data"
    by (simp_all add: bs) (simp add: slice_def)
  ultimately show ?thesis
    using c len(2) by (simp add: decode_channel_data_def Let_def) (simp add: bs)
qed

section \<open>Integrity\<close>

lemma find_integrity_skip:
  assumes "list_all (\<lambda>(k, v). k \<noteq> MESSAGE_INTEGRITY_SHA256 \<and> length v \<le> 0xFFFF) kvs"
    "length (pre @ concat (map (\<lambda>(k, v). attribute_bytes k v) kvs)) \<le> e"
  shows "find_integrity (pre @ concat (map (\<lambda>(k, v). attribute_bytes k v) kvs) @ rest) (length pre) e None
    = find_integrity (pre @ concat (map (\<lambda>(k, v). attribute_bytes k v) kvs) @ rest)
        (length (pre @ concat (map (\<lambda>(k, v). attribute_bytes k v) kvs))) e None"
  using assms
proof (induction kvs arbitrary: pre)
  case (Cons kv kvs)
  obtain k v where kv: "kv = (k, v)" by fastforce
  let ?tail = "concat (map (\<lambda>(k, v). attribute_bytes k v) kvs)"
  let ?in = "pre @ attribute_bytes k v @ ?tail @ rest"
  have read: "read_raw_attribute ?in (length pre) e = Ok (k, v, length pre + length (attribute_bytes k v))"
    using Cons.prems kv by (intro read_raw_attribute_bytes) simp_all
  have "length pre < e" using Cons.prems(2) kv by (simp add: length_attribute_bytes)
  then have "find_integrity ?in (length pre) e None = find_integrity ?in (length pre + length (attribute_bytes k v)) e None"
    using Cons.prems(1) kv by (subst find_integrity.simps) (simp add: read)
  with Cons.IH [of "pre @ attribute_bytes k v"] Cons.prems kv show ?case by simp
qed simp

lemma encode_attributes_fields:
  assumes "encode_attributes h seen out as = Ok out'" "list_all (\<lambda>a. \<not> is_integrity a) as"
  shows "\<exists>kvs. out' = out @ concat (map (\<lambda>(k, v). attribute_bytes k v) kvs)
    \<and> list_all (\<lambda>(k, v). k \<noteq> MESSAGE_INTEGRITY_SHA256 \<and> length v \<le> 0xFFFF) kvs"
  using assms
proof (induction as arbitrary: seen out)
  case Nil
  then show ?case by (intro exI [of _ "[]"]) simp
next
  case (Cons a as)
  from Cons.prems(1) obtain k v where kv: "encode_attribute a (th_transaction_id h) = Ok (k, v)"
    and len: "length v \<le> 0xFFFF"
    and rec: "encode_attributes h (k # seen) (out @ attribute_bytes k v) as = Ok out'"
    by (auto simp: append_attribute_Ok_iff split: if_splits)
  obtain kvs where "out' = (out @ attribute_bytes k v) @ concat (map (\<lambda>(k, v). attribute_bytes k v) kvs)"
    "list_all (\<lambda>(k, v). k \<noteq> MESSAGE_INTEGRITY_SHA256 \<and> length v \<le> 0xFFFF) kvs"
    using Cons.IH [OF rec] Cons.prems(2) by auto
  moreover have "k \<noteq> MESSAGE_INTEGRITY_SHA256"
    using encode_attribute_kind [OF kv] attribute_kind_integrity [of a] Cons.prems(2) by simp
  ultimately show ?case using len by (intro exI [of _ "(k, v) # kvs"]) simp
qed

lemma encode_message_no_integrity:
  assumes "wf_turn_message m" "encode_message m = Ok (turn_head (tm_header m) n @ body)"
    "list_all (\<lambda>a. \<not> is_integrity a) (tm_attributes m)" "20 + length body \<le> e"
  shows "find_integrity (turn_head (tm_header m) k @ body @ rest) 20 e None
    = find_integrity (turn_head (tm_header m) k @ body @ rest) (20 + length body) e None"
proof -
  let ?h = "tm_header m"
  have tid: "length (th_transaction_id ?h) = 12" using assms(1) by (simp add: wf_turn_message_def)
  obtain out where out: "encode_attributes ?h [] (turn_prefix ?h) (tm_attributes m) = Ok out"
    and fin: "finish_length out = Ok (turn_head ?h n @ body)"
    using assms(2) by (auto simp: encode_message_def)
  obtain kvs where kvs: "out = turn_prefix ?h @ concat (map (\<lambda>(k, v). attribute_bytes k v) kvs)"
    "list_all (\<lambda>(k, v). k \<noteq> MESSAGE_INTEGRITY_SHA256 \<and> length v \<le> 0xFFFF) kvs"
    using encode_attributes_fields [OF out assms(3)] by blast
  have "turn_head ?h (length out - 20) @ concat (map (\<lambda>(k, v). attribute_bytes k v) kvs) = turn_head ?h n @ body"
    using fin by (auto simp: finish_length_def kvs(1) write_length_prefix TURN_HEADER_LEN_def split: if_splits)
  then have "body = concat (map (\<lambda>(k, v). attribute_bytes k v) kvs)"
    using length_turn_head [OF tid] by (metis append_eq_append_conv)
  then show ?thesis
    using find_integrity_skip [OF kvs(2), of "turn_head ?h k" e rest] assms(4) length_turn_head [OF tid, of k] by simp
qed

lemma length_integrity_bytes: "length v = 32 \<Longrightarrow> length (attribute_bytes MESSAGE_INTEGRITY_SHA256 v) = 36"
  by (simp add: length_attribute_bytes padding_len_def)

lemma read_integrity:
  "length v = 32 \<Longrightarrow> e = length pre + 36 \<Longrightarrow>
   read_raw_attribute (pre @ attribute_bytes MESSAGE_INTEGRITY_SHA256 v) (length pre) e = Ok (MESSAGE_INTEGRITY_SHA256, v, e)"
  using read_raw_attribute_bytes [of v pre MESSAGE_INTEGRITY_SHA256 e "[]"] by (simp add: length_integrity_bytes)

lemma find_integrity_here:
  "length v = 32 \<Longrightarrow> e = length pre + 36 \<Longrightarrow>
   find_integrity (pre @ attribute_bytes MESSAGE_INTEGRITY_SHA256 v) (length pre) e None = Ok (Some (length pre, v))"
  by (subst find_integrity.simps) (simp add: read_integrity find_integrity.simps)

lemma encode_with_integrity_shape:
  assumes wf: "wf_turn_message m" and hmac: "\<forall>k x. length (hmac k x) = 32"
    and enc: "encode_with_integrity hmac m key = Ok bs"
  obtains body covered where "covered = turn_head (tm_header m) (length body + 36) @ body"
    "bs = covered @ attribute_bytes MESSAGE_INTEGRITY_SHA256 (hmac key covered)" "length bs \<le> MAX_DATAGRAM_BYTES"
    "encode_message m = Ok (turn_head (tm_header m) (length body) @ body)" "validate_turn_header (tm_header m) = Ok ()"
    "4 dvd length body" "reads_back (tm_header m) [] body (tm_attributes m)" "list_all (\<lambda>a. \<not> is_integrity a) (tm_attributes m)"
proof -
  from enc obtain out where out: "encode_message m = Ok out" and no: "\<not> list_ex is_integrity (tm_attributes m)"
    and app: "append_attribute (write_length out (length out + 36 - 20)) MESSAGE_INTEGRITY_SHA256
      (hmac key (write_length out (length out + 36 - 20))) = Ok bs"
    by (auto simp: encode_with_integrity_def Let_def ATTRIBUTE_HEADER_LEN_def TURN_HEADER_LEN_def split: if_splits)
  obtain body where body: "out = turn_head (tm_header m) (length body) @ body" "validate_turn_header (tm_header m) = Ok ()"
    "4 dvd length body" "reads_back (tm_header m) [] body (tm_attributes m)"
    using encode_message_body [OF wf out] by metis
  have "length out = 20 + length body"
    using wf body(1) length_turn_head [of "tm_header m" "length body"] by (auto simp: wf_turn_message_def)
  then have "write_length out (length out + 36 - 20) = turn_head (tm_header m) (length body + 36) @ body"
    using write_length_head [of "tm_header m" "length body" body] body(1) by (simp add: add.commute)
  with app body out no show thesis
    using that [of "turn_head (tm_header m) (length body + 36) @ body" body]
    by (auto simp: append_attribute_Ok_iff list_ex_iff list_all_iff)
qed

lemma decode_integrity_last:
  assumes "length v = 32" "MESSAGE_INTEGRITY_SHA256 \<notin> set seen" "e = length pre + 36"
  shows "decode_attributes (pre @ attribute_bytes MESSAGE_INTEGRITY_SHA256 v) h (length pre) e seen False
    = Ok [MessageIntegritySha256 v]"
  using assms by (subst decode_attributes.simps) (simp add: read_integrity decode_attribute_def decode_attributes.simps)

lemma verify_shape:
  assumes wf: "wf_turn_message m" and hmac: "\<forall>k x. length (hmac k x) = 32"
    and covered: "covered = turn_head (tm_header m) (length body + 36) @ body"
    and bs: "bs = covered @ attribute_bytes MESSAGE_INTEGRITY_SHA256 (hmac key covered)" and max: "length bs \<le> MAX_DATAGRAM_BYTES"
    and enc': "encode_message m = Ok (turn_head (tm_header m) (length body) @ body)"
    and valid: "validate_turn_header (tm_header m) = Ok ()"
    and al: "4 dvd length body" and reads: "reads_back (tm_header m) [] body (tm_attributes m)"
    and no: "list_all (\<lambda>a. \<not> is_integrity a) (tm_attributes m)"
  shows "verify_integrity hmac bs key = Ok (m\<lparr>tm_attributes := tm_attributes m
    @ [MessageIntegritySha256 (hmac key (take (length bs - 36) bs))]\<rparr>)"
proof -
  let ?h = "tm_header m"
  let ?t = "hmac key covered" and ?a = "attribute_bytes MESSAGE_INTEGRITY_SHA256 (hmac key covered)"
  have tid: "length (th_transaction_id ?h) = 12" using wf by (simp add: wf_turn_message_def)
  have t: "length ?t = 32" using hmac by blast
  have len: "length ?a = 36" "length covered = 20 + length body"
    using t by (simp_all add: length_integrity_bytes covered length_turn_head [OF tid])
  have in': "bs = turn_head ?h (length (body @ ?a)) @ body @ ?a" using len by (simp add: bs covered)
  have head: "decode_turn_header bs = Ok (?h, length body + 36)"
    using decode_turn_head [OF valid tid, of "body @ ?a"] al len max in'
    by (simp add: length_turn_head [OF tid])
  have find: "find_integrity bs 20 (20 + (length body + 36)) None = Ok (Some (length covered, ?t))"
    using encode_message_no_integrity [OF wf enc' no, of "20 + (length body + 36)" "length (body @ ?a)" ?a, folded in']
      find_integrity_here [OF t, of _ covered, folded bs] len by simp
  have "take (length covered) bs = covered" by (simp add: bs)
  moreover have "write_length covered (length covered + 36 - 20) = covered"
    using write_length_head [of ?h "length body + 36" body "length body + 36"] len(2) by (simp add: covered add.commute)
  moreover have "MESSAGE_INTEGRITY_SHA256 \<notin> set (rev (map attribute_kind (tm_attributes m)))"
    using no attribute_kind_integrity by (auto simp: list_all_iff)
  then have "decode_attributes bs ?h 20 (20 + (length body + 36)) [] False
      = Ok (tm_attributes m @ [MessageIntegritySha256 ?t])"
    using decode_body [OF tid reads no, of "length (body @ ?a)" ?a 36, folded in'] len
      decode_integrity_last [OF t, of _ "20 + (length body + 36)" covered ?h, folded bs]
    by (simp add: add.assoc)
  ultimately show ?thesis
    using head find len
    by (simp add: verify_integrity_def decode_message_def TURN_HEADER_LEN_def ATTRIBUTE_HEADER_LEN_def Let_def)
      (simp add: bs)
qed

text \<open>
  C31: a message signed with a key is accepted under that key and decoded to the message that was
  signed, followed by its tag, for every message whose addresses have a nonzero port and no IPv6 flow
  label or scope: the decoder refuses the first and the format does not carry the others.
  (HMAC-SHA256 returns 32 bytes.)
\<close>
theorem signed_message_verifies:
  assumes wf: "wf_turn_message m" and hmac: "\<forall>k x. length (hmac k x) = 32"
    and enc: "encode_with_integrity hmac m key = Ok bs"
  shows "verify_integrity hmac bs key = Ok (m\<lparr>tm_attributes := tm_attributes m
    @ [MessageIntegritySha256 (hmac key (take (length bs - 36) bs))]\<rparr>)"
  by (rule encode_with_integrity_shape [OF assms]) (rule verify_shape [OF wf hmac])

lemma find_integrity_Some:
  "find_integrity input c e x = Ok (Some (s, v)) \<Longrightarrow> x \<noteq> None \<or>
     c \<le> s \<and> length v = 32 \<and> read_raw_attribute input s e = Ok (MESSAGE_INTEGRITY_SHA256, v, e)"
proof (induction input c e x rule: find_integrity.induct)
  case (1 input c e x)
  show ?case
  proof (cases "c < e")
    case False
    with 1 show ?thesis by (subst (asm) (3) find_integrity.simps) simp
  next
    case True
    from 1(3) True obtain kind w n where read: "read_raw_attribute input c e = Inr (kind, w, n)"
      by (subst (asm) find_integrity.simps) (auto split: sum.splits)
    note n = read_raw_attribute_progress [OF read]
    show ?thesis
    proof (cases "kind = MESSAGE_INTEGRITY_SHA256")
      case mi: True
      with 1(3) True read have "length w = 32" "n = e" "find_integrity input n e (Some (c, w)) = Ok (Some (s, v))"
        by (auto simp: find_integrity.simps [of input c] split: if_splits)
      with mi read show ?thesis by (simp add: find_integrity.simps)
    next
      case False
      with 1(3) True read have "find_integrity input n e x = Ok (Some (s, v))"
        by (simp add: find_integrity.simps [of input c])
      with 1(2) [OF True read refl refl False] n show ?thesis by auto
    qed
  qed
qed

lemma decode_attributes_integrity:
  "find_integrity input c e None = Ok (Some (s, v)) \<Longrightarrow> decode_attributes input h c e seen flag = Ok as \<Longrightarrow>
   \<exists>as'. as = as' @ [MessageIntegritySha256 v]"
proof (induction input h c e seen flag arbitrary: as rule: decode_attributes.induct)
  case (1 input h c e seen flag)
  have "c < e" using 1(2) by (cases "c < e") (simp_all add: find_integrity.simps)
  with 1(3) obtain kind w n where read: "read_raw_attribute input c e = Inr (kind, w, n)" and flag: "\<not> flag"
    and dup: "\<not> (kind \<in> set seen \<and> \<not> repeat_peer h kind)"
    by (subst (asm) decode_attributes.simps) (auto split: sum.splits if_splits)
  from 1(3) \<open>c < e\<close> read flag dup obtain a r where a: "decode_attribute kind w (th_transaction_id h) = Ok a"
    and r: "decode_attributes input h n e (kind # seen) (kind = MESSAGE_INTEGRITY_SHA256) = Ok r"
    and as: "as = (case a of Some a \<Rightarrow> a # r | None \<Rightarrow> r)"
    by (auto simp: decode_attributes.simps [of input h c])
  show ?case
  proof (cases "kind = MESSAGE_INTEGRITY_SHA256")
    case True
    with 1(2) \<open>c < e\<close> read have w: "length w = 32" "n = e" "find_integrity input n e (Some (c, w)) = Ok (Some (s, v))"
      by (auto simp: find_integrity.simps [of input c] split: if_splits)
    then have "w = v" "r = []" using r by (simp_all add: find_integrity.simps decode_attributes.simps)
    moreover have "a = Some (MessageIntegritySha256 w)" using a w True by (simp add: decode_attribute_def)
    ultimately show ?thesis using as by simp
  next
    case False
    with 1(2) \<open>c < e\<close> read have "find_integrity input n e None = Ok (Some (s, v))"
      by (simp add: find_integrity.simps [of input c])
    from 1(1) [OF \<open>c < e\<close> read refl refl flag dup this r] as show ?thesis
      by (auto split: option.splits)
  qed
qed

lemma decode_turn_header_length:
  "decode_turn_header bs = Ok (h, n) \<Longrightarrow> length bs = 20 + n \<and> n = unat (read_u16 bs 2)"
  by (auto simp: decode_turn_header_def Let_def TURN_HEADER_LEN_def split: if_splits option.splits prod.splits)

lemma write_length_same:
  "20 \<le> length bs \<Longrightarrow> n = unat (read_u16 bs 2) \<Longrightarrow> write_length bs n = bs"
  using slice_join_drop [of 2 2 bs] by (simp add: write_length_def to_be_read_u16)

text \<open>
  C15: a message that is accepted under a key ends in the tag attribute, and the tag is the HMAC
  under this key of everything in front of it, length field included; it decodes to the message
  returned, whose last attribute is this tag.
\<close>
theorem verified_message_authentic:
  assumes "verify_integrity hmac bs key = Ok m"
  shows "let covered = take (length bs - 36) bs; tag = hmac key covered in
    bs = covered @ to_be_bytes MESSAGE_INTEGRITY_SHA256 @ to_be_bytes (32 :: u16) @ tag \<and> length tag = 32
    \<and> decode_message bs = Ok m \<and> (\<exists>as. tm_attributes m = as @ [MessageIntegritySha256 tag])"
proof -
  from assms obtain h n x where head: "decode_turn_header bs = Ok (h, n)" and x: "find_integrity bs 20 (20 + n) None = Ok x"
    by (auto simp: verify_integrity_def TURN_HEADER_LEN_def)
  with assms obtain s v where sv: "x = Some (s, v)"
    by (cases x) (auto simp: verify_integrity_def TURN_HEADER_LEN_def)
  have find: "find_integrity bs 20 (20 + n) None = Ok (Some (s, v))" using x sv by simp
  have v: "v = hmac key (write_length (take s bs) (s + 36 - 20))" and dec: "decode_message bs = Ok m"
    using assms head find
    by (auto simp: verify_integrity_def TURN_HEADER_LEN_def ATTRIBUTE_HEADER_LEN_def Let_def split: if_splits)
  have len: "length bs = 20 + n" "n = unat (read_u16 bs 2)" using decode_turn_header_length [OF head] by simp_all
  from find_integrity_Some [OF find] have s: "20 \<le> s" "length v = 32"
    and read: "read_raw_attribute bs s (length bs) = Ok (MESSAGE_INTEGRITY_SHA256, v, length bs)"
    by (simp_all add: len(1))
  from read s(2) have e: "length bs = s + 36" and k: "read_u16 bs s = MESSAGE_INTEGRITY_SHA256"
    and l: "unat (read_u16 bs (s + 2)) = 32" and v': "slice (s + 4) 32 bs = v"
    by (auto simp: read_raw_attribute_def Let_def ATTRIBUTE_HEADER_LEN_def padding_len_def split: if_splits)
  have "read_u16 bs (s + 2) = 32" using l by (simp add: word_unat_eq_iff)
  then have "slice s 2 bs = to_be_bytes MESSAGE_INTEGRITY_SHA256" "slice (s + 2) 2 bs = to_be_bytes (32 :: u16)"
    using k e to_be_read_u16 [of s bs] to_be_read_u16 [of "s + 2" bs] by simp_all
  moreover have "drop s bs = slice s 2 bs @ slice (s + 2) 2 bs @ slice (s + 4) 32 bs"
    using e slice_join_drop [of s 4 bs] unfolding slice_join_assoc slice_join by (simp add: slice_def)
  ultimately have "bs = take s bs @ to_be_bytes MESSAGE_INTEGRITY_SHA256 @ to_be_bytes (32 :: u16) @ v"
    using v' append_take_drop_id [of s bs] by simp
  moreover have "read_u16 (take s bs) 2 = read_u16 bs 2"
    using s(1) by (simp add: read_u16_def slice_def drop_take min_def)
  then have "write_length (take s bs) (s + 36 - 20) = take s bs"
    using s(1) e len by (intro write_length_same) simp_all
  moreover have "\<exists>as. tm_attributes m = as @ [MessageIntegritySha256 v]"
    using dec head decode_attributes_integrity [OF find] by (auto simp: decode_message_def TURN_HEADER_LEN_def)
  ultimately show ?thesis using v s(2) e dec by (simp add: Let_def)
qed

definition sample_turn_message :: turn_message where
  "sample_turn_message = \<lparr>tm_header = \<lparr>th_class = ClRequest, th_method = MAllocate, th_transaction_id = replicate 12 1\<rparr>,
     tm_attributes = [RequestedTransport 17]\<rparr>"

abbreviation sample_hmac :: "bytes \<Rightarrow> bytes \<Rightarrow> bytes" where
  "sample_hmac key x \<equiv> replicate 32 (hd key)"

lemma sample_turn_message_wf: "wf_turn_message sample_turn_message" "\<forall>k x. length (sample_hmac k x) = 32"
  by (simp_all add: wf_turn_message_def sample_turn_message_def)

lemma sample_message_encodes: "is_ok (encode_with_integrity sample_hmac sample_turn_message [9])"
  by (simp add: encode_with_integrity_def encode_message_def sample_turn_message_def validate_turn_header_def
      replicate_eq_replicate append_attribute_def finish_length_def padding_len_def write_length_def
      turn_prefix_def MAX_DATAGRAM_BYTES_def TURN_HEADER_LEN_def ATTRIBUTE_HEADER_LEN_def Let_def)

lemma signed_message_verifies_witness:
  "\<exists>bs m. encode_with_integrity sample_hmac sample_turn_message [9] = Ok bs \<and> verify_integrity sample_hmac bs [9] = Ok m
    \<and> tm_attributes m = [RequestedTransport 17, MessageIntegritySha256 (replicate 32 9)]"
proof -
  obtain bs where bs: "encode_with_integrity sample_hmac sample_turn_message [9] = Ok bs"
    using sample_message_encodes by (auto simp: is_ok_iff)
  from bs signed_message_verifies [OF sample_turn_message_wf bs] show ?thesis
    by (simp add: sample_turn_message_def)
qed

lemma verified_message_authentic_witness:
  "\<exists>bs m. verify_integrity sample_hmac bs [9] = Ok m \<and>
    bs = take (length bs - 36) bs @ to_be_bytes MESSAGE_INTEGRITY_SHA256 @ to_be_bytes (32 :: u16) @ replicate 32 9"
proof -
  obtain bs where "encode_with_integrity sample_hmac sample_turn_message [9] = Ok bs"
    using sample_message_encodes by (auto simp: is_ok_iff)
  then obtain m where m: "verify_integrity sample_hmac bs [9] = Ok m"
    by (rule encode_with_integrity_shape [OF sample_turn_message_wf])
      (use verify_shape [OF sample_turn_message_wf] in blast)
  with verified_message_authentic [OF m] show ?thesis
    unfolding Let_def list.sel by blast
qed

end
