(* ===== verification/Hash_Map.thy ===== *)
theory Hash_Map
  imports Prelude "HOL-Library.AList"
begin

text \<open>
  \<open>HashMap\<close> of the standard library as an association list with distinct keys. The order of the
  list stands for the unspecified order of iteration; the operations that iterate are used where the
  order does not matter, or where at most one entry qualifies.
\<close>

type_synonym ('k, 'v) hash_map = "('k \<times> 'v) list"

abbreviation hm_get :: "('k, 'v) hash_map \<Rightarrow> 'k \<Rightarrow> 'v option" where
  "hm_get m k \<equiv> map_of m k"

abbreviation hm_contains :: "('k, 'v) hash_map \<Rightarrow> 'k \<Rightarrow> bool" where
  "hm_contains m k \<equiv> k \<in> fst ` set m"

abbreviation hm_insert :: "'k \<Rightarrow> 'v \<Rightarrow> ('k, 'v) hash_map \<Rightarrow> ('k, 'v) hash_map" where
  "hm_insert \<equiv> AList.update"

abbreviation hm_remove :: "'k \<Rightarrow> ('k, 'v) hash_map \<Rightarrow> ('k, 'v) hash_map" where
  "hm_remove \<equiv> AList.delete"

abbreviation hm_retain :: "('k \<Rightarrow> 'v \<Rightarrow> bool) \<Rightarrow> ('k, 'v) hash_map \<Rightarrow> ('k, 'v) hash_map" where
  "hm_retain p m \<equiv> filter (\<lambda>(k, v). p k v) m"

definition hm_ok :: "('k, 'v) hash_map \<Rightarrow> bool" where
  "hm_ok m \<longleftrightarrow> distinct (map fst m)"

lemma hm_ok_Nil [simp]: "hm_ok []"
  by (simp add: hm_ok_def)

lemma hm_ok_insert [simp]: "hm_ok m \<Longrightarrow> hm_ok (hm_insert k v m)"
  by (simp add: hm_ok_def distinct_update)

lemma hm_ok_remove [simp]: "hm_ok m \<Longrightarrow> hm_ok (hm_remove k m)"
  by (simp add: hm_ok_def distinct_delete)

lemma hm_ok_filter [simp]: "hm_ok m \<Longrightarrow> hm_ok (filter p m)"
  by (simp add: hm_ok_def distinct_map_filter)

lemma hm_contains_iff: "hm_contains m k \<longleftrightarrow> hm_get m k \<noteq> None"
  by (simp add: map_of_eq_None_iff)

lemma hm_get_iff: "hm_ok m \<Longrightarrow> hm_get m k = Some v \<longleftrightarrow> (k, v) \<in> set m"
  by (simp add: hm_ok_def)

lemma hm_get_mem: "hm_get m k = Some v \<Longrightarrow> (k, v) \<in> set m"
  by (rule map_of_SomeD)

lemma hm_mem_insert: "x \<in> set (hm_insert k v m) \<Longrightarrow> x = (k, v) \<or> x \<in> set m"
  by (induction m) (auto split: if_splits)

lemma hm_mem_remove: "x \<in> set (hm_remove k m) \<longleftrightarrow> x \<in> set m \<and> fst x \<noteq> k"
  by (auto simp: AList.delete_eq)

lemma hm_length_insert_new: "\<not> hm_contains m k \<Longrightarrow> length (hm_insert k v m) = length m + 1"
  by (induction m) auto

lemma hm_length_insert_old: "hm_contains m k \<Longrightarrow> length (hm_insert k v m) = length m"
  by (induction m) auto

lemma hm_length_insert_le: "length (hm_insert k v m) \<le> length m + 1"
  by (cases "hm_contains m k") (simp_all add: hm_length_insert_new hm_length_insert_old)

lemma hm_length_remove: "hm_ok m \<Longrightarrow> hm_contains m k \<Longrightarrow> length (hm_remove k m) + 1 = length m"
proof (induction m)
  case (Cons a m)
  show ?case
  proof (cases "fst a = k")
    case True
    then have "k \<notin> fst ` set m"
      using Cons.prems(1) by (simp add: hm_ok_def)
    then have "hm_remove k m = m"
      by (simp add: delete_idem)
    with True show ?thesis by (cases a) simp
  next
    case False
    with Cons show ?thesis by (auto simp: hm_ok_def AList.delete_eq)
  qed
qed simp

lemma hm_length_filter_insert:
  "\<not> hm_contains m k \<Longrightarrow> length (filter p (hm_insert k v m)) = length (filter p m) + (if p (k, v) then 1 else 0)"
  by (induction m) auto

lemma hm_keys_insert [simp]: "fst ` set (hm_insert k v m) = insert k (fst ` set m)"
  by (induction m) auto

lemma hm_keys_remove [simp]: "fst ` set (hm_remove k m) = fst ` set m - {k}"
  by (force simp: AList.delete_eq)

end
