(* ===== verification/Turn_Relay.thy ===== *)
theory Turn_Relay
  imports Turn_Wire Hash_Map
begin

text \<open>
  The state of the TURN relay: \<open>src/crates/turn-relay/src/lib.rs\<close>. Allocations by transport tuple,
  each with its permissions, channels and quotas. Requests are authenticated against the
  allocation's key and yield a sealed authorization for one incarnation of the allocation and one
  generation of its nonce. Times are the caller's monotonic seconds; HMAC is a parameter.
\<close>

section \<open>Configuration\<close>

definition DEFAULT_ALLOCATION_LIFETIME :: u64 where "DEFAULT_ALLOCATION_LIFETIME = 600"
definition MAX_ALLOCATION_LIFETIME :: u64 where "MAX_ALLOCATION_LIFETIME = 600"
definition PERMISSION_LIFETIME :: u64 where "PERMISSION_LIFETIME = 300"
definition CHANNEL_LIFETIME :: u64 where "CHANNEL_LIFETIME = 600"
definition QUARANTINE_LIFETIME :: u64 where "QUARANTINE_LIFETIME = 300"
definition MAX_GLOBAL_ALLOCATIONS :: nat where "MAX_GLOBAL_ALLOCATIONS = 4096"
definition MAX_USER_ALLOCATIONS :: nat where "MAX_USER_ALLOCATIONS = 256"
definition MAX_PERMISSIONS :: nat where "MAX_PERMISSIONS = 64"
definition MAX_CHANNELS :: nat where "MAX_CHANNELS = 64"
definition MAX_TRAFFIC_PACKETS :: u64 where "MAX_TRAFFIC_PACKETS = 1000000000"
definition MAX_TRAFFIC_BYTES :: u64 where "MAX_TRAFFIC_BYTES = 2 ^ 40"
definition MAX_CREDENTIAL_BYTES :: nat where "MAX_CREDENTIAL_BYTES = 512"

datatype state_error = InvalidQuota | InvalidCredentials | InvalidTuple | InvalidRelay | RelayAddressInUse
  | DuplicateAllocation | MissingAllocation | ExpiredAllocation | GlobalQuota | UserQuota | PermissionQuota
  | ChannelQuota | TrafficQuota | InvalidPeer | InvalidChannel | ChannelCollision | ChannelQuarantined
  | NotPermitted | ChannelNotBound | WrongCredentials | StaleNonce | StaleAuthorization | IncarnationExhausted
  | IntegrityError | WrongRequestMethod | StTimeOverflow

record udp_tuple =
  ut_client :: socket_addr
  ut_server :: socket_addr

record allocation_credentials =
  ac_username :: bytes
  ac_realm :: bytes
  ac_nonce :: bytes
  ac_auth_identity :: bytes
  ac_integrity_key :: bytes

definition validate_credential_part :: "bytes \<Rightarrow> state_error + unit" where
  "validate_credential_part v =
     (if v = [] \<or> length v > MAX_CREDENTIAL_BYTES \<or> \<not> valid_utf8 v then Err InvalidCredentials else Ok ())"

definition new_allocation_credentials :: "bytes \<Rightarrow> bytes \<Rightarrow> bytes \<Rightarrow> bytes \<Rightarrow> bytes
    \<Rightarrow> state_error + allocation_credentials" where
  "new_allocation_credentials username realm nonce auth_identity integrity_key =
     and_then (validate_credential_part username) (\<lambda>_.
     and_then (validate_credential_part realm) (\<lambda>_.
     and_then (validate_credential_part nonce) (\<lambda>_.
       if auth_identity = [] \<or> length auth_identity > MAX_CREDENTIAL_BYTES then Err InvalidCredentials
       else Ok \<lparr>ac_username = username, ac_realm = realm, ac_nonce = nonce, ac_auth_identity = auth_identity,
              ac_integrity_key = integrity_key\<rparr>)))"

record relay_quota =
  rq_max_allocations :: nat
  rq_max_allocations_per_user :: nat
  rq_max_permissions :: nat
  rq_max_channels :: nat
  rq_max_packets :: u64
  rq_max_payload_bytes :: u64

definition validate_quota :: "relay_quota \<Rightarrow> state_error + relay_quota" where
  "validate_quota q =
     (if \<not> (1 \<le> rq_max_allocations q \<and> rq_max_allocations q \<le> MAX_GLOBAL_ALLOCATIONS)
         \<or> \<not> (1 \<le> rq_max_allocations_per_user q \<and> rq_max_allocations_per_user q \<le> MAX_USER_ALLOCATIONS)
         \<or> rq_max_allocations_per_user q > rq_max_allocations q
         \<or> \<not> (1 \<le> rq_max_permissions q \<and> rq_max_permissions q \<le> MAX_PERMISSIONS)
         \<or> \<not> (1 \<le> rq_max_channels q \<and> rq_max_channels q \<le> MAX_CHANNELS)
         \<or> \<not> (1 \<le> rq_max_packets q \<and> rq_max_packets q \<le> MAX_TRAFFIC_PACKETS)
         \<or> \<not> (1 \<le> rq_max_payload_bytes q \<and> rq_max_payload_bytes q \<le> MAX_TRAFFIC_BYTES)
      then Err InvalidQuota else Ok q)"

definition default_quota :: relay_quota where
  "default_quota = \<lparr>rq_max_allocations = 1024, rq_max_allocations_per_user = 8, rq_max_permissions = 32,
     rq_max_channels = 32, rq_max_packets = MAX_TRAFFIC_PACKETS, rq_max_payload_bytes = MAX_TRAFFIC_BYTES\<rparr>"

record peer_policy =
  pp_allow_ipv4 :: bool
  pp_allow_ipv6 :: bool
  pp_allow_well_known :: bool
  pp_allow_loopback_lab :: bool

definition default_peer_policy :: peer_policy where
  "default_peer_policy = \<lparr>pp_allow_ipv4 = True, pp_allow_ipv6 = True, pp_allow_well_known = False,
     pp_allow_loopback_lab = False\<rparr>"

section \<open>Addresses\<close>

definition usable_address :: "socket_addr \<Rightarrow> bool" where
  "usable_address a \<longleftrightarrow> socket_port a \<noteq> 0 \<and> \<not> ip_is_unspecified (socket_ip a)
     \<and> \<not> ip_is_multicast (socket_ip a) \<and> \<not> ip_is_broadcast (socket_ip a)"

definition validate_tuple :: "udp_tuple \<Rightarrow> state_error + unit" where
  "validate_tuple key =
     (if \<not> usable_address (ut_client key) \<or> \<not> usable_address (ut_server key)
         \<or> is_ipv4 (ut_client key) \<noteq> is_ipv4 (ut_server key) \<or> ut_client key = ut_server key
      then Err InvalidTuple else Ok ())"

definition validate_relay :: "peer_policy \<Rightarrow> udp_tuple \<Rightarrow> socket_addr \<Rightarrow> state_error + unit" where
  "validate_relay policy key relayed =
     (if \<not> usable_address relayed \<or> is_ipv4 relayed \<noteq> is_ipv4 (ut_server key)
         \<or> (is_ipv4 relayed \<and> \<not> pp_allow_ipv4 policy) \<or> (\<not> is_ipv4 relayed \<and> \<not> pp_allow_ipv6 policy)
         \<or> (ip_is_loopback (socket_ip relayed) \<and> \<not> pp_allow_loopback_lab policy)
      then Err InvalidRelay else Ok ())"

definition validate_peer :: "peer_policy \<Rightarrow> socket_addr \<Rightarrow> socket_addr \<Rightarrow> state_error + unit" where
  "validate_peer policy relayed peer =
     (if \<not> usable_address peer \<or> is_ipv4 peer \<noteq> is_ipv4 relayed
         \<or> (is_ipv4 peer \<and> \<not> pp_allow_ipv4 policy) \<or> (\<not> is_ipv4 peer \<and> \<not> pp_allow_ipv6 policy)
         \<or> (ip_is_loopback (socket_ip peer) \<and> \<not> pp_allow_loopback_lab policy)
         \<or> (socket_port peer < 1024 \<and> \<not> pp_allow_well_known policy)
      then Err InvalidPeer else Ok ())"

definition validate_permission_ip :: "peer_policy \<Rightarrow> socket_addr \<Rightarrow> ip_addr \<Rightarrow> state_error + unit" where
  "validate_permission_ip policy relayed ip =
     (if ip_is_unspecified ip \<or> ip_is_multicast ip \<or> ip_is_broadcast ip \<or> ip_is_ipv4 ip \<noteq> is_ipv4 relayed
         \<or> (ip_is_ipv4 ip \<and> \<not> pp_allow_ipv4 policy) \<or> (\<not> ip_is_ipv4 ip \<and> \<not> pp_allow_ipv6 policy)
         \<or> (ip_is_loopback ip \<and> \<not> pp_allow_loopback_lab policy)
      then Err InvalidPeer else Ok ())"

section \<open>Requests\<close>

text \<open>The last attribute of each kind counts.\<close>

fun last_attribute :: "(turn_attribute \<Rightarrow> 'a option) \<Rightarrow> 'a option \<Rightarrow> turn_attribute list \<Rightarrow> 'a option" where
  "last_attribute sel found [] = found"
| "last_attribute sel found (a # as) = last_attribute sel (case sel a of Some v \<Rightarrow> Some v | None \<Rightarrow> found) as"

fun username_of :: "turn_attribute \<Rightarrow> bytes option" where
  "username_of (Username v) = Some v" | "username_of _ = None"

fun realm_of :: "turn_attribute \<Rightarrow> bytes option" where
  "realm_of (Realm v) = Some v" | "realm_of _ = None"

fun nonce_of :: "turn_attribute \<Rightarrow> bytes option" where
  "nonce_of (Nonce v) = Some v" | "nonce_of _ = None"

fun channel_of :: "turn_attribute \<Rightarrow> u16 option" where
  "channel_of (ChannelNumber v) = Some v" | "channel_of _ = None"

fun peer_of :: "turn_attribute \<Rightarrow> socket_addr option" where
  "peer_of (XorPeerAddress a) = Some a" | "peer_of _ = None"

fun lifetime_of :: "turn_attribute \<Rightarrow> u32 option" where
  "lifetime_of (Lifetime v) = Some v" | "lifetime_of _ = None"

record request_credentials =
  qc_username :: bytes
  qc_realm :: bytes
  qc_nonce :: bytes

definition get_request_credentials :: "turn_message \<Rightarrow> state_error + request_credentials" where
  "get_request_credentials m =
     (case (last_attribute username_of None (tm_attributes m), last_attribute realm_of None (tm_attributes m),
            last_attribute nonce_of None (tm_attributes m)) of
        (Some username, Some realm, Some nonce) \<Rightarrow>
          Ok \<lparr>qc_username = username, qc_realm = realm, qc_nonce = nonce\<rparr>
      | _ \<Rightarrow> Err WrongCredentials)"

definition request_lifetime :: "turn_message \<Rightarrow> state_error + u64" where
  "request_lifetime m =
     (if th_method (tm_header m) \<noteq> MRefresh then Err WrongRequestMethod
      else Ok (case List.find (\<lambda>a. lifetime_of a \<noteq> None) (tm_attributes m) of
          Some (Lifetime seconds) \<Rightarrow> ucast seconds
        | _ \<Rightarrow> DEFAULT_ALLOCATION_LIFETIME))"

definition request_peers :: "turn_message \<Rightarrow> state_error + socket_addr list" where
  "request_peers m =
     (if th_method (tm_header m) \<noteq> MCreatePermission then Err WrongRequestMethod
      else let peers = List.map_filter peer_of (tm_attributes m) in
        if peers = [] then Err InvalidPeer else Ok peers)"

definition request_channel :: "turn_message \<Rightarrow> state_error + u16 \<times> socket_addr" where
  "request_channel m =
     (if th_method (tm_header m) \<noteq> MChannelBind then Err WrongRequestMethod
      else case (last_attribute channel_of None (tm_attributes m), last_attribute peer_of None (tm_attributes m)) of
          (Some channel, Some peer) \<Rightarrow> Ok (channel, peer)
        | _ \<Rightarrow> Err InvalidChannel)"

definition desired_lifetime :: "u64 option \<Rightarrow> u64" where
  "desired_lifetime _ = min DEFAULT_ALLOCATION_LIFETIME MAX_ALLOCATION_LIFETIME"

section \<open>State\<close>

record channel_binding =
  cb_peer :: socket_addr
  cb_expires_at :: u64
  cb_quarantine_until :: u64

record expired_binding =
  eb_channel :: u16
  eb_peer :: socket_addr
  eb_quarantine_until :: u64

record traffic_counters =
  tc_packets :: u64
  tc_payload_bytes :: u64

record allocation =
  al_credentials :: allocation_credentials
  al_incarnation :: u64
  al_credential_generation :: u64
  al_relayed_address :: socket_addr
  al_expires_at :: u64
  al_permissions :: "(ip_addr, u64) hash_map"
  al_channels :: "(u16, channel_binding) hash_map"
  al_expired_bindings :: "expired_binding list"
  al_counters :: traffic_counters

record allocation_info =
  ai_relayed_address :: socket_addr
  ai_expires_at :: u64

record authenticated_request =
  ar_state_instance :: u64
  ar_tuple :: udp_tuple
  ar_allocation_incarnation :: u64
  ar_credential_generation :: u64
  ar_verified :: turn_message

record stale_nonce_challenge =
  sc_realm :: bytes
  sc_nonce :: bytes
  sc_integrity_key :: bytes

datatype delivery_route = ChannelDataRoute u16 | DataIndication

record relay_state =
  rs_state_instance :: u64
  rs_allocations :: "(udp_tuple, allocation) hash_map"
  rs_next_incarnation :: u64
  rs_quota :: relay_quota
  rs_policy :: peer_policy

text \<open>\<open>?\<close> after a call that also changes the state.\<close>

fun st_then :: "'s \<times> ('e + 'a) \<Rightarrow> ('s \<Rightarrow> 'a \<Rightarrow> 's \<times> ('e + 'b)) \<Rightarrow> 's \<times> ('e + 'b)" where
  "st_then (s, Inl e) f = (s, Err e)"
| "st_then (s, Inr x) f = f s x"

text \<open>The first argument is the process-wide counter of relay states.\<close>

definition new_relay :: "u64 \<Rightarrow> relay_quota \<Rightarrow> peer_policy \<Rightarrow> u64 \<times> (state_error + relay_state)" where
  "new_relay next_instance quota policy = (case checked_add next_instance 1 of
     None \<Rightarrow> (next_instance, Err IncarnationExhausted)
   | Some n \<Rightarrow> (n, and_then (validate_quota quota) (\<lambda>quota.
       Ok \<lparr>rs_state_instance = next_instance, rs_allocations = [], rs_next_incarnation = 0, rs_quota = quota,
          rs_policy = policy\<rparr>)))"

fun expire_channels :: "allocation \<Rightarrow> (u16 \<times> channel_binding) list \<Rightarrow> allocation" where
  "expire_channels a [] = a"
| "expire_channels a ((channel, b) # xs) = expire_channels
     (a\<lparr>al_channels := hm_remove channel (al_channels a),
        al_expired_bindings := al_expired_bindings a @ [\<lparr>eb_channel = channel, eb_peer = cb_peer b,
          eb_quarantine_until = cb_quarantine_until b\<rparr>]\<rparr>) xs"

definition prune_children :: "allocation \<Rightarrow> u64 \<Rightarrow> allocation" where
  "prune_children a now =
     (let a = a\<lparr>al_permissions := hm_retain (\<lambda>_ e. now < e) (al_permissions a)\<rparr>;
          a = expire_channels a (hm_retain (\<lambda>_ b. now \<ge> cb_expires_at b) (al_channels a)) in
      a\<lparr>al_expired_bindings := filter (\<lambda>b. now < eb_quarantine_until b) (al_expired_bindings a)\<rparr>)"

definition relay_cleanup :: "relay_state \<Rightarrow> u64 \<Rightarrow> relay_state" where
  "relay_cleanup s now = s\<lparr>rs_allocations := hm_retain (\<lambda>_ a. now < al_expires_at a) (rs_allocations s)\<rparr>"

abbreviation put_allocation :: "relay_state \<Rightarrow> udp_tuple \<Rightarrow> allocation \<Rightarrow> relay_state" where
  "put_allocation s key a \<equiv> s\<lparr>rs_allocations := hm_insert key a (rs_allocations s)\<rparr>"

definition live_allocation :: "relay_state \<Rightarrow> udp_tuple \<Rightarrow> u64 \<Rightarrow> relay_state \<times> (state_error + allocation)" where
  "live_allocation s key now = (case hm_get (rs_allocations s) key of
     None \<Rightarrow> (s, Err MissingAllocation)
   | Some a \<Rightarrow> if now \<ge> al_expires_at a then (s, Err ExpiredAllocation)
       else let a = prune_children a now in (put_allocation s key a, Ok a))"

definition same_user :: "allocation_credentials \<Rightarrow> allocation_credentials \<Rightarrow> bool" where
  "same_user c d \<longleftrightarrow> ac_username c = ac_username d \<and> ac_auth_identity c = ac_auth_identity d"

definition create_allocation :: "relay_state \<Rightarrow> udp_tuple \<Rightarrow> allocation_credentials \<Rightarrow> socket_addr \<Rightarrow> u64
    \<Rightarrow> u64 option \<Rightarrow> relay_state \<times> (state_error + allocation_info)" where
  "create_allocation s key credentials relayed now requested_lifetime =
     (case and_then (validate_tuple key) (\<lambda>_. validate_relay (rs_policy s) key relayed) of
        Inl e \<Rightarrow> (s, Err e)
      | Inr _ \<Rightarrow>
      let s = relay_cleanup s now in
      if hm_contains (rs_allocations s) key then (s, Err DuplicateAllocation)
      else if list_ex (\<lambda>(_, a). al_relayed_address a = relayed) (rs_allocations s) then (s, Err RelayAddressInUse)
      else if length (rs_allocations s) \<ge> rq_max_allocations (rs_quota s) then (s, Err GlobalQuota)
      else if length (filter (\<lambda>(_, a). same_user (al_credentials a) credentials) (rs_allocations s))
          \<ge> rq_max_allocations_per_user (rs_quota s) then (s, Err UserQuota)
      else case checked_add now (desired_lifetime requested_lifetime) of
        None \<Rightarrow> (s, Err StTimeOverflow)
      | Some expires_at \<Rightarrow> (case checked_add (rs_next_incarnation s) 1 of
          None \<Rightarrow> (s, Err IncarnationExhausted)
        | Some inc \<Rightarrow>
            (put_allocation (s\<lparr>rs_next_incarnation := inc\<rparr>) key
               \<lparr>al_credentials = credentials, al_incarnation = inc, al_credential_generation = 1,
                al_relayed_address = relayed, al_expires_at = expires_at, al_permissions = [], al_channels = [],
                al_expired_bindings = [], al_counters = \<lparr>tc_packets = 0, tc_payload_bytes = 0\<rparr>\<rparr>,
             Ok \<lparr>ai_relayed_address = relayed, ai_expires_at = expires_at\<rparr>)))"

definition authenticate_request_inner :: "(bytes \<Rightarrow> bytes \<Rightarrow> bytes) \<Rightarrow> relay_state \<Rightarrow> udp_tuple \<Rightarrow> bytes \<Rightarrow> u64 \<Rightarrow> bool
    \<Rightarrow> relay_state \<times> (state_error + authenticated_request)" where
  "authenticate_request_inner hmac s key encoded now allow_stale_nonce =
     st_then (live_allocation s key now) (\<lambda>s a.
       case verify_integrity hmac encoded (ac_integrity_key (al_credentials a)) of
         Inl _ \<Rightarrow> (s, Err IntegrityError)
       | Inr m \<Rightarrow>
       if th_class (tm_header m) \<noteq> ClRequest then (s, Err WrongRequestMethod)
       else case get_request_credentials m of
         Inl e \<Rightarrow> (s, Err e)
       | Inr rc \<Rightarrow>
       st_then (live_allocation s key now) (\<lambda>s a.
         if ac_username (al_credentials a) \<noteq> qc_username rc \<or> ac_realm (al_credentials a) \<noteq> qc_realm rc
           then (s, Err WrongCredentials)
         else if \<not> allow_stale_nonce \<and> ac_nonce (al_credentials a) \<noteq> qc_nonce rc then (s, Err StaleNonce)
         else (s, Ok \<lparr>ar_state_instance = rs_state_instance s, ar_tuple = key,
                ar_allocation_incarnation = al_incarnation a,
                ar_credential_generation = al_credential_generation a, ar_verified = m\<rparr>)))"

definition authenticate_request :: "(bytes \<Rightarrow> bytes \<Rightarrow> bytes) \<Rightarrow> relay_state \<Rightarrow> udp_tuple \<Rightarrow> bytes \<Rightarrow> u64
    \<Rightarrow> relay_state \<times> (state_error + authenticated_request)" where
  "authenticate_request hmac s key encoded now = authenticate_request_inner hmac s key encoded now False"

definition get_stale_nonce_challenge :: "(bytes \<Rightarrow> bytes \<Rightarrow> bytes) \<Rightarrow> relay_state \<Rightarrow> udp_tuple \<Rightarrow> bytes \<Rightarrow> u64
    \<Rightarrow> relay_state \<times> (state_error + stale_nonce_challenge)" where
  "get_stale_nonce_challenge hmac s key encoded now =
     st_then (authenticate_request_inner hmac s key encoded now True) (\<lambda>s request.
       case get_request_credentials (ar_verified request) of
         Inl e \<Rightarrow> (s, Err e)
       | Inr rc \<Rightarrow> st_then (live_allocation s key now) (\<lambda>s a.
           if ac_nonce (al_credentials a) = qc_nonce rc then (s, Err StaleNonce)
           else (s, Ok \<lparr>sc_realm = ac_realm (al_credentials a), sc_nonce = ac_nonce (al_credentials a),
                  sc_integrity_key = ac_integrity_key (al_credentials a)\<rparr>)))"

definition STALE_NONCE_REASON :: bytes where
  "STALE_NONCE_REASON = [83, 116, 97, 108, 101, 32, 78, 111, 110, 99, 101]"

definition encode_signed_438 :: "(bytes \<Rightarrow> bytes \<Rightarrow> bytes) \<Rightarrow> stale_nonce_challenge \<Rightarrow> turn_method \<Rightarrow> bytes
    \<Rightarrow> wire_error + bytes" where
  "encode_signed_438 hmac c method transaction_id =
     (if method \<notin> {MRefresh, MCreatePermission, MChannelBind} then Err InvalidMethodClass
      else encode_with_integrity hmac
        \<lparr>tm_header = \<lparr>th_class = ClError, th_method = method, th_transaction_id = transaction_id\<rparr>,
         tm_attributes = [ErrorCode 438 STALE_NONCE_REASON, Realm (sc_realm c), Nonce (sc_nonce c)]\<rparr>
        (sc_integrity_key c))"

definition authorized_allocation :: "relay_state \<Rightarrow> authenticated_request \<Rightarrow> u64 \<Rightarrow> turn_method
    \<Rightarrow> relay_state \<times> (state_error + allocation)" where
  "authorized_allocation s request now expected_method =
     (if th_method (tm_header (ar_verified request)) \<noteq> expected_method then (s, Err WrongRequestMethod)
      else if ar_state_instance request \<noteq> rs_state_instance s then (s, Err StaleAuthorization)
      else st_then (live_allocation s (ar_tuple request) now) (\<lambda>s a.
        if al_incarnation a \<noteq> ar_allocation_incarnation request then (s, Err StaleAuthorization)
        else if al_credential_generation a \<noteq> ar_credential_generation request then (s, Err StaleNonce)
        else (s, Ok a)))"

definition rotate_nonce :: "relay_state \<Rightarrow> authenticated_request \<Rightarrow> bytes \<Rightarrow> u64 \<Rightarrow> relay_state \<times> (state_error + unit)" where
  "rotate_nonce s request nonce now = (case validate_credential_part nonce of
     Inl e \<Rightarrow> (s, Err e)
   | Inr _ \<Rightarrow> st_then (authorized_allocation s request now (th_method (tm_header (ar_verified request)))) (\<lambda>s a.
       case checked_add (al_credential_generation a) 1 of
         None \<Rightarrow> (s, Err StTimeOverflow)
       | Some g \<Rightarrow> (put_allocation s (ar_tuple request)
             (a\<lparr>al_credentials := (al_credentials a)\<lparr>ac_nonce := nonce\<rparr>, al_credential_generation := g\<rparr>), Ok ())))"

definition relay_refresh :: "relay_state \<Rightarrow> authenticated_request \<Rightarrow> u64
    \<Rightarrow> relay_state \<times> (state_error + allocation_info option)" where
  "relay_refresh s request now =
     st_then (authorized_allocation s request now MRefresh) (\<lambda>s _.
       case request_lifetime (ar_verified request) of
         Inl e \<Rightarrow> (s, Err e)
       | Inr requested \<Rightarrow>
       if requested = 0 then
         (if hm_contains (rs_allocations s) (ar_tuple request)
          then (s\<lparr>rs_allocations := hm_remove (ar_tuple request) (rs_allocations s)\<rparr>, Ok None)
          else (s, Err MissingAllocation))
       else case checked_add now (desired_lifetime (Some requested)) of
         None \<Rightarrow> (s, Err StTimeOverflow)
       | Some expires_at \<Rightarrow>
       st_then (authorized_allocation s request now MRefresh) (\<lambda>s a.
         (put_allocation s (ar_tuple request) (a\<lparr>al_expires_at := expires_at\<rparr>),
          Ok (Some \<lparr>ai_relayed_address = al_relayed_address a, ai_expires_at = expires_at\<rparr>))))"

fun validate_permissions :: "peer_policy \<Rightarrow> socket_addr \<Rightarrow> socket_addr list \<Rightarrow> state_error + unit" where
  "validate_permissions policy relayed [] = Ok ()"
| "validate_permissions policy relayed (p # ps) =
     and_then (validate_permission_ip policy relayed (socket_ip p)) (\<lambda>_. validate_permissions policy relayed ps)"

definition create_permissions :: "relay_state \<Rightarrow> authenticated_request \<Rightarrow> u64 \<Rightarrow> relay_state \<times> (state_error + unit)" where
  "create_permissions s request now = (case request_peers (ar_verified request) of
     Inl e \<Rightarrow> (s, Err e)
   | Inr peers \<Rightarrow>
   if peers = [] \<or> length peers > rq_max_permissions (rs_quota s) then (s, Err PermissionQuota)
   else st_then (authorized_allocation s request now MCreatePermission) (\<lambda>s a.
     case validate_permissions (rs_policy s) (al_relayed_address a) peers of
       Inl e \<Rightarrow> (s, Err e)
     | Inr _ \<Rightarrow> (case checked_add now PERMISSION_LIFETIME of
         None \<Rightarrow> (s, Err StTimeOverflow)
       | Some expires_at \<Rightarrow>
       st_then (authorized_allocation s request now MCreatePermission) (\<lambda>s a.
         let unique_ips = remdups (map socket_ip peers);
             new_count = length (filter (\<lambda>ip. \<not> hm_contains (al_permissions a) ip) unique_ips) in
         if length (al_permissions a) + new_count > rq_max_permissions (rs_quota s) then (s, Err PermissionQuota)
         else (put_allocation s (ar_tuple request)
                 (a\<lparr>al_permissions := fold (\<lambda>ip. hm_insert ip expires_at) unique_ips (al_permissions a)\<rparr>), Ok ())))))"

definition quarantined :: "allocation \<Rightarrow> u64 \<Rightarrow> u16 \<Rightarrow> socket_addr \<Rightarrow> bool" where
  "quarantined a now channel peer = list_ex (\<lambda>x. now < eb_quarantine_until x
     \<and> (eb_channel x = channel \<and> eb_peer x \<noteq> peer \<or> eb_peer x = peer \<and> eb_channel x \<noteq> channel))
     (al_expired_bindings a)"

definition channel_collides :: "allocation \<Rightarrow> u16 \<Rightarrow> socket_addr \<Rightarrow> bool" where
  "channel_collides a channel peer \<longleftrightarrow> is_some_and (hm_get (al_channels a) channel) (\<lambda>b. cb_peer b \<noteq> peer)
     \<or> list_ex (\<lambda>(c, b). c \<noteq> channel \<and> cb_peer b = peer) (al_channels a)"

definition bind_channel :: "relay_state \<Rightarrow> authenticated_request \<Rightarrow> u64 \<Rightarrow> relay_state \<times> (state_error + unit)" where
  "bind_channel s request now = (case request_channel (ar_verified request) of
     Inl e \<Rightarrow> (s, Err e)
   | Inr (channel, peer) \<Rightarrow>
   if \<not> (CHANNEL_MIN \<le> channel \<and> channel \<le> CHANNEL_MAX) then (s, Err InvalidChannel)
   else st_then (authorized_allocation s request now MChannelBind) (\<lambda>s a.
     case validate_peer (rs_policy s) (al_relayed_address a) peer of
       Inl e \<Rightarrow> (s, Err e)
     | Inr _ \<Rightarrow> (case checked_add now PERMISSION_LIFETIME of
         None \<Rightarrow> (s, Err StTimeOverflow)
       | Some permission_expires \<Rightarrow> (case checked_add now CHANNEL_LIFETIME of
         None \<Rightarrow> (s, Err StTimeOverflow)
       | Some channel_expires \<Rightarrow> (case checked_add channel_expires QUARANTINE_LIFETIME of
         None \<Rightarrow> (s, Err StTimeOverflow)
       | Some quarantine_until \<Rightarrow>
       st_then (authorized_allocation s request now MChannelBind) (\<lambda>s a.
         if quarantined a now channel peer then (s, Err ChannelQuarantined)
         else if channel_collides a channel peer then (s, Err ChannelCollision)
         else if \<not> hm_contains (al_channels a) channel \<and> length (al_channels a) \<ge> rq_max_channels (rs_quota s)
           then (s, Err ChannelQuota)
         else if \<not> hm_contains (al_permissions a) (socket_ip peer)
             \<and> length (al_permissions a) \<ge> rq_max_permissions (rs_quota s) then (s, Err PermissionQuota)
         else (put_allocation s (ar_tuple request)
                 (a\<lparr>al_permissions := hm_insert (socket_ip peer) permission_expires (al_permissions a),
                    al_channels := hm_insert channel \<lparr>cb_peer = peer, cb_expires_at = channel_expires,
                      cb_quarantine_until = quarantine_until\<rparr> (al_channels a)\<rparr>), Ok ())))))))"

definition require_permission_and_account :: "relay_state \<Rightarrow> udp_tuple \<Rightarrow> socket_addr \<Rightarrow> u64 \<Rightarrow> u64
    \<Rightarrow> relay_state \<times> (state_error + unit)" where
  "require_permission_and_account s key peer payload_bytes now =
     st_then (live_allocation s key now) (\<lambda>s a.
       if \<not> hm_contains (al_permissions a) (socket_ip peer) then (s, Err NotPermitted)
       else case checked_add (tc_packets (al_counters a)) 1 of
         None \<Rightarrow> (s, Err TrafficQuota)
       | Some packets \<Rightarrow> (case checked_add (tc_payload_bytes (al_counters a)) payload_bytes of
           None \<Rightarrow> (s, Err TrafficQuota)
         | Some total_bytes \<Rightarrow>
             if packets > rq_max_packets (rs_quota s) \<or> total_bytes > rq_max_payload_bytes (rs_quota s)
             then (s, Err TrafficQuota)
             else (put_allocation s key (a\<lparr>al_counters := \<lparr>tc_packets = packets, tc_payload_bytes = total_bytes\<rparr>\<rparr>), Ok ())))"

definition authorize_send :: "relay_state \<Rightarrow> udp_tuple \<Rightarrow> socket_addr \<Rightarrow> u64 \<Rightarrow> u64 \<Rightarrow> relay_state \<times> (state_error + unit)" where
  "authorize_send s key peer payload_bytes now =
     st_then (live_allocation s key now) (\<lambda>s a.
       case validate_peer (rs_policy s) (al_relayed_address a) peer of
         Inl e \<Rightarrow> (s, Err e)
       | Inr _ \<Rightarrow> require_permission_and_account s key peer payload_bytes now)"

definition authorize_channel_data :: "relay_state \<Rightarrow> udp_tuple \<Rightarrow> u16 \<Rightarrow> u64 \<Rightarrow> u64
    \<Rightarrow> relay_state \<times> (state_error + socket_addr)" where
  "authorize_channel_data s key channel payload_bytes now =
     st_then (live_allocation s key now) (\<lambda>s a.
       case hm_get (al_channels a) channel of
         None \<Rightarrow> (s, Err ChannelNotBound)
       | Some b \<Rightarrow> st_then (require_permission_and_account s key (cb_peer b) payload_bytes now) (\<lambda>s _. (s, Ok (cb_peer b))))"

definition route_peer_datagram :: "relay_state \<Rightarrow> udp_tuple \<Rightarrow> socket_addr \<Rightarrow> u64 \<Rightarrow> u64
    \<Rightarrow> relay_state \<times> (state_error + delivery_route)" where
  "route_peer_datagram s key peer payload_bytes now =
     st_then (live_allocation s key now) (\<lambda>s a.
       case validate_permission_ip (rs_policy s) (al_relayed_address a) (socket_ip peer) of
         Inl e \<Rightarrow> (s, Err e)
       | Inr _ \<Rightarrow> st_then (require_permission_and_account s key peer payload_bytes now) (\<lambda>s _.
           st_then (live_allocation s key now) (\<lambda>s a.
             (s, Ok (case List.find (\<lambda>(_, b). cb_peer b = peer) (al_channels a) of
                 Some (channel, _) \<Rightarrow> ChannelDataRoute channel
               | None \<Rightarrow> DataIndication)))))"

definition get_allocation_info :: "relay_state \<Rightarrow> udp_tuple \<Rightarrow> u64 \<Rightarrow> relay_state \<times> (state_error + allocation_info)" where
  "get_allocation_info s key now = st_then (live_allocation s key now) (\<lambda>s a.
     (s, Ok \<lparr>ai_relayed_address = al_relayed_address a, ai_expires_at = al_expires_at a\<rparr>))"

definition relay_counters :: "relay_state \<Rightarrow> udp_tuple \<Rightarrow> u64 \<Rightarrow> relay_state \<times> (state_error + traffic_counters)" where
  "relay_counters s key now = st_then (live_allocation s key now) (\<lambda>s a. (s, Ok (al_counters a)))"

section \<open>One allocation\<close>

lemma expire_channels_result:
  "expire_channels a xs = a\<lparr>al_channels := filter (\<lambda>x. fst x \<notin> fst ` set xs) (al_channels a),
     al_expired_bindings := al_expired_bindings a @ map (\<lambda>(c, b). \<lparr>eb_channel = c, eb_peer = cb_peer b,
       eb_quarantine_until = cb_quarantine_until b\<rparr>) xs\<rparr>"
proof (induction xs arbitrary: a)
  case (Cons x xs)
  obtain c b where x: "x = (c, b)" by fastforce
  have "filter (\<lambda>y. fst y \<notin> fst ` set xs) (hm_remove c m) = filter (\<lambda>y. fst y \<noteq> c \<and> fst y \<notin> fst ` set xs) m"
    for m :: "(u16, channel_binding) hash_map"
    by (auto simp: AList.delete_eq intro!: filter_cong)
  then show ?case by (simp add: x Cons.IH)
qed simp

definition live_channels :: "u64 \<Rightarrow> (u16, channel_binding) hash_map \<Rightarrow> (u16, channel_binding) hash_map" where
  "live_channels now m = filter (\<lambda>x. fst x \<notin> fst ` set (hm_retain (\<lambda>_ b. now \<ge> cb_expires_at b) m)) m"

lemma prune_children_fields [simp]:
  "al_credentials (prune_children a now) = al_credentials a"
  "al_incarnation (prune_children a now) = al_incarnation a"
  "al_credential_generation (prune_children a now) = al_credential_generation a"
  "al_relayed_address (prune_children a now) = al_relayed_address a"
  "al_expires_at (prune_children a now) = al_expires_at a"
  "al_permissions (prune_children a now) = hm_retain (\<lambda>_ e. now < e) (al_permissions a)"
  "al_channels (prune_children a now) = live_channels now (al_channels a)"
  "al_expired_bindings (prune_children a now) = filter (\<lambda>b. now < eb_quarantine_until b) (al_expired_bindings a
     @ map (\<lambda>(c, b). \<lparr>eb_channel = c, eb_peer = cb_peer b, eb_quarantine_until = cb_quarantine_until b\<rparr>)
         (hm_retain (\<lambda>_ b. now \<ge> cb_expires_at b) (al_channels a)))"
  "al_counters (prune_children a now) = al_counters a"
  by (simp_all add: prune_children_def expire_channels_result live_channels_def Let_def)

lemma live_channels_mem: "(c, b) \<in> set (live_channels now m) \<Longrightarrow> (c, b) \<in> set m \<and> now < cb_expires_at b"
  by (force simp: live_channels_def)

lemma live_channels_eq: "hm_ok m \<Longrightarrow> live_channels now m = hm_retain (\<lambda>_ b. now < cb_expires_at b) m"
  unfolding live_channels_def
proof (rule filter_cong [OF refl])
  fix x
  assume m: "hm_ok m" and x: "x \<in> set m"
  obtain c b where cb: "x = (c, b)" by fastforce
  have get: "hm_get m c = Some b" using m x cb by (simp add: hm_get_iff)
  have same: "b' = b" if "(c, b') \<in> set m" for b'
    using m that get by (simp add: hm_get_iff [symmetric])
  show "fst x \<notin> fst ` set (hm_retain (\<lambda>_ b. now \<ge> cb_expires_at b) m) \<longleftrightarrow> (case x of (_, b) \<Rightarrow> now < cb_expires_at b)"
  proof
    assume no: "fst x \<notin> fst ` set (hm_retain (\<lambda>_ b. now \<ge> cb_expires_at b) m)"
    show "case x of (_, b) \<Rightarrow> now < cb_expires_at b"
    proof (rule ccontr)
      assume "\<not> (case x of (_, b) \<Rightarrow> now < cb_expires_at b)"
      then have "x \<in> set (hm_retain (\<lambda>_ b. now \<ge> cb_expires_at b) m)" using x by (simp add: cb not_less)
      with no show False by (blast dest: imageI)
    qed
  next
    assume "case x of (_, b) \<Rightarrow> now < cb_expires_at b"
    then show "fst x \<notin> fst ` set (hm_retain (\<lambda>_ b. now \<ge> cb_expires_at b) m)"
      using same by (auto simp: cb dest: leD)
  qed
qed

lemma retain_live [simp]: "hm_retain (\<lambda>_ b. now \<ge> cb_expires_at b) (live_channels now m) = []"
  by (auto simp: filter_empty_conv dest!: live_channels_mem leD)

lemma live_channels_idem [simp]: "live_channels now (live_channels now m) = live_channels now m"
  by (simp add: live_channels_def [of now "live_channels now m"])

lemma prune_children_idem [simp]: "prune_children (prune_children a now) now = prune_children a now"
  by (rule allocation.equality) simp_all

lemma hm_insert_twice [simp]: "hm_insert k v (hm_insert k w m) = hm_insert k v m"
  by (induction m) auto

section \<open>The relay\<close>

lemma live_allocation_Ok_iff:
  "live_allocation s k now = (s', Ok a) \<longleftrightarrow> (\<exists>a0. hm_get (rs_allocations s) k = Some a0 \<and> now < al_expires_at a0
     \<and> a = prune_children a0 now \<and> s' = put_allocation s k a)"
  by (auto simp: live_allocation_def Let_def not_le split: option.splits if_splits)

lemma live_allocation_again:
  assumes "live_allocation s k now = (s', Ok a)"
  shows "live_allocation s' k now = (s', Ok a)"
  using assms unfolding live_allocation_Ok_iff by (auto simp: AList.update_conv')

lemma live_allocation_Err: "live_allocation s k now = (s', Err e) \<Longrightarrow> s' = s"
  by (auto simp: live_allocation_def Let_def split: option.splits if_splits)

lemma st_then_cases:
  assumes "st_then r f = (s', x)"
  obtains (err) e where "r = (s', Inl e)" "x = Err e" | (ok) s v where "r = (s, Inr v)" "f s v = (s', x)"
  using assms by (cases r; cases "snd r") auto

text \<open>
  Two states are related when nothing was granted between them: every allocation of the second is
  one of the first, with the same identity, with no permission and no channel it did not have, and
  within the traffic quota if it was.
\<close>

text \<open>
  \<open>binding_reserved a c p u\<close>: the channel and the peer belong to each other until \<open>u\<close>, as a live
  binding or as an expired one in quarantine.
\<close>

definition binding_reserved :: "allocation \<Rightarrow> u16 \<Rightarrow> socket_addr \<Rightarrow> u64 \<Rightarrow> bool" where
  "binding_reserved a c p u \<longleftrightarrow>
     (\<exists>b. hm_get (al_channels a) c = Some b \<and> cb_peer b = p \<and> u \<le> cb_quarantine_until b)
     \<or> (\<exists>x \<in> set (al_expired_bindings a). eb_channel x = c \<and> eb_peer x = p \<and> u \<le> eb_quarantine_until x)"

lemma binding_reserved_update [simp]:
  "binding_reserved (a\<lparr>al_permissions := x\<rparr>) c p u = binding_reserved a c p u"
  "binding_reserved (a\<lparr>al_credentials := y\<rparr>) c p u = binding_reserved a c p u"
  "binding_reserved (a\<lparr>al_credential_generation := z\<rparr>) c p u = binding_reserved a c p u"
  "binding_reserved (a\<lparr>al_expires_at := e\<rparr>) c p u = binding_reserved a c p u"
  "binding_reserved (a\<lparr>al_counters := n\<rparr>) c p u = binding_reserved a c p u"
  by (simp_all add: binding_reserved_def)

lemma map_of_filter_mem: "hm_ok m \<Longrightarrow> hm_get (filter p m) k = Some v \<longleftrightarrow> hm_get m k = Some v \<and> p (k, v)"
  by (simp add: hm_get_iff)

lemma binding_reserved_prune:
  assumes "hm_ok (al_channels a)" "binding_reserved a c p u" "now < u"
  shows "binding_reserved (prune_children a now) c p u"
proof (cases "\<exists>b. hm_get (al_channels a) c = Some b \<and> cb_peer b = p \<and> u \<le> cb_quarantine_until b")
  case True
  then obtain b where b: "hm_get (al_channels a) c = Some b" "cb_peer b = p" "u \<le> cb_quarantine_until b" by blast
  show ?thesis
  proof (cases "now < cb_expires_at b")
    case True
    with b assms(1) show ?thesis by (auto simp: binding_reserved_def live_channels_eq map_of_filter_mem)
  next
    case False
    let ?x = "\<lparr>eb_channel = c, eb_peer = cb_peer b, eb_quarantine_until = cb_quarantine_until b\<rparr>"
    have "(c, b) \<in> set (hm_retain (\<lambda>_ b. now \<ge> cb_expires_at b) (al_channels a))"
      using False hm_get_mem [OF b(1)] by (simp add: not_less)
    then have "?x \<in> set (al_expired_bindings (prune_children a now))"
      using b(3) assms(3) by (force simp: image_iff)
    with b show ?thesis unfolding binding_reserved_def by force
  qed
next
  case False
  with assms(2,3) show ?thesis by (auto simp: binding_reserved_def)
qed

definition traffic_ok :: "relay_quota \<Rightarrow> allocation \<Rightarrow> bool" where
  "traffic_ok q a \<longleftrightarrow> tc_packets (al_counters a) \<le> rq_max_packets q
     \<and> tc_payload_bytes (al_counters a) \<le> rq_max_payload_bytes q"

definition alloc_keeps :: "relay_quota \<Rightarrow> u64 \<Rightarrow> allocation \<Rightarrow> allocation \<Rightarrow> bool" where
  "alloc_keeps q now a a' \<longleftrightarrow> al_incarnation a' = al_incarnation a \<and> al_relayed_address a' = al_relayed_address a
     \<and> ac_integrity_key (al_credentials a') = ac_integrity_key (al_credentials a)
     \<and> same_user (al_credentials a) = same_user (al_credentials a')
     \<and> set (al_permissions a') \<subseteq> set (al_permissions a) \<and> (hm_ok (al_permissions a) \<longrightarrow> hm_ok (al_permissions a'))
     \<and> set (al_channels a') \<subseteq> set (al_channels a) \<and> (hm_ok (al_channels a) \<longrightarrow> hm_ok (al_channels a'))
     \<and> (traffic_ok q a \<longrightarrow> traffic_ok q a')
     \<and> (\<forall>c p u. now < u \<longrightarrow> hm_ok (al_channels a) \<longrightarrow> binding_reserved a c p u \<longrightarrow> binding_reserved a' c p u)"

lemma alloc_keeps_refl: "alloc_keeps q now a a"
  by (simp add: alloc_keeps_def)

lemma alloc_keeps_trans: "alloc_keeps q now a b \<Longrightarrow> alloc_keeps q now b c \<Longrightarrow> alloc_keeps q now a c"
  unfolding alloc_keeps_def by auto

lemma alloc_keeps_prune: "alloc_keeps q now a (prune_children a now)"
  using live_channels_mem [of _ _ now "al_channels a"] binding_reserved_prune [of a _ _ _ now]
  by (auto simp: alloc_keeps_def traffic_ok_def live_channels_def)

definition relay_keeps :: "u64 \<Rightarrow> relay_state \<Rightarrow> relay_state \<Rightarrow> bool" where
  "relay_keeps now s s' \<longleftrightarrow> rs_state_instance s' = rs_state_instance s \<and> rs_next_incarnation s' = rs_next_incarnation s
     \<and> rs_quota s' = rs_quota s \<and> rs_policy s' = rs_policy s \<and> (hm_ok (rs_allocations s) \<longrightarrow> hm_ok (rs_allocations s'))
     \<and> (\<forall>k a'. hm_get (rs_allocations s') k = Some a' \<longrightarrow>
          (\<exists>a. hm_get (rs_allocations s) k = Some a \<and> alloc_keeps (rs_quota s) now a a'))"

lemma relay_keepsD:
  assumes "relay_keeps now s s'" "hm_get (rs_allocations s') k = Some a'"
  obtains a where "hm_get (rs_allocations s) k = Some a" "alloc_keeps (rs_quota s) now a a'"
  using assms unfolding relay_keeps_def by blast

lemma relay_keeps_refl [simp]: "relay_keeps now s s"
  by (auto simp: relay_keeps_def intro: alloc_keeps_refl)

lemma relay_keeps_trans: "relay_keeps now s t \<Longrightarrow> relay_keeps now t u \<Longrightarrow> relay_keeps now s u"
  unfolding relay_keeps_def by (fastforce intro: alloc_keeps_trans)

lemma relay_keeps_put:
  "hm_get (rs_allocations s) k = Some a \<Longrightarrow> alloc_keeps (rs_quota s) now a a' \<Longrightarrow> relay_keeps now s (put_allocation s k a')"
  by (auto simp: relay_keeps_def AList.update_conv' intro: alloc_keeps_refl)

lemma live_allocation_keeps:
  assumes "live_allocation s k now = (s', x)"
  shows "relay_keeps now s s'"
proof (cases x)
  case (Inl e)
  with assms show ?thesis using live_allocation_Err [of s k now s' e] by simp
next
  case (Inr a)
  with assms have "live_allocation s k now = (s', Ok a)" by simp
  then obtain a0 where "hm_get (rs_allocations s) k = Some a0" "s' = put_allocation s k (prune_children a0 now)"
    unfolding live_allocation_Ok_iff by blast
  then show ?thesis by (simp add: relay_keeps_put alloc_keeps_prune)
qed

lemma live_allocation_get: "live_allocation s k now = (s', Ok a) \<Longrightarrow> hm_get (rs_allocations s') k = Some a \<and> now < al_expires_at a"
  by (auto simp: live_allocation_Ok_iff AList.update_conv')

lemma put_live_keeps:
  assumes "live_allocation s k now = (s', Ok a)" "alloc_keeps (rs_quota s) now a a'"
  shows "relay_keeps now s (put_allocation s' k a')"
proof -
  have "rs_quota s' = rs_quota s" using assms(1) by (auto simp: live_allocation_Ok_iff)
  then show ?thesis
    using relay_keeps_trans [OF live_allocation_keeps [OF assms(1)] relay_keeps_put] live_allocation_get [OF assms(1)] assms(2)
    by simp
qed

lemma authorized_Ok_iff:
  "authorized_allocation s r now m = (s', Ok a) \<longleftrightarrow> th_method (tm_header (ar_verified r)) = m
     \<and> ar_state_instance r = rs_state_instance s \<and> live_allocation s (ar_tuple r) now = (s', Ok a)
     \<and> al_incarnation a = ar_allocation_incarnation r \<and> al_credential_generation a = ar_credential_generation r"
  by (cases "live_allocation s (ar_tuple r) now"; cases "snd (live_allocation s (ar_tuple r) now)")
    (auto simp: authorized_allocation_def)

lemma authorized_again:
  assumes "authorized_allocation s r now m = (s', Ok a)"
  shows "authorized_allocation s' r now m = (s', Ok a)"
proof -
  from assms have live: "live_allocation s (ar_tuple r) now = (s', Ok a)" by (simp add: authorized_Ok_iff)
  have "rs_state_instance s' = rs_state_instance s"
    using live_allocation_keeps [OF live] by (simp add: relay_keeps_def)
  with assms live_allocation_again [OF live] show ?thesis by (simp add: authorized_Ok_iff)
qed

lemma authorized_keeps: "authorized_allocation s r now m = (s', x) \<Longrightarrow> relay_keeps now s s'"
  using live_allocation_keeps [of s "ar_tuple r" now]
  by (cases "live_allocation s (ar_tuple r) now"; cases "snd (live_allocation s (ar_tuple r) now)")
    (auto simp: authorized_allocation_def split: if_splits)

lemma authenticate_inner_Ok:
  assumes "authenticate_request_inner hmac s k bs now stale = (s', Ok r)"
  obtains a where "live_allocation s k now = (s', Ok a)"
    "verify_integrity hmac bs (ac_integrity_key (al_credentials a)) = Ok (ar_verified r)"
    "ar_tuple r = k" "ar_state_instance r = rs_state_instance s" "ar_allocation_incarnation r = al_incarnation a"
proof -
  from assms obtain s1 a where live: "live_allocation s k now = (s1, Ok a)"
    by (cases "live_allocation s k now"; cases "snd (live_allocation s k now)")
      (auto simp: authenticate_request_inner_def)
  have inst: "rs_state_instance s1 = rs_state_instance s" using live by (auto simp: live_allocation_Ok_iff)
  from assms inst that live show thesis
    by (auto simp: authenticate_request_inner_def live_allocation_again [OF live] split: sum.splits if_splits)
qed

lemma authenticate_inner_keeps: "authenticate_request_inner hmac s k bs now stale = (s', x) \<Longrightarrow> relay_keeps now s s'"
proof (cases "snd (live_allocation s k now)")
  case (Inl e)
  moreover assume "authenticate_request_inner hmac s k bs now stale = (s', x)"
  ultimately show ?thesis
    using live_allocation_keeps [of s k now] by (cases "live_allocation s k now") (auto simp: authenticate_request_inner_def)
next
  case (Inr a)
  assume auth: "authenticate_request_inner hmac s k bs now stale = (s', x)"
  obtain s1 where live: "live_allocation s k now = (s1, Ok a)" using Inr by (cases "live_allocation s k now") auto
  have "s' = s1"
    using auth by (auto simp: authenticate_request_inner_def live live_allocation_again [OF live] split: sum.splits if_splits)
  then show ?thesis using live_allocation_keeps [OF live] by simp
qed

lemma keeps_then:
  assumes "relay_keeps now s (fst r)" "\<And>s1 v. r = (s1, Ok v) \<Longrightarrow> relay_keeps now s1 (fst (f s1 v))"
  shows "relay_keeps now s (fst (st_then r f))"
  using assms relay_keeps_trans by (cases r; cases "snd r") auto

lemma fst_keeps:
  "relay_keeps now s (fst (live_allocation s k now))"
  "relay_keeps now s (fst (authorized_allocation s r now m))"
  "relay_keeps now s (fst (authenticate_request_inner hmac s k bs now stale))"
  using live_allocation_keeps authorized_keeps authenticate_inner_keeps by (metis prod.collapse)+

lemma challenge_keeps: "relay_keeps now s (fst (get_stale_nonce_challenge hmac s k bs now))"
  unfolding get_stale_nonce_challenge_def
  by (intro keeps_then fst_keeps) (auto split: sum.split intro!: keeps_then fst_keeps)

lemma rotate_keeps: "relay_keeps now s (fst (rotate_nonce s r nonce now))"
proof -
  have "relay_keeps now s1 (put_allocation s1 (ar_tuple r) (a\<lparr>al_credentials := (al_credentials a)\<lparr>ac_nonce := nonce\<rparr>,
      al_credential_generation := g\<rparr>))" if "authorized_allocation s r now m = (s1, Ok a)" for s1 a g m
    using live_allocation_get that
    by (intro relay_keeps_put [of s1 "ar_tuple r" a])
      (auto simp: authorized_Ok_iff alloc_keeps_def same_user_def fun_eq_iff traffic_ok_def)
  then show ?thesis
    unfolding rotate_nonce_def by (auto split: sum.split option.split intro!: keeps_then fst_keeps)
qed

lemma relay_keeps_remove:
  "relay_keeps now s (s\<lparr>rs_allocations := hm_remove k (rs_allocations s)\<rparr>)"
  by (auto simp: relay_keeps_def AList.delete_conv' intro: alloc_keeps_refl)

lemma refresh_keeps: "relay_keeps now s (fst (relay_refresh s r now))"
proof -
  have "relay_keeps now s1 (put_allocation s1 (ar_tuple r) (a\<lparr>al_expires_at := e\<rparr>))"
    if "authorized_allocation s0 r now m = (s1, Ok a)" for s0 s1 a e m
    using live_allocation_get that
    by (intro relay_keeps_put [of s1 "ar_tuple r" a]) (auto simp: authorized_Ok_iff alloc_keeps_def traffic_ok_def)
  then show ?thesis
    unfolding relay_refresh_def
    by (auto split: sum.split option.split intro!: keeps_then fst_keeps relay_keeps_remove)
qed

lemma account_Ok:
  assumes "require_permission_and_account s k peer n now = (s', Ok ())"
  obtains s1 a packets bytes' where "live_allocation s k now = (s1, Ok a)"
    "hm_contains (al_permissions a) (socket_ip peer)" "packets \<le> rq_max_packets (rs_quota s)"
    "checked_add (tc_packets (al_counters a)) 1 = Some packets"
    "checked_add (tc_payload_bytes (al_counters a)) n = Some bytes'" "bytes' \<le> rq_max_payload_bytes (rs_quota s)"
    "s' = put_allocation s1 k (a\<lparr>al_counters := \<lparr>tc_packets = packets, tc_payload_bytes = bytes'\<rparr>\<rparr>)"
proof -
  from assms obtain s1 a where live: "live_allocation s k now = (s1, Ok a)"
    by (cases "live_allocation s k now"; cases "snd (live_allocation s k now)")
      (auto simp: require_permission_and_account_def)
  have "rs_quota s1 = rs_quota s" using live_allocation_keeps [OF live] by (simp add: relay_keeps_def)
  with assms live that show thesis
    by (auto simp: require_permission_and_account_def not_less split: if_splits option.splits)
qed

lemma account_keeps: "relay_keeps now s (fst (require_permission_and_account s k peer n now))"
proof (cases "snd (require_permission_and_account s k peer n now)")
  case (Inl e)
  then show ?thesis
    unfolding require_permission_and_account_def
    by (intro keeps_then fst_keeps) (auto split: if_splits option.splits)
next
  case (Inr u)
  then obtain s' where ok: "require_permission_and_account s k peer n now = (s', Ok ())"
    by (cases "require_permission_and_account s k peer n now") auto
  show ?thesis
  proof (rule account_Ok [OF ok])
    fix s1 a packets bytes'
    assume *: "live_allocation s k now = (s1, Ok a)" "packets \<le> rq_max_packets (rs_quota s)"
      "bytes' \<le> rq_max_payload_bytes (rs_quota s)"
      "s' = put_allocation s1 k (a\<lparr>al_counters := \<lparr>tc_packets = packets, tc_payload_bytes = bytes'\<rparr>\<rparr>)"
    show ?thesis
      unfolding ok fst_conv *(4) using * by (intro put_live_keeps) (auto simp: alloc_keeps_def traffic_ok_def)
  qed
qed

lemma authorize_send_keeps: "relay_keeps now s (fst (authorize_send s k peer n now))"
  unfolding authorize_send_def by (auto split: sum.split intro!: keeps_then fst_keeps account_keeps)

lemma authorize_channel_data_keeps: "relay_keeps now s (fst (authorize_channel_data s k c n now))"
  unfolding authorize_channel_data_def by (auto split: option.split intro!: keeps_then fst_keeps account_keeps)

lemma route_peer_datagram_keeps: "relay_keeps now s (fst (route_peer_datagram s k peer n now))"
  unfolding route_peer_datagram_def by (auto split: sum.split intro!: keeps_then fst_keeps account_keeps)

lemma cleanup_keeps: "hm_ok (rs_allocations s) \<Longrightarrow> relay_keeps now s (relay_cleanup s now)"
  by (auto simp: relay_keeps_def relay_cleanup_def map_of_filter_mem intro: alloc_keeps_refl)

abbreviation fresh_allocation :: "allocation_credentials \<Rightarrow> u64 \<Rightarrow> socket_addr \<Rightarrow> u64 \<Rightarrow> allocation" where
  "fresh_allocation credentials inc relayed expires_at \<equiv>
     \<lparr>al_credentials = credentials, al_incarnation = inc, al_credential_generation = 1,
      al_relayed_address = relayed, al_expires_at = expires_at, al_permissions = [], al_channels = [],
      al_expired_bindings = [], al_counters = \<lparr>tc_packets = 0, tc_payload_bytes = 0\<rparr>\<rparr>"

lemma create_allocation_Ok:
  assumes "create_allocation s k credentials relayed now life = (s', Ok info)"
  obtains c inc e where "c = relay_cleanup s now" "\<not> hm_contains (rs_allocations c) k"
    "\<not> list_ex (\<lambda>(_, a). al_relayed_address a = relayed) (rs_allocations c)"
    "length (rs_allocations c) < rq_max_allocations (rs_quota c)"
    "length (filter (\<lambda>(_, a). same_user (al_credentials a) credentials) (rs_allocations c))
       < rq_max_allocations_per_user (rs_quota c)"
    "checked_add (rs_next_incarnation c) 1 = Some inc"
    "s' = put_allocation (c\<lparr>rs_next_incarnation := inc\<rparr>) k (fresh_allocation credentials inc relayed e)"
proof -
  define c where "c = relay_cleanup s now"
  note def = create_allocation_def [of s k credentials relayed now life, folded c_def, unfolded Let_def, folded c_def]
  from assms obtain u where u: "and_then (validate_tuple k) (\<lambda>_. validate_relay (rs_policy s) k relayed) = Inr u"
    by (cases "and_then (validate_tuple k) (\<lambda>_. validate_relay (rs_policy s) k relayed)") (auto simp: def)
  note def' = def [unfolded u sum.case]
  have g: "\<not> hm_contains (rs_allocations c) k"
    "\<not> list_ex (\<lambda>(_, a). al_relayed_address a = relayed) (rs_allocations c)"
    "length (rs_allocations c) < rq_max_allocations (rs_quota c)"
    "length (filter (\<lambda>(_, a). same_user (al_credentials a) credentials) (rs_allocations c))
       < rq_max_allocations_per_user (rs_quota c)"
    by (rule ccontr, use assms in \<open>simp add: def' not_less split: if_splits\<close>)+
  note def'' = def' [unfolded if_not_P [OF g(1)] if_not_P [OF g(2)] if_not_P [OF g(3) [folded not_le]] if_not_P [OF g(4) [folded not_le]]]
  from assms that [OF c_def g] show thesis
    by (auto simp: def'' split: option.splits)
qed

lemma create_allocation_Err:
  "create_allocation s k credentials relayed now life = (s', Err e) \<Longrightarrow> s' = s \<or> s' = relay_cleanup s now"
  by (cases "and_then (validate_tuple k) (\<lambda>_. validate_relay (rs_policy s) k relayed)")
    (auto simp: create_allocation_def Let_def split: if_splits option.splits)

lemma create_permissions_Ok:
  assumes "create_permissions s r now = (s', Ok u)"
  obtains peers s1 a e where "request_peers (ar_verified r) = Ok peers"
    "authorized_allocation s r now MCreatePermission = (s1, Ok a)" "checked_add now PERMISSION_LIFETIME = Some e"
    "length (al_permissions a) + length (filter (\<lambda>ip. \<not> hm_contains (al_permissions a) ip) (remdups (map socket_ip peers)))
       \<le> rq_max_permissions (rs_quota s1)"
    "s' = put_allocation s1 (ar_tuple r)
       (a\<lparr>al_permissions := fold (\<lambda>ip. hm_insert ip e) (remdups (map socket_ip peers)) (al_permissions a)\<rparr>)"
proof -
  from assms obtain peers where peers: "request_peers (ar_verified r) = Inr peers"
    by (cases "request_peers (ar_verified r)") (auto simp: create_permissions_def)
  note def = create_permissions_def [of s r now, unfolded peers sum.case]
  from assms obtain s1 a where auth: "authorized_allocation s r now MCreatePermission = (s1, Ok a)"
    by (cases "authorized_allocation s r now MCreatePermission"; cases "snd (authorized_allocation s r now MCreatePermission)")
      (auto simp: def split: if_splits)
  from assms that [OF peers auth] show thesis
    by (auto simp: def auth authorized_again [OF auth] Let_def split: if_splits sum.splits option.splits)
qed

lemma create_permissions_Err:
  assumes "create_permissions s r now = (s', Err e)"
  shows "relay_keeps now s s'"
proof (cases "snd (authorized_allocation s r now MCreatePermission)")
  case (Inl e')
  then have "s' = s \<or> s' = fst (authorized_allocation s r now MCreatePermission)"
    using assms by (cases "authorized_allocation s r now MCreatePermission")
      (auto simp: create_permissions_def split: sum.splits if_splits)
  then show ?thesis using fst_keeps(2) by auto
next
  case (Inr a)
  then obtain s1 where auth: "authorized_allocation s r now MCreatePermission = (s1, Ok a)"
    by (cases "authorized_allocation s r now MCreatePermission") auto
  have "s' = s \<or> s' = s1"
    using assms by (auto simp: create_permissions_def auth authorized_again [OF auth] Let_def
        split: if_splits sum.splits option.splits)
  then show ?thesis using authorized_keeps [OF auth] by auto
qed

lemma bind_channel_Ok:
  assumes "bind_channel s r now = (s', Ok u)"
  obtains c peer s1 a pe ce qe where "request_channel (ar_verified r) = Ok (c, peer)"
    "authorized_allocation s r now MChannelBind = (s1, Ok a)" "checked_add now PERMISSION_LIFETIME = Some pe"
    "checked_add now CHANNEL_LIFETIME = Some ce" "checked_add ce QUARANTINE_LIFETIME = Some qe"
    "\<not> quarantined a now c peer" "\<not> channel_collides a c peer"
    "hm_contains (al_channels a) c \<or> length (al_channels a) < rq_max_channels (rs_quota s1)"
    "hm_contains (al_permissions a) (socket_ip peer) \<or> length (al_permissions a) < rq_max_permissions (rs_quota s1)"
    "s' = put_allocation s1 (ar_tuple r) (a\<lparr>al_permissions := hm_insert (socket_ip peer) pe (al_permissions a),
       al_channels := hm_insert c \<lparr>cb_peer = peer, cb_expires_at = ce, cb_quarantine_until = qe\<rparr> (al_channels a)\<rparr>)"
proof -
  from assms obtain c peer where chan: "request_channel (ar_verified r) = Inr (c, peer)"
    by (cases "request_channel (ar_verified r)") (auto simp: bind_channel_def)
  note def = bind_channel_def [of s r now, unfolded chan sum.case prod.case]
  from assms obtain s1 a where auth: "authorized_allocation s r now MChannelBind = (s1, Ok a)"
    by (cases "authorized_allocation s r now MChannelBind"; cases "snd (authorized_allocation s r now MChannelBind)")
      (auto simp: def split: if_splits)
  from assms that [OF chan auth] show thesis
    by (auto simp: def auth authorized_again [OF auth] not_le split: if_splits sum.splits option.splits)
qed

lemma bind_channel_Err:
  assumes "bind_channel s r now = (s', Err e)"
  shows "relay_keeps now s s'"
proof (cases "snd (authorized_allocation s r now MChannelBind)")
  case (Inl e')
  then have "s' = s \<or> s' = fst (authorized_allocation s r now MChannelBind)"
    using assms by (cases "authorized_allocation s r now MChannelBind")
      (auto simp: bind_channel_def split: sum.splits if_splits)
  then show ?thesis using fst_keeps(2) by auto
next
  case (Inr a)
  then obtain s1 where auth: "authorized_allocation s r now MChannelBind = (s1, Ok a)"
    by (cases "authorized_allocation s r now MChannelBind") auto
  have "s' = s \<or> s' = s1"
    using assms by (auto simp: bind_channel_def auth authorized_again [OF auth]
        split: if_splits sum.splits option.splits)
  then show ?thesis using authorized_keeps [OF auth] by auto
qed

section \<open>Quotas\<close>

definition channels_unique :: "(u16, channel_binding) hash_map \<Rightarrow> bool" where
  "channels_unique m \<longleftrightarrow> (\<forall>c b c' b'. (c, b) \<in> set m \<longrightarrow> (c', b') \<in> set m \<longrightarrow> cb_peer b = cb_peer b' \<longrightarrow> c = c')"

definition alloc_ok :: "relay_quota \<Rightarrow> allocation \<Rightarrow> bool" where
  "alloc_ok q a \<longleftrightarrow> hm_ok (al_permissions a) \<and> length (al_permissions a) \<le> rq_max_permissions q
     \<and> hm_ok (al_channels a) \<and> length (al_channels a) \<le> rq_max_channels q \<and> channels_unique (al_channels a)
     \<and> traffic_ok q a"

definition user_allocations :: "relay_state \<Rightarrow> allocation_credentials \<Rightarrow> (udp_tuple, allocation) hash_map" where
  "user_allocations s c = filter (\<lambda>(_, a). same_user (al_credentials a) c) (rs_allocations s)"

definition relay_inv :: "relay_state \<Rightarrow> bool" where
  "relay_inv s \<longleftrightarrow> hm_ok (rs_allocations s) \<and> length (rs_allocations s) \<le> rq_max_allocations (rs_quota s)
     \<and> (\<forall>c. length (user_allocations s c) \<le> rq_max_allocations_per_user (rs_quota s))
     \<and> (\<forall>k a. hm_get (rs_allocations s) k = Some a \<longrightarrow> alloc_ok (rs_quota s) a \<and> al_incarnation a \<le> rs_next_incarnation s)
     \<and> (\<forall>k k' a a'. hm_get (rs_allocations s) k = Some a \<longrightarrow> hm_get (rs_allocations s) k' = Some a' \<longrightarrow>
          al_relayed_address a = al_relayed_address a' \<longrightarrow> k = k')"

lemma hm_length_keys:
  assumes "hm_ok m'" "fst ` set m' \<subseteq> fst ` set m"
  shows "length m' \<le> length m"
proof -
  have "length m' = card (fst ` set m')"
    using assms(1) distinct_card [of "map fst m'"] by (simp add: hm_ok_def)
  also have "\<dots> \<le> card (fst ` set m)" using assms(2) by (rule card_mono [rotated]) simp
  also have "\<dots> \<le> length m" using card_image_le [of "set m" fst] card_length [of m] by simp
  finally show ?thesis .
qed

lemma hm_length_subset: "hm_ok m' \<Longrightarrow> set m' \<subseteq> set m \<Longrightarrow> length m' \<le> length m"
  by (rule hm_length_keys) auto

lemma channels_unique_subset: "channels_unique m \<Longrightarrow> set m' \<subseteq> set m \<Longrightarrow> channels_unique m'"
  unfolding channels_unique_def by blast

lemma alloc_ok_keeps: "alloc_ok q a \<Longrightarrow> alloc_keeps q now a a' \<Longrightarrow> alloc_ok q a'"
  using hm_length_subset [of "al_permissions a'" "al_permissions a"] hm_length_subset [of "al_channels a'" "al_channels a"]
  unfolding alloc_ok_def alloc_keeps_def by (auto intro: order_trans channels_unique_subset)

lemma user_allocations_keeps:
  assumes "relay_keeps now s s'" "hm_ok (rs_allocations s)"
  shows "length (user_allocations s' c) \<le> length (user_allocations s c)"
proof -
  have ok: "hm_ok (rs_allocations s')" using assms by (simp add: relay_keeps_def)
  have "k \<in> fst ` set (user_allocations s c)" if "(k, a') \<in> set (user_allocations s' c)" for k a'
  proof -
    from that ok have get: "hm_get (rs_allocations s') k = Some a'" and user: "same_user (al_credentials a') c"
      by (auto simp: user_allocations_def hm_get_iff)
    from assms(1) get obtain a where "hm_get (rs_allocations s) k = Some a" "alloc_keeps (rs_quota s) now a a'"
      by (rule relay_keepsD)
    with user have "(k, a) \<in> set (user_allocations s c)"
      using hm_get_mem [of "rs_allocations s" k a] by (simp add: user_allocations_def alloc_keeps_def)
    then show ?thesis by (rule rev_image_eqI) simp
  qed
  with ok show ?thesis by (intro hm_length_keys) (auto simp: user_allocations_def)
qed

lemma relay_inv_keeps:
  assumes "relay_inv s" "relay_keeps now s s'"
  shows "relay_inv s'"
proof -
  have ok: "hm_ok (rs_allocations s)" "hm_ok (rs_allocations s')" using assms by (simp_all add: relay_inv_def relay_keeps_def)
  have const: "rs_quota s' = rs_quota s" "rs_next_incarnation s' = rs_next_incarnation s"
    using assms(2) by (simp_all add: relay_keeps_def)
  have "fst ` set (rs_allocations s') \<subseteq> fst ` set (rs_allocations s)"
  proof (clarsimp simp: hm_contains_iff)
    fix k a'
    assume "(k, a') \<in> set (rs_allocations s')"
    then have "hm_get (rs_allocations s') k = Some a'" using ok(2) by (simp add: hm_get_iff)
    then show "\<exists>a. hm_get (rs_allocations s) k = Some a" by (rule relay_keepsD [OF assms(2)]) blast
  qed
  then have len: "length (rs_allocations s') \<le> length (rs_allocations s)" by (rule hm_length_keys [OF ok(2)])
  have al: "alloc_ok (rs_quota s) a' \<and> al_incarnation a' \<le> rs_next_incarnation s"
    if get: "hm_get (rs_allocations s') k = Some a'" for k a'
  proof (rule relay_keepsD [OF assms(2) get])
    fix a
    assume "hm_get (rs_allocations s) k = Some a" and keeps: "alloc_keeps (rs_quota s) now a a'"
    then have "alloc_ok (rs_quota s) a" "al_incarnation a \<le> rs_next_incarnation s"
      using assms(1) by (simp_all add: relay_inv_def)
    with keeps alloc_ok_keeps show ?thesis by (simp add: alloc_keeps_def)
  qed
  have uniq: "k = k'" if get: "hm_get (rs_allocations s') k = Some a" "hm_get (rs_allocations s') k' = Some a'"
    and same: "al_relayed_address a = al_relayed_address a'" for k k' a a'
  proof (rule relay_keepsD [OF assms(2) get(1)], rule relay_keepsD [OF assms(2) get(2)])
    fix b b'
    assume *: "hm_get (rs_allocations s) k = Some b" "alloc_keeps (rs_quota s) now b a"
      "hm_get (rs_allocations s) k' = Some b'" "alloc_keeps (rs_quota s) now b' a'"
    then have "al_relayed_address b = al_relayed_address b'" using same by (simp add: alloc_keeps_def)
    with assms(1) * show ?thesis unfolding relay_inv_def by blast
  qed
  show ?thesis
    unfolding relay_inv_def const
    using assms(1) ok(2) len al uniq order_trans [OF user_allocations_keeps [OF assms(2) ok(1)]]
    by (auto simp: relay_inv_def intro: order_trans)
qed

lemma relay_inv_cleanup: "relay_inv s \<Longrightarrow> relay_inv (relay_cleanup s now)"
  by (rule relay_inv_keeps [OF _ cleanup_keeps]) (simp_all add: relay_inv_def)

lemma relay_inv_create:
  assumes "relay_inv s"
  shows "relay_inv (fst (create_allocation s k credentials relayed now life))"
proof (cases "snd (create_allocation s k credentials relayed now life)")
  case (Inl e)
  then show ?thesis
    using create_allocation_Err [of s k credentials relayed now life] assms relay_inv_cleanup
    by (metis prod.collapse)
next
  case (Inr info)
  then obtain s' where ok: "create_allocation s k credentials relayed now life = (s', Ok info)"
    by (cases "create_allocation s k credentials relayed now life") auto
  show ?thesis
  proof (rule create_allocation_Ok [OF ok])
    fix c inc e
    let ?a = "fresh_allocation credentials inc relayed e"
    assume c: "c = relay_cleanup s now" and new: "\<not> hm_contains (rs_allocations c) k"
      and relay: "\<not> list_ex (\<lambda>(_, a). al_relayed_address a = relayed) (rs_allocations c)"
      and len: "length (rs_allocations c) < rq_max_allocations (rs_quota c)"
        "length (filter (\<lambda>(_, a). same_user (al_credentials a) credentials) (rs_allocations c))
           < rq_max_allocations_per_user (rs_quota c)"
      and inc: "checked_add (rs_next_incarnation c) 1 = Some inc"
      and s': "s' = put_allocation (c\<lparr>rs_next_incarnation := inc\<rparr>) k ?a"
    have inv: "relay_inv c" using assms by (simp add: c relay_inv_cleanup)
    have le: "rs_next_incarnation c \<le> inc" using inc by (rule checked_add_le)
    have user: "length (user_allocations s' d) \<le> rq_max_allocations_per_user (rs_quota c)" for d
    proof (cases "same_user credentials d")
      case True
      then have "same_user x d \<longleftrightarrow> same_user x credentials" for x by (auto simp: same_user_def)
      then show ?thesis
        using True len(2) new hm_length_filter_insert [of k "rs_allocations c" "\<lambda>(_, a). same_user (al_credentials a) d" ?a]
        by (simp add: s' user_allocations_def)
    next
      case False
      then show ?thesis
        using inv new hm_length_filter_insert [of k "rs_allocations c" "\<lambda>(_, a). same_user (al_credentials a) d" ?a]
        by (simp add: s' user_allocations_def relay_inv_def)
    qed
    have get: "hm_get (rs_allocations s') k' = (if k' = k then Some ?a else hm_get (rs_allocations c) k')" for k'
      by (simp add: s' AList.update_conv')
    have other: "al_relayed_address a \<noteq> relayed" if "hm_get (rs_allocations c) k' = Some a" for k' a
      using relay hm_get_mem [OF that] by (auto simp: list_ex_iff)
    have fresh: "alloc_ok (rs_quota c) ?a" by (simp add: alloc_ok_def channels_unique_def traffic_ok_def)
    have "alloc_ok (rs_quota c) a \<and> al_incarnation a \<le> inc" if "hm_get (rs_allocations s') k' = Some a" for k' a
      using that inv fresh le order_trans [of "al_incarnation a" "rs_next_incarnation c" inc]
      unfolding relay_inv_def by (auto simp: get split: if_splits)
    moreover have "k1 = k2" if "hm_get (rs_allocations s') k1 = Some a1" "hm_get (rs_allocations s') k2 = Some a2"
      "al_relayed_address a1 = al_relayed_address a2" for k1 k2 a1 a2
      using that inv other [of k1 a1] other [of k2 a2] unfolding relay_inv_def by (auto simp: get split: if_splits)
    ultimately show ?thesis
      using inv user len(1) hm_length_insert_new [OF new, of ?a] unfolding ok fst_conv relay_inv_def
      by (auto simp: s')
  qed
qed

lemma relay_inv_put:
  assumes "relay_inv s" "hm_get (rs_allocations s) k = Some a" "alloc_ok (rs_quota s) a'"
    "al_incarnation a' = al_incarnation a" "al_relayed_address a' = al_relayed_address a" "al_credentials a' = al_credentials a"
  shows "relay_inv (put_allocation s k a')"
proof -
  let ?s = "put_allocation s k a'"
  have k: "hm_contains (rs_allocations s) k" using assms(2) by (simp add: hm_contains_iff)
  have get: "hm_get (rs_allocations ?s) k' = (if k' = k then Some a' else hm_get (rs_allocations s) k')" for k'
    by (simp add: AList.update_conv')
  have ok: "hm_ok (rs_allocations s)" "hm_ok (rs_allocations ?s)" using assms(1) by (simp_all add: relay_inv_def)
  have "length (user_allocations ?s c) \<le> length (user_allocations s c)" for c
  proof (rule hm_length_keys)
    show "hm_ok (user_allocations ?s c)" using ok(2) by (simp add: user_allocations_def)
    have "\<exists>b'. (k', b') \<in> set (user_allocations s c)" if "(k', b) \<in> set (user_allocations ?s c)" for k' b
    proof -
      from that have b: "hm_get (rs_allocations ?s) k' = Some b" "same_user (al_credentials b) c"
        using hm_get_iff [OF ok(2), of k' b] by (simp_all add: user_allocations_def)
      then obtain b' where "hm_get (rs_allocations s) k' = Some b'" "same_user (al_credentials b') c"
        using assms(2,6) unfolding get by (cases "k' = k") auto
      then show ?thesis using hm_get_mem [of "rs_allocations s" k' b'] by (auto simp: user_allocations_def)
    qed
    then show "fst ` set (user_allocations ?s c) \<subseteq> fst ` set (user_allocations s c)" by (force simp: image_iff)
  qed
  then have user: "length (user_allocations ?s c) \<le> rq_max_allocations_per_user (rs_quota s)" for c
    using assms(1) order_trans unfolding relay_inv_def by blast
  have "alloc_ok (rs_quota s) b \<and> al_incarnation b \<le> rs_next_incarnation s" if "hm_get (rs_allocations ?s) k' = Some b" for k' b
    using that [unfolded get] assms unfolding relay_inv_def by (auto split: if_splits)
  moreover have "k1 = k2" if "hm_get (rs_allocations ?s) k1 = Some a1" "hm_get (rs_allocations ?s) k2 = Some a2"
    "al_relayed_address a1 = al_relayed_address a2" for k1 k2 a1 a2
    using that [unfolded get] assms(1,2,5) unfolding relay_inv_def by (auto split: if_splits)
  ultimately show ?thesis
    using assms(1) ok user hm_length_insert_old [OF k, of a'] unfolding relay_inv_def by auto
qed

lemma fold_insert_length:
  "distinct ips \<Longrightarrow> length (fold (\<lambda>ip. hm_insert ip e) ips m) = length m + length (filter (\<lambda>ip. \<not> hm_contains m ip) ips)"
proof (induction ips arbitrary: m)
  case (Cons ip ips)
  have "filter (\<lambda>x. \<not> hm_contains (hm_insert ip e m) x) ips = filter (\<lambda>x. \<not> hm_contains m x) ips"
    using Cons.prems by (intro filter_cong) auto
  with Cons show ?case
    by (cases "hm_contains m ip") (simp_all add: hm_length_insert_new hm_length_insert_old del: hm_keys_insert)
qed simp

lemma fold_insert_ok: "hm_ok m \<Longrightarrow> hm_ok (fold (\<lambda>ip. hm_insert ip e) ips m)"
  by (induction ips arbitrary: m) simp_all

lemma fold_insert_mem: "x \<in> set (fold (\<lambda>ip. hm_insert ip e) ips m) \<Longrightarrow> x \<in> set m \<or> fst x \<in> set ips \<and> snd x = e"
proof (induction ips arbitrary: m)
  case (Cons ip ips)
  from Cons.IH [of "hm_insert ip e m"] Cons.prems show ?case by (auto dest: hm_mem_insert)
qed simp

lemma authorized_inv:
  assumes "relay_inv s" "authorized_allocation s r now m = (s1, Ok a)"
  shows "relay_inv s1" "hm_get (rs_allocations s1) (ar_tuple r) = Some a" "alloc_ok (rs_quota s1) a"
proof -
  show inv: "relay_inv s1" using assms(1) authorized_keeps [OF assms(2)] by (rule relay_inv_keeps)
  show get: "hm_get (rs_allocations s1) (ar_tuple r) = Some a"
    using assms(2) live_allocation_get by (auto simp: authorized_Ok_iff)
  show "alloc_ok (rs_quota s1) a" using inv get by (simp add: relay_inv_def)
qed

lemma relay_inv_permit:
  assumes "relay_inv s"
  shows "relay_inv (fst (create_permissions s r now))"
proof (cases "snd (create_permissions s r now)")
  case (Inl e)
  then show ?thesis
    using create_permissions_Err [of s r now] assms relay_inv_keeps by (cases "create_permissions s r now") auto
next
  case (Inr u)
  then obtain s' where ok: "create_permissions s r now = (s', Ok u)" by (cases "create_permissions s r now") auto
  show ?thesis
  proof (rule create_permissions_Ok [OF ok])
    fix peers s1 a e
    let ?ips = "remdups (map socket_ip peers)"
    assume auth: "authorized_allocation s r now MCreatePermission = (s1, Ok a)"
      and len: "length (al_permissions a) + length (filter (\<lambda>ip. \<not> hm_contains (al_permissions a) ip) ?ips)
        \<le> rq_max_permissions (rs_quota s1)"
      and s': "s' = put_allocation s1 (ar_tuple r) (a\<lparr>al_permissions := fold (\<lambda>ip. hm_insert ip e) ?ips (al_permissions a)\<rparr>)"
    note a = authorized_inv [OF assms auth]
    have "alloc_ok (rs_quota s1) (a\<lparr>al_permissions := fold (\<lambda>ip. hm_insert ip e) ?ips (al_permissions a)\<rparr>)"
      using a(3) len fold_insert_length [of ?ips e "al_permissions a"]
        fold_insert_ok [of "al_permissions a" e ?ips]
      by (simp add: alloc_ok_def traffic_ok_def)
    then show ?thesis
      unfolding ok fst_conv s' by (intro relay_inv_put [OF a(1,2)]) simp_all
  qed
qed

lemma channels_unique_insert:
  assumes "channels_unique m" "hm_ok m" "\<not> list_ex (\<lambda>(c', b'). c' \<noteq> c \<and> cb_peer b' = cb_peer b) m"
  shows "channels_unique (hm_insert c b m)"
  using assms unfolding channels_unique_def list_ex_iff by (fastforce dest!: hm_mem_insert)

lemma hm_length_insert_bound:
  "hm_contains m k \<or> length m < n \<Longrightarrow> length m \<le> n \<Longrightarrow> length (hm_insert k v m) \<le> n"
  using hm_length_insert_le [of k v m] hm_length_insert_old [of k m v] by linarith

lemma relay_inv_bind:
  assumes "relay_inv s"
  shows "relay_inv (fst (bind_channel s r now))"
proof (cases "snd (bind_channel s r now)")
  case (Inl e)
  then show ?thesis
    using bind_channel_Err [of s r now] assms relay_inv_keeps by (cases "bind_channel s r now") auto
next
  case (Inr u)
  then obtain s' where ok: "bind_channel s r now = (s', Ok u)" by (cases "bind_channel s r now") auto
  show ?thesis
  proof (rule bind_channel_Ok [OF ok])
    fix c peer s1 pe ce qe and a :: allocation
    let ?b = "\<lparr>cb_peer = peer, cb_expires_at = ce, cb_quarantine_until = qe\<rparr>"
    let ?a = "a\<lparr>al_permissions := hm_insert (socket_ip peer) pe (al_permissions a),
       al_channels := hm_insert c ?b (al_channels a)\<rparr>"
    assume auth: "authorized_allocation s r now MChannelBind = (s1, Ok a)" and col: "\<not> channel_collides a c peer"
      and len: "hm_contains (al_channels a) c \<or> length (al_channels a) < rq_max_channels (rs_quota s1)"
        "hm_contains (al_permissions a) (socket_ip peer) \<or> length (al_permissions a) < rq_max_permissions (rs_quota s1)"
      and s': "s' = put_allocation s1 (ar_tuple r) ?a"
    note a = authorized_inv [OF assms auth]
    have "channels_unique (hm_insert c ?b (al_channels a))"
      using a(3) col by (intro channels_unique_insert) (auto simp: alloc_ok_def channel_collides_def)
    moreover have "length (hm_insert c ?b (al_channels a)) \<le> rq_max_channels (rs_quota s1)"
      "length (hm_insert (socket_ip peer) pe (al_permissions a)) \<le> rq_max_permissions (rs_quota s1)"
      using a(3) by (auto simp only: alloc_ok_def intro: hm_length_insert_bound [OF len(1)] hm_length_insert_bound [OF len(2)])
    ultimately have "alloc_ok (rs_quota s1) ?a"
      using a(3) by (simp add: alloc_ok_def traffic_ok_def)
    then show ?thesis
      unfolding ok fst_conv s' by (intro relay_inv_put [OF a(1,2)]) simp_all
  qed
qed

section \<open>Histories\<close>

text \<open>
  A relay and the sealed requests it has handed out. A command that takes a request is carried out
  only with one of these: the type has no other constructor outside its module.
\<close>

type_synonym relay_world = "relay_state \<times> authenticated_request list"

datatype relay_cmd =
  CreateCmd udp_tuple allocation_credentials socket_addr u64 "u64 option"
| AuthenticateCmd udp_tuple bytes u64
| ChallengeCmd udp_tuple bytes u64
| RotateCmd authenticated_request bytes u64
| RefreshCmd authenticated_request u64
| PermitCmd authenticated_request u64
| BindCmd authenticated_request u64
| SendCmd udp_tuple socket_addr u64 u64
| ChannelCmd udp_tuple u16 u64 u64
| PeerCmd udp_tuple socket_addr u64 u64
| InfoCmd udp_tuple u64
| CountersCmd udp_tuple u64
| CleanupCmd u64

datatype relay_reply =
  CreateReply "state_error + allocation_info"
| AuthReply "state_error + authenticated_request"
| ChallengeReply "state_error + stale_nonce_challenge"
| RefreshReply "state_error + allocation_info option"
| DoneReply "state_error + unit"
| PeerReply "state_error + socket_addr"
| RouteReply "state_error + delivery_route"
| CountersReply "state_error + traffic_counters"
| NoReply

abbreviation with_request :: "relay_world \<Rightarrow> authenticated_request \<Rightarrow> ('a \<Rightarrow> relay_reply) \<Rightarrow> relay_state \<times> 'a
    \<Rightarrow> relay_world \<times> relay_reply" where
  "with_request w r reply result \<equiv>
     (if r \<in> set (snd w) then ((fst result, snd w), reply (snd result)) else (w, NoReply))"

abbreviation without_request :: "relay_world \<Rightarrow> ('a \<Rightarrow> relay_reply) \<Rightarrow> relay_state \<times> 'a \<Rightarrow> relay_world \<times> relay_reply" where
  "without_request w reply result \<equiv> ((fst result, snd w), reply (snd result))"

fun relay_step :: "(bytes \<Rightarrow> bytes \<Rightarrow> bytes) \<Rightarrow> relay_world \<Rightarrow> relay_cmd \<Rightarrow> relay_world \<times> relay_reply" where
  "relay_step hmac w (CreateCmd k c relayed now life) =
     without_request w CreateReply (create_allocation (fst w) k c relayed now life)"
| "relay_step hmac w (AuthenticateCmd k bs now) =
     (let (s, x) = authenticate_request hmac (fst w) k bs now in
      ((s, case x of Inr r \<Rightarrow> snd w @ [r] | Inl _ \<Rightarrow> snd w), AuthReply x))"
| "relay_step hmac w (ChallengeCmd k bs now) =
     without_request w ChallengeReply (get_stale_nonce_challenge hmac (fst w) k bs now)"
| "relay_step hmac w (RotateCmd r nonce now) = with_request w r DoneReply (rotate_nonce (fst w) r nonce now)"
| "relay_step hmac w (RefreshCmd r now) = with_request w r RefreshReply (relay_refresh (fst w) r now)"
| "relay_step hmac w (PermitCmd r now) = with_request w r DoneReply (create_permissions (fst w) r now)"
| "relay_step hmac w (BindCmd r now) = with_request w r DoneReply (bind_channel (fst w) r now)"
| "relay_step hmac w (SendCmd k peer n now) = without_request w DoneReply (authorize_send (fst w) k peer n now)"
| "relay_step hmac w (ChannelCmd k c n now) = without_request w PeerReply (authorize_channel_data (fst w) k c n now)"
| "relay_step hmac w (PeerCmd k peer n now) = without_request w RouteReply (route_peer_datagram (fst w) k peer n now)"
| "relay_step hmac w (InfoCmd k now) = without_request w CreateReply (get_allocation_info (fst w) k now)"
| "relay_step hmac w (CountersCmd k now) = without_request w CountersReply (relay_counters (fst w) k now)"
| "relay_step hmac w (CleanupCmd now) = ((relay_cleanup (fst w) now, snd w), NoReply)"

lemma info_keeps: "relay_keeps now s (fst (get_allocation_info s k now))"
  unfolding get_allocation_info_def by (intro keeps_then fst_keeps) simp

lemma counters_keeps: "relay_keeps now s (fst (relay_counters s k now))"
  unfolding relay_counters_def by (intro keeps_then fst_keeps) simp

lemma authenticate_keeps: "relay_keeps now s (fst (authenticate_request hmac s k bs now))"
  unfolding authenticate_request_def by (rule fst_keeps)

text \<open>Every command but creating, permitting and binding keeps what was granted.\<close>

fun cmd_time :: "relay_cmd \<Rightarrow> u64" where
  "cmd_time (CreateCmd _ _ _ now _) = now"
| "cmd_time (AuthenticateCmd _ _ now) = now"
| "cmd_time (ChallengeCmd _ _ now) = now"
| "cmd_time (RotateCmd _ _ now) = now"
| "cmd_time (RefreshCmd _ now) = now"
| "cmd_time (PermitCmd _ now) = now"
| "cmd_time (BindCmd _ now) = now"
| "cmd_time (SendCmd _ _ _ now) = now"
| "cmd_time (ChannelCmd _ _ _ now) = now"
| "cmd_time (PeerCmd _ _ _ now) = now"
| "cmd_time (InfoCmd _ now) = now"
| "cmd_time (CountersCmd _ now) = now"
| "cmd_time (CleanupCmd now) = now"

definition granting :: "relay_cmd \<Rightarrow> bool" where
  "granting c = (case c of CreateCmd _ _ _ _ _ \<Rightarrow> True | PermitCmd _ _ \<Rightarrow> True | BindCmd _ _ \<Rightarrow> True | _ \<Rightarrow> False)"

lemmas call_keeps = challenge_keeps rotate_keeps refresh_keeps authorize_send_keeps authorize_channel_data_keeps
  route_peer_datagram_keeps info_keeps counters_keeps authenticate_keeps

lemma relay_step_keeps:
  "relay_inv (fst w) \<Longrightarrow> \<not> granting c \<Longrightarrow> relay_keeps (cmd_time c) (fst w) (fst (fst (relay_step hmac w c)))"
  by (cases c) (auto simp: granting_def call_keeps split_beta relay_inv_def cleanup_keeps)

interpretation relay: machine_invariant "relay_step hmac" "\<lambda>w. relay_inv (fst w)" for hmac
proof
  show "relay_inv (fst (fst (relay_step hmac w c)))" if "relay_inv (fst w)" for w c
  proof (cases "granting c")
    case True
    then show ?thesis
      using that relay_inv_create relay_inv_permit relay_inv_bind by (cases c) (auto simp: granting_def)
  next
    case False
    then show ?thesis using that relay_step_keeps relay_inv_keeps by blast
  qed
qed

section \<open>Who asked for it\<close>

text \<open>
  \<open>created tr k key\<close>: an allocation for the tuple was created with this integrity key.
  \<open>authentic hmac tr r key\<close>: after it, a request that verifies under the key was authenticated and
  sealed as \<open>r\<close>. \<open>ordered hmac tr r key c\<close>: after that, the call \<open>c\<close> succeeded.
\<close>

definition created :: "(relay_cmd \<times> relay_reply) list \<Rightarrow> udp_tuple \<Rightarrow> bytes \<Rightarrow> bool" where
  "created tr k key \<longleftrightarrow> (\<exists>c relayed t life info. ac_integrity_key c = key
     \<and> subseq [(CreateCmd k c relayed t life, CreateReply (Ok info))] tr)"

definition authentic :: "(bytes \<Rightarrow> bytes \<Rightarrow> bytes) \<Rightarrow> (relay_cmd \<times> relay_reply) list \<Rightarrow> authenticated_request \<Rightarrow> bytes \<Rightarrow> bool" where
  "authentic hmac tr r key \<longleftrightarrow> (\<exists>c relayed t life info bs t'. ac_integrity_key c = key
     \<and> verify_integrity hmac bs key = Ok (ar_verified r)
     \<and> subseq [(CreateCmd (ar_tuple r) c relayed t life, CreateReply (Ok info)),
               (AuthenticateCmd (ar_tuple r) bs t', AuthReply (Ok r))] tr)"

definition ordered :: "(bytes \<Rightarrow> bytes \<Rightarrow> bytes) \<Rightarrow> (relay_cmd \<times> relay_reply) list \<Rightarrow> authenticated_request \<Rightarrow> bytes
    \<Rightarrow> relay_cmd \<Rightarrow> bool" where
  "ordered hmac tr r key call \<longleftrightarrow> (\<exists>c relayed t life info bs t'. ac_integrity_key c = key
     \<and> verify_integrity hmac bs key = Ok (ar_verified r)
     \<and> subseq [(CreateCmd (ar_tuple r) c relayed t life, CreateReply (Ok info)),
               (AuthenticateCmd (ar_tuple r) bs t', AuthReply (Ok r)), (call, DoneReply (Ok ()))] tr)"

definition request_ips :: "turn_message \<Rightarrow> ip_addr set" where
  "request_ips m = socket_ip ` set (List.map_filter peer_of (tm_attributes m))"

definition permission_explained :: "(bytes \<Rightarrow> bytes \<Rightarrow> bytes) \<Rightarrow> (relay_cmd \<times> relay_reply) list \<Rightarrow> udp_tuple \<Rightarrow> bytes
    \<Rightarrow> ip_addr \<Rightarrow> u64 \<Rightarrow> bool" where
  "permission_explained hmac tr k key ip e \<longleftrightarrow> (\<exists>r t call. (call = PermitCmd r t \<or> call = BindCmd r t)
     \<and> ar_tuple r = k \<and> ip \<in> request_ips (ar_verified r) \<and> checked_add t PERMISSION_LIFETIME = Some e
     \<and> ordered hmac tr r key call)"

definition channel_explained :: "(bytes \<Rightarrow> bytes \<Rightarrow> bytes) \<Rightarrow> (relay_cmd \<times> relay_reply) list \<Rightarrow> udp_tuple \<Rightarrow> bytes
    \<Rightarrow> u16 \<Rightarrow> channel_binding \<Rightarrow> bool" where
  "channel_explained hmac tr k key c b \<longleftrightarrow> (\<exists>r t. ar_tuple r = k \<and> request_channel (ar_verified r) = Ok (c, cb_peer b)
     \<and> checked_add t CHANNEL_LIFETIME = Some (cb_expires_at b) \<and> ordered hmac tr r key (BindCmd r t))"

definition alloc_explained :: "(bytes \<Rightarrow> bytes \<Rightarrow> bytes) \<Rightarrow> (relay_cmd \<times> relay_reply) list \<Rightarrow> udp_tuple \<Rightarrow> allocation \<Rightarrow> bool" where
  "alloc_explained hmac tr k a \<longleftrightarrow> (let key = ac_integrity_key (al_credentials a) in created tr k key
     \<and> (\<forall>(ip, e) \<in> set (al_permissions a). permission_explained hmac tr k key ip e)
     \<and> (\<forall>(c, b) \<in> set (al_channels a). channel_explained hmac tr k key c b))"

definition request_explained :: "(bytes \<Rightarrow> bytes \<Rightarrow> bytes) \<Rightarrow> (relay_cmd \<times> relay_reply) list \<Rightarrow> relay_state
    \<Rightarrow> authenticated_request \<Rightarrow> bool" where
  "request_explained hmac tr s r \<longleftrightarrow> ar_allocation_incarnation r \<le> rs_next_incarnation s
     \<and> (\<forall>a. hm_get (rs_allocations s) (ar_tuple r) = Some a \<longrightarrow> al_incarnation a = ar_allocation_incarnation r \<longrightarrow>
          authentic hmac tr r (ac_integrity_key (al_credentials a)))"

definition relay_explained :: "(bytes \<Rightarrow> bytes \<Rightarrow> bytes) \<Rightarrow> (relay_cmd \<times> relay_reply) list \<Rightarrow> relay_world \<Rightarrow> bool" where
  "relay_explained hmac tr w \<longleftrightarrow>
     (\<forall>k a. hm_get (rs_allocations (fst w)) k = Some a \<longrightarrow> alloc_explained hmac tr k a)
     \<and> (\<forall>r \<in> set (snd w). request_explained hmac tr (fst w) r)"

lemma created_mono: "created tr k key \<Longrightarrow> created (tr @ [e]) k key"
  unfolding created_def by (blast intro: subseq_snoc_mono)

lemma authentic_mono: "authentic hmac tr r key \<Longrightarrow> authentic hmac (tr @ [e]) r key"
  unfolding authentic_def by (blast intro: subseq_snoc_mono)

lemma ordered_mono: "ordered hmac tr r key c \<Longrightarrow> ordered hmac (tr @ [e]) r key c"
  unfolding ordered_def by (blast intro: subseq_snoc_mono)

lemma permission_explained_mono: "permission_explained hmac tr k key ip x \<Longrightarrow> permission_explained hmac (tr @ [e]) k key ip x"
  unfolding permission_explained_def by (blast intro: ordered_mono)

lemma channel_explained_mono: "channel_explained hmac tr k key c b \<Longrightarrow> channel_explained hmac (tr @ [e]) k key c b"
  unfolding channel_explained_def by (blast intro: ordered_mono)

lemma alloc_explained_keeps:
  assumes "alloc_explained hmac tr k a" "alloc_keeps q now a a'"
  shows "alloc_explained hmac (tr @ [e]) k a'"
  using assms unfolding alloc_explained_def alloc_keeps_def Let_def
  by (fastforce intro: created_mono permission_explained_mono channel_explained_mono)

lemma request_explained_keeps:
  assumes "request_explained hmac tr s r" "relay_keeps now s s'"
  shows "request_explained hmac (tr @ [e]) s' r"
  unfolding request_explained_def
proof (intro conjI allI impI)
  show "ar_allocation_incarnation r \<le> rs_next_incarnation s'"
    using assms by (simp add: request_explained_def relay_keeps_def)
  fix a'
  assume get: "hm_get (rs_allocations s') (ar_tuple r) = Some a'" and inc: "al_incarnation a' = ar_allocation_incarnation r"
  show "authentic hmac (tr @ [e]) r (ac_integrity_key (al_credentials a'))"
  proof (rule relay_keepsD [OF assms(2) get])
    fix a
    assume "hm_get (rs_allocations s) (ar_tuple r) = Some a" "alloc_keeps (rs_quota s) now a a'"
    with assms(1) inc show ?thesis
      by (auto simp: request_explained_def alloc_keeps_def intro: authentic_mono)
  qed
qed

lemma relay_explained_keeps:
  assumes "relay_explained hmac tr (s, rs)" "relay_keeps now s s'"
  shows "relay_explained hmac (tr @ [e]) (s', rs)"
proof -
  have "alloc_explained hmac (tr @ [e]) k a'" if "hm_get (rs_allocations s') k = Some a'" for k a'
  proof (rule relay_keepsD [OF assms(2) that])
    fix a
    assume "hm_get (rs_allocations s) k = Some a" and keeps: "alloc_keeps (rs_quota s) now a a'"
    with assms(1) have "alloc_explained hmac tr k a" by (simp add: relay_explained_def)
    then show ?thesis using keeps by (rule alloc_explained_keeps)
  qed
  then show ?thesis
    using assms request_explained_keeps [OF _ assms(2)] by (simp add: relay_explained_def)
qed

lemma authentic_snoc:
  assumes "created tr (ar_tuple r) key" "verify_integrity hmac bs key = Ok (ar_verified r)"
  shows "authentic hmac (tr @ [(AuthenticateCmd (ar_tuple r) bs t, AuthReply (Ok r))]) r key"
  using assms subseq_snoc [of "[_]" tr] unfolding created_def authentic_def by (metis append_Cons append_Nil)

lemma ordered_snoc:
  assumes "authentic hmac tr r key"
  shows "ordered hmac (tr @ [(call, DoneReply (Ok ()))]) r key call"
  using assms subseq_snoc [of "[_, _]" tr] unfolding ordered_def authentic_def by (metis append_Cons append_Nil)

lemma relay_explained_authenticate:
  assumes inv: "relay_inv s" and ex: "relay_explained hmac tr (s, rs)" and auth: "authenticate_request hmac s k bs now = (s', Ok r)"
  shows "relay_explained hmac (tr @ [(AuthenticateCmd k bs now, AuthReply (Ok r))]) (s', rs @ [r])"
proof (rule authenticate_inner_Ok [OF auth [unfolded authenticate_request_def]])
  fix a
  let ?e = "(AuthenticateCmd k bs now, AuthReply (Ok r))"
  assume live: "live_allocation s k now = (s', Ok a)"
    and ok: "verify_integrity hmac bs (ac_integrity_key (al_credentials a)) = Ok (ar_verified r)" "ar_tuple r = k"
      "ar_allocation_incarnation r = al_incarnation a"
  note keeps = live_allocation_keeps [OF live]
  have old: "relay_explained hmac (tr @ [?e]) (s', rs)" using ex keeps by (rule relay_explained_keeps)
  have get: "hm_get (rs_allocations s') k = Some a" using live_allocation_get [OF live] by simp
  have "created tr k (ac_integrity_key (al_credentials a))"
  proof (rule relay_keepsD [OF keeps get])
    fix a0
    assume "hm_get (rs_allocations s) k = Some a0" "alloc_keeps (rs_quota s) now a0 a"
    with ex show ?thesis by (auto simp: relay_explained_def alloc_explained_def alloc_keeps_def Let_def)
  qed
  then have "authentic hmac (tr @ [?e]) r (ac_integrity_key (al_credentials a))"
    using authentic_snoc ok by blast
  moreover have "al_incarnation a \<le> rs_next_incarnation s'"
    using relay_inv_keeps [OF inv keeps] get by (simp add: relay_inv_def)
  ultimately have "request_explained hmac (tr @ [?e]) s' r"
    using get ok by (simp add: request_explained_def)
  with old show ?thesis by (simp add: relay_explained_def)
qed

lemma relay_explained_create:
  assumes inv: "relay_inv s" and ex: "relay_explained hmac tr (s, rs)"
    and create: "create_allocation s k credentials relayed now life = (s', Ok info)"
  shows "relay_explained hmac (tr @ [(CreateCmd k credentials relayed now life, CreateReply (Ok info))]) (s', rs)"
proof (rule create_allocation_Ok [OF create])
  fix c inc x
  let ?e = "(CreateCmd k credentials relayed now life, CreateReply (Ok info))"
  let ?a = "fresh_allocation credentials inc relayed x"
  assume c: "c = relay_cleanup s now" and inc: "checked_add (rs_next_incarnation c) 1 = Some inc"
    and s': "s' = put_allocation (c\<lparr>rs_next_incarnation := inc\<rparr>) k ?a"
  have "relay_keeps now s c" using inv by (auto simp: c relay_inv_def intro: cleanup_keeps)
  with ex have old: "relay_explained hmac (tr @ [?e]) (c, rs)" by (rule relay_explained_keeps)
  have get: "hm_get (rs_allocations s') k' = (if k' = k then Some ?a else hm_get (rs_allocations c) k')" for k'
    by (simp add: s' AList.update_conv')
  have less: "rs_next_incarnation c < inc" using inc by (rule checked_add_less) simp
  have "created (tr @ [?e]) k (ac_integrity_key credentials)"
    unfolding created_def by (blast intro: subseq_snoc_single)
  then have "alloc_explained hmac (tr @ [?e]) k' a" if "hm_get (rs_allocations s') k' = Some a" for k' a
    using that [unfolded get] old by (auto simp: relay_explained_def alloc_explained_def Let_def split: if_splits)
  moreover have "request_explained hmac (tr @ [?e]) s' r" if "r \<in> set rs" for r
  proof -
    have r: "request_explained hmac (tr @ [?e]) c r" using old that by (simp add: relay_explained_def)
    then have "ar_allocation_incarnation r < inc" using less by (auto simp: request_explained_def)
    with r less show ?thesis
      unfolding request_explained_def get by (auto simp: s' split: if_splits)
  qed
  ultimately show ?thesis by (simp add: relay_explained_def)
qed

lemma relay_explained_put:
  assumes old: "relay_explained hmac tr (s, rs)" and get: "hm_get (rs_allocations s) k = Some a"
    and same: "al_incarnation a' = al_incarnation a" "al_credentials a' = al_credentials a"
    and new: "alloc_explained hmac tr k a'"
  shows "relay_explained hmac tr (put_allocation s k a', rs)"
proof -
  let ?s = "put_allocation s k a'"
  have get': "hm_get (rs_allocations ?s) k' = (if k' = k then Some a' else hm_get (rs_allocations s) k')" for k'
    by (simp add: AList.update_conv')
  have "request_explained hmac tr ?s r" if "request_explained hmac tr s r" for r
    using that get same unfolding request_explained_def get' by auto
  with old new show ?thesis unfolding relay_explained_def fst_conv snd_conv get' by simp
qed

lemma authorized_authentic:
  assumes "relay_explained hmac tr (s, rs)" "r \<in> set rs" "authorized_allocation s r now m = (s1, Ok a)"
  shows "authentic hmac tr r (ac_integrity_key (al_credentials a))"
proof -
  from assms(3) have get: "hm_get (rs_allocations s1) (ar_tuple r) = Some a" and inc: "al_incarnation a = ar_allocation_incarnation r"
    using live_allocation_get by (auto simp: authorized_Ok_iff)
  show ?thesis
  proof (rule relay_keepsD [OF authorized_keeps [OF assms(3)] get])
    fix a0
    assume "hm_get (rs_allocations s) (ar_tuple r) = Some a0" "alloc_keeps (rs_quota s) now a0 a"
    with assms(1,2) inc show ?thesis
      by (auto simp: relay_explained_def request_explained_def alloc_keeps_def)
  qed
qed

lemma request_peers_ips: "request_peers m = Ok peers \<Longrightarrow> socket_ip ` set peers = request_ips m"
  by (auto simp: request_peers_def request_ips_def Let_def split: if_splits)

lemma last_attribute_mem: "last_attribute sel found as = Some v \<Longrightarrow> found = Some v \<or> v \<in> set (List.map_filter sel as)"
proof (induction as arbitrary: found)
  case (Cons a as)
  then show ?case by (cases "sel a") (auto simp: map_filter_simps)
qed simp

lemma request_channel_ip: "request_channel m = Ok (c, peer) \<Longrightarrow> socket_ip peer \<in> request_ips m"
  using last_attribute_mem [of peer_of None "tm_attributes m" peer]
  by (auto simp: request_channel_def request_ips_def split: if_splits option.splits)

lemma relay_explained_permit:
  assumes inv: "relay_inv s" and ex: "relay_explained hmac tr (s, rs)" and r: "r \<in> set rs"
    and ok: "create_permissions s r now = (s', Ok u)"
  shows "relay_explained hmac (tr @ [(PermitCmd r now, DoneReply (Ok ()))]) (s', rs)"
proof (rule create_permissions_Ok [OF ok])
  fix peers s1 e and a :: allocation
  let ?e = "(PermitCmd r now, DoneReply (Ok ()))" and ?ips = "remdups (map socket_ip peers)"
  let ?a = "a\<lparr>al_permissions := fold (\<lambda>ip. hm_insert ip e) ?ips (al_permissions a)\<rparr>"
  assume peers: "request_peers (ar_verified r) = Ok peers"
    and auth: "authorized_allocation s r now MCreatePermission = (s1, Ok a)" and e: "checked_add now PERMISSION_LIFETIME = Some e"
    and s': "s' = put_allocation s1 (ar_tuple r) ?a"
  have old: "relay_explained hmac (tr @ [?e]) (s1, rs)" using ex authorized_keeps [OF auth] by (rule relay_explained_keeps)
  have get: "hm_get (rs_allocations s1) (ar_tuple r) = Some a" using authorized_inv(2) [OF inv auth] .
  note ord = ordered_snoc [OF authorized_authentic [OF ex r auth], of "PermitCmd r now"]
  have "permission_explained hmac (tr @ [?e]) (ar_tuple r) (ac_integrity_key (al_credentials a)) ip e" if "ip \<in> set ?ips" for ip
    using that ord e request_peers_ips [OF peers] unfolding permission_explained_def by auto
  moreover have "alloc_explained hmac (tr @ [?e]) (ar_tuple r) a" using old get by (simp add: relay_explained_def)
  ultimately have "alloc_explained hmac (tr @ [?e]) (ar_tuple r) ?a"
    unfolding alloc_explained_def Let_def by (auto dest!: fold_insert_mem)
  then show ?thesis unfolding s' by (intro relay_explained_put [OF old get]) simp_all
qed

lemma relay_explained_bind:
  assumes inv: "relay_inv s" and ex: "relay_explained hmac tr (s, rs)" and r: "r \<in> set rs"
    and ok: "bind_channel s r now = (s', Ok u)"
  shows "relay_explained hmac (tr @ [(BindCmd r now, DoneReply (Ok ()))]) (s', rs)"
proof (rule bind_channel_Ok [OF ok])
  fix c peer s1 pe ce qe and a :: allocation
  let ?e = "(BindCmd r now, DoneReply (Ok ()))"
  let ?b = "\<lparr>cb_peer = peer, cb_expires_at = ce, cb_quarantine_until = qe\<rparr>"
  let ?a = "a\<lparr>al_permissions := hm_insert (socket_ip peer) pe (al_permissions a), al_channels := hm_insert c ?b (al_channels a)\<rparr>"
  assume chan: "request_channel (ar_verified r) = Ok (c, peer)"
    and auth: "authorized_allocation s r now MChannelBind = (s1, Ok a)" and pe: "checked_add now PERMISSION_LIFETIME = Some pe"
    and ce: "checked_add now CHANNEL_LIFETIME = Some ce" and s': "s' = put_allocation s1 (ar_tuple r) ?a"
  have old: "relay_explained hmac (tr @ [?e]) (s1, rs)" using ex authorized_keeps [OF auth] by (rule relay_explained_keeps)
  have get: "hm_get (rs_allocations s1) (ar_tuple r) = Some a" using authorized_inv(2) [OF inv auth] .
  note ord = ordered_snoc [OF authorized_authentic [OF ex r auth], of "BindCmd r now"]
  have "permission_explained hmac (tr @ [?e]) (ar_tuple r) (ac_integrity_key (al_credentials a)) (socket_ip peer) pe"
    using ord pe request_channel_ip [OF chan] unfolding permission_explained_def by auto
  moreover have "channel_explained hmac (tr @ [?e]) (ar_tuple r) (ac_integrity_key (al_credentials a)) c ?b"
    using ord ce chan unfolding channel_explained_def by auto
  moreover have "alloc_explained hmac (tr @ [?e]) (ar_tuple r) a" using old get by (simp add: relay_explained_def)
  ultimately have "alloc_explained hmac (tr @ [?e]) (ar_tuple r) ?a"
    unfolding alloc_explained_def Let_def by (auto dest!: hm_mem_insert)
  then show ?thesis unfolding s' by (intro relay_explained_put [OF old get]) simp_all
qed

lemma create_Err_keeps:
  "relay_inv s \<Longrightarrow> create_allocation s k credentials relayed now life = (s', Err e) \<Longrightarrow> relay_keeps now s s'"
  using create_allocation_Err [of s k credentials relayed now life s' e] cleanup_keeps [of s now]
  by (auto simp: relay_inv_def)

lemma relay_explained_step:
  assumes inv: "relay_inv (fst w)" and ex: "relay_explained hmac tr w"
  shows "relay_explained hmac (tr @ [(c, snd (relay_step hmac w c))]) (fst (relay_step hmac w c))"
proof -
  obtain s rs where w: "w = (s, rs)" by fastforce
  note inv' = inv [unfolded w fst_conv] and ex' = ex [unfolded w]
  show ?thesis
  proof (cases c)
    case (CreateCmd k cr relayed now life)
    obtain s' x where x: "create_allocation s k cr relayed now life = (s', x)" by fastforce
    show ?thesis
    proof (cases x)
      case (Inl e)
      have "relay_keeps now s s'" using create_Err_keeps [OF inv', of k cr relayed now life s'] x Inl by simp
      from relay_explained_keeps [OF ex' this] show ?thesis using x Inl by (simp add: CreateCmd w)
    next
      case (Inr v)
      then show ?thesis using relay_explained_create [OF inv' ex', of k cr relayed now life s'] x by (simp add: CreateCmd w)
    qed
  next
    case (AuthenticateCmd k bs now)
    obtain s' x where x: "authenticate_request hmac s k bs now = (s', x)" by fastforce
    show ?thesis
    proof (cases x)
      case (Inl e)
      have "relay_keeps now s s'" using authenticate_keeps [of now s hmac k bs] x Inl by simp
      from relay_explained_keeps [OF ex' this] show ?thesis using x Inl by (simp add: AuthenticateCmd w)
    next
      case (Inr v)
      then show ?thesis using relay_explained_authenticate [OF inv' ex', of k bs now s'] x by (simp add: AuthenticateCmd w)
    qed
  next
    case (PermitCmd r now)
    obtain s' x where x: "create_permissions s r now = (s', x)" by fastforce
    show ?thesis
    proof (cases x)
      case (Inl e)
      have "relay_keeps now s s'" using create_permissions_Err [of s r now s' e] x Inl by simp
      from relay_explained_keeps [OF ex' this] show ?thesis using x Inl relay_explained_keeps [OF ex' relay_keeps_refl] by (simp add: PermitCmd w)
    next
      case (Inr v)
      then show ?thesis using relay_explained_permit [OF inv' ex', of r now s'] x relay_explained_keeps [OF ex' relay_keeps_refl] by (simp add: PermitCmd w)
    qed
  next
    case (BindCmd r now)
    obtain s' x where x: "bind_channel s r now = (s', x)" by fastforce
    show ?thesis
    proof (cases x)
      case (Inl e)
      have "relay_keeps now s s'" using bind_channel_Err [of s r now s' e] x Inl by simp
      from relay_explained_keeps [OF ex' this] show ?thesis using x Inl relay_explained_keeps [OF ex' relay_keeps_refl] by (simp add: BindCmd w)
    next
      case (Inr v)
      then show ?thesis using relay_explained_bind [OF inv' ex', of r now s'] x relay_explained_keeps [OF ex' relay_keeps_refl] by (simp add: BindCmd w)
    qed
  qed (use relay_explained_keeps [OF ex' relay_step_keeps [OF inv, unfolded w fst_conv], of c] in \<open>auto simp: w granting_def\<close>)
qed

interpretation relay_history: recorded_machine "relay_step hmac" "\<lambda>w. relay_inv (fst w)" "relay_explained hmac" for hmac
  by unfold_locales (rule relay_explained_step)

lemma new_relay_inv: "new_relay n quota policy = (n', Ok s) \<Longrightarrow> relay_inv s \<and> rs_quota s = quota \<and> relay_explained hmac [] (s, [])"
  by (auto simp: new_relay_def relay_inv_def user_allocations_def relay_explained_def validate_quota_def
      split: option.splits if_splits)

lemma create_quota: "rs_quota (fst (create_allocation s k cr relayed now life)) = rs_quota s"
proof (cases "snd (create_allocation s k cr relayed now life)")
  case (Inl e)
  then show ?thesis
    using create_allocation_Err [of s k cr relayed now life]
    by (cases "create_allocation s k cr relayed now life") (auto simp: relay_cleanup_def)
next
  case (Inr v)
  then obtain s' where ok: "create_allocation s k cr relayed now life = (s', Ok v)"
    by (cases "create_allocation s k cr relayed now life") auto
  show ?thesis by (rule create_allocation_Ok [OF ok]) (simp add: ok relay_cleanup_def)
qed

lemma permit_quota: "rs_quota (fst (create_permissions s r now)) = rs_quota s"
proof (cases "snd (create_permissions s r now)")
  case (Inl e)
  then show ?thesis
    using create_permissions_Err [of s r now] by (cases "create_permissions s r now") (auto simp: relay_keeps_def)
next
  case (Inr v)
  then obtain s' where ok: "create_permissions s r now = (s', Ok v)" by (cases "create_permissions s r now") auto
  show ?thesis
    by (rule create_permissions_Ok [OF ok]) (use authorized_keeps in \<open>auto simp: ok relay_keeps_def\<close>)
qed

lemma bind_quota: "rs_quota (fst (bind_channel s r now)) = rs_quota s"
proof (cases "snd (bind_channel s r now)")
  case (Inl e)
  then show ?thesis
    using bind_channel_Err [of s r now] by (cases "bind_channel s r now") (auto simp: relay_keeps_def)
next
  case (Inr v)
  then obtain s' where ok: "bind_channel s r now = (s', Ok v)" by (cases "bind_channel s r now") auto
  show ?thesis
    by (rule bind_channel_Ok [OF ok]) (use authorized_keeps in \<open>auto simp: ok relay_keeps_def\<close>)
qed

lemma relay_quota_step:
  assumes "relay_inv (fst w)"
  shows "rs_quota (fst (fst (relay_step hmac w c))) = rs_quota (fst w)"
proof (cases "granting c")
  case True
  then show ?thesis by (cases c) (auto simp: granting_def create_quota permit_quota bind_quota)
next
  case False
  then show ?thesis using relay_step_keeps [OF assms, of c hmac] by (simp add: relay_keeps_def)
qed

interpretation relay_quotas: machine_invariant "relay_step hmac" "\<lambda>w. relay_inv (fst w) \<and> rs_quota (fst w) = q" for hmac q
  by unfold_locales (simp add: relay.step_inv relay_quota_step)

text \<open>
  C20: after any history of calls the relay is within all its quotas: allocations in total and per user,
  permissions, channels and traffic per allocation; no two allocations share a relayed address,
  and within an allocation no two channels lead to the same peer.
\<close>
theorem relay_within_quotas:
  assumes "new_relay n quota policy = (n', Ok s0)"
  shows "let s = fst (fst (run (relay_step hmac) (s0, []) cs)) in
    length (rs_allocations s) \<le> rq_max_allocations quota
    \<and> length (user_allocations s c) \<le> rq_max_allocations_per_user quota
    \<and> (hm_get (rs_allocations s) k = Some a \<longrightarrow>
         length (al_permissions a) \<le> rq_max_permissions quota \<and> length (al_channels a) \<le> rq_max_channels quota
         \<and> channels_unique (al_channels a) \<and> tc_packets (al_counters a) \<le> rq_max_packets quota
         \<and> tc_payload_bytes (al_counters a) \<le> rq_max_payload_bytes quota
         \<and> (hm_get (rs_allocations s) k' = Some a' \<and> al_relayed_address a = al_relayed_address a' \<longrightarrow> k = k'))"
proof -
  have "relay_inv (fst (fst (run (relay_step hmac) (s0, []) cs)))
      \<and> rs_quota (fst (fst (run (relay_step hmac) (s0, []) cs))) = quota"
    using new_relay_inv [OF assms] by (intro relay_quotas.run_inv) simp
  then show ?thesis
    unfolding Let_def relay_inv_def by (auto simp: alloc_ok_def traffic_ok_def)
qed

lemma live_explained:
  assumes "relay_explained hmac tr (s, rs)" "live_allocation s k now = (s', Ok a)"
  shows "(ip, e) \<in> set (al_permissions a) \<Longrightarrow>
      permission_explained hmac tr k (ac_integrity_key (al_credentials a)) ip e \<and> now < e"
    and "(c, b) \<in> set (al_channels a) \<Longrightarrow>
      channel_explained hmac tr k (ac_integrity_key (al_credentials a)) c b \<and> now < cb_expires_at b"
proof -
  from assms(2) obtain a0 where a0: "hm_get (rs_allocations s) k = Some a0" "a = prune_children a0 now"
    unfolding live_allocation_Ok_iff by blast
  have "alloc_explained hmac tr k a0" using assms(1) a0(1) by (simp add: relay_explained_def)
  then show "(ip, e) \<in> set (al_permissions a) \<Longrightarrow>
      permission_explained hmac tr k (ac_integrity_key (al_credentials a)) ip e \<and> now < e"
    "(c, b) \<in> set (al_channels a) \<Longrightarrow>
      channel_explained hmac tr k (ac_integrity_key (al_credentials a)) c b \<and> now < cb_expires_at b"
    using live_channels_mem [of c b now "al_channels a0"]
    by (auto simp: a0(2) alloc_explained_def Let_def)
qed

lemma live_credentials:
  assumes "live_allocation s k now = (s', Ok a)"
  obtains a0 where "hm_get (rs_allocations s) k = Some a0" "al_credentials a0 = al_credentials a"
  using assms unfolding live_allocation_Ok_iff by auto

lemma account_permission:
  assumes "require_permission_and_account s k peer n now = (s', Ok ())" "live_allocation s0 k now = (s, Ok a)"
  obtains e where "(socket_ip peer, e) \<in> set (al_permissions a)"
  using account_Ok [OF assms(1)] live_allocation_again [OF assms(2)] by fastforce

text \<open>
  C14: the relay passes a datagram between a client and a peer, in either direction, only while a
  permission for the peer's address is live; and that permission was asked for, after the allocation
  was created, by a request on the same tuple that verifies under the key of the allocation that
  relays and names the address. Channel data in addition goes to the peer that such a request bound
  to the channel.
\<close>
theorem relayed_only_as_requested:
  assumes "new_relay n quota policy = (n', Ok s0)"
  shows "let s = fst (fst (run (relay_step hmac) (s0, []) cs)); tr = trace (relay_step hmac) (s0, []) cs in
    (authorize_send s k peer bytes_sent now = (s', Ok ()) \<or> route_peer_datagram s k peer bytes_sent now = (s', Ok route) \<longrightarrow>
       (\<exists>a e. hm_get (rs_allocations s) k = Some a \<and> now < e
         \<and> permission_explained hmac tr k (ac_integrity_key (al_credentials a)) (socket_ip peer) e))
    \<and> (authorize_channel_data s k ch bytes_sent now = (s', Ok peer) \<longrightarrow>
       (\<exists>a e b. hm_get (rs_allocations s) k = Some a \<and> now < e
         \<and> permission_explained hmac tr k (ac_integrity_key (al_credentials a)) (socket_ip peer) e
         \<and> channel_explained hmac tr k (ac_integrity_key (al_credentials a)) ch b
         \<and> cb_peer b = peer \<and> now < cb_expires_at b))"
proof -
  let ?w = "fst (run (relay_step hmac) (s0, []) cs)" and ?tr = "trace (relay_step hmac) (s0, []) cs"
  let ?s = "fst ?w"
  have "relay_explained hmac ?tr ?w"
    using new_relay_inv [OF assms, of hmac] by (intro relay_history.run_explained) simp_all
  then have ex: "relay_explained hmac ?tr (?s, snd ?w)" by simp
  have send: "\<exists>a e. hm_get (rs_allocations ?s) k = Some a \<and> now < e
      \<and> permission_explained hmac ?tr k (ac_integrity_key (al_credentials a)) (socket_ip peer) e"
    if "authorize_send ?s k peer bytes_sent now = (s', Ok ()) \<or> route_peer_datagram ?s k peer bytes_sent now = (s', Ok route)"
  proof -
    from that obtain s1 a s2 where live: "live_allocation ?s k now = (s1, Ok a)"
      and acc: "require_permission_and_account s1 k peer bytes_sent now = (s2, Ok ())"
      unfolding authorize_send_def route_peer_datagram_def
      by (elim disjE st_then_cases) (auto split: sum.splits elim!: st_then_cases)
    obtain a0 where a0: "hm_get (rs_allocations ?s) k = Some a0" "al_credentials a0 = al_credentials a"
      using live by (rule live_credentials)
    obtain e where "(socket_ip peer, e) \<in> set (al_permissions a)"
      using acc live by (rule account_permission)
    with a0 show ?thesis
      using live_explained(1) [OF ex live, folded a0(2)] by blast
  qed
  have chan: "\<exists>a e b. hm_get (rs_allocations ?s) k = Some a \<and> now < e
      \<and> permission_explained hmac ?tr k (ac_integrity_key (al_credentials a)) (socket_ip peer) e
      \<and> channel_explained hmac ?tr k (ac_integrity_key (al_credentials a)) ch b
      \<and> cb_peer b = peer \<and> now < cb_expires_at b"
    if "authorize_channel_data ?s k ch bytes_sent now = (s', Ok peer)"
  proof -
    from that obtain s1 a b s2 where live: "live_allocation ?s k now = (s1, Ok a)"
      and b: "hm_get (al_channels a) ch = Some b" "cb_peer b = peer"
      and acc: "require_permission_and_account s1 k peer bytes_sent now = (s2, Ok ())"
      unfolding authorize_channel_data_def
      by (elim st_then_cases) (auto split: option.splits elim!: st_then_cases)
    obtain a0 where a0: "hm_get (rs_allocations ?s) k = Some a0" "al_credentials a0 = al_credentials a"
      using live by (rule live_credentials)
    obtain e where "(socket_ip peer, e) \<in> set (al_permissions a)"
      using acc live by (rule account_permission)
    with a0 show ?thesis
      using live_explained [OF ex live, folded a0(2)] hm_get_mem [OF b(1)] b(2) by blast
  qed
  show ?thesis unfolding Let_def using send chan by blast
qed

section \<open>Quarantine of channels\<close>

definition channel_held :: "allocation \<Rightarrow> u16 \<Rightarrow> socket_addr \<Rightarrow> u64 \<Rightarrow> bool" where
  "channel_held a c p u \<longleftrightarrow> binding_reserved a c p u \<and> (\<forall>b. (c, b) \<in> set (al_channels a) \<longrightarrow> cb_peer b = p)"

definition reserved :: "udp_tuple \<Rightarrow> u64 \<Rightarrow> u16 \<Rightarrow> socket_addr \<Rightarrow> u64 \<Rightarrow> relay_state \<Rightarrow> bool" where
  "reserved k inc c p u s \<longleftrightarrow> relay_inv s \<and> inc \<le> rs_next_incarnation s
     \<and> (\<forall>a. hm_get (rs_allocations s) k = Some a \<longrightarrow> al_incarnation a = inc \<longrightarrow> channel_held a c p u)"

lemma reserved_keeps:
  assumes "reserved k inc c p u s" "relay_keeps now s s'" "now < u"
  shows "reserved k inc c p u s'"
  unfolding reserved_def
proof (intro conjI allI impI)
  show "relay_inv s'" using assms(1,2) relay_inv_keeps by (auto simp: reserved_def)
  show "inc \<le> rs_next_incarnation s'" using assms(1,2) by (simp add: reserved_def relay_keeps_def)
  fix a'
  assume get: "hm_get (rs_allocations s') k = Some a'" and inc: "al_incarnation a' = inc"
  show "channel_held a' c p u"
  proof (rule relay_keepsD [OF assms(2) get])
    fix a
    assume a: "hm_get (rs_allocations s) k = Some a" "alloc_keeps (rs_quota s) now a a'"
    then have "hm_ok (al_channels a)" using assms(1) by (auto simp: reserved_def relay_inv_def alloc_ok_def)
    with a assms(1,3) inc show ?thesis by (auto simp: reserved_def alloc_keeps_def channel_held_def)
  qed
qed

lemma reserved_put:
  assumes "reserved k inc c p u s" "hm_get (rs_allocations s) k' = Some a" "relay_inv (put_allocation s k' a')"
    "al_incarnation a' = al_incarnation a" "channel_held a c p u \<Longrightarrow> channel_held a' c p u"
  shows "reserved k inc c p u (put_allocation s k' a')"
  using assms by (auto simp: reserved_def AList.update_conv')

lemma bound_held:
  assumes "channel_held a c p u" "now < u" "\<not> quarantined a now c' p'" "\<not> channel_collides a c' p'" "u \<le> qe"
  shows "channel_held (a\<lparr>al_permissions := ps, al_channels := hm_insert c' \<lparr>cb_peer = p', cb_expires_at = ce,
    cb_quarantine_until = qe\<rparr> (al_channels a)\<rparr>) c p u"
proof -
  have same: "p' = p" if "c' = c"
    using assms that by (fastforce simp: channel_held_def binding_reserved_def quarantined_def channel_collides_def list_ex_iff)
  have "binding_reserved (a\<lparr>al_permissions := ps, al_channels := hm_insert c' \<lparr>cb_peer = p', cb_expires_at = ce,
      cb_quarantine_until = qe\<rparr> (al_channels a)\<rparr>) c p u"
    using assms(1,5) same by (cases "c' = c") (auto simp: channel_held_def binding_reserved_def AList.update_conv')
  then show ?thesis
    using assms(1) same by (auto simp: channel_held_def dest!: hm_mem_insert)
qed

lemma hm_insert_same: "hm_ok m \<Longrightarrow> (k, x) \<in> set (hm_insert k v m) \<Longrightarrow> x = v"
  using hm_get_iff [of "hm_insert k v m" k x] by (simp add: AList.update_conv')

lemma lifetime_le:
  assumes "checked_add t CHANNEL_LIFETIME = Some x" "checked_add x QUARANTINE_LIFETIME = Some u"
    "checked_add now CHANNEL_LIFETIME = Some ce" "checked_add ce QUARANTINE_LIFETIME = Some qe" "t \<le> now"
  shows "u \<le> qe"
  using assms by (simp add: checked_add_Some_iff word_le_nat_alt)

lemma reserved_create:
  assumes "reserved k inc c p u s" "now < u"
  shows "reserved k inc c p u (fst (create_allocation s k' cr relayed now life))"
proof (cases "snd (create_allocation s k' cr relayed now life)")
  case (Inl e)
  then show ?thesis
    using create_Err_keeps [of s k' cr relayed now life] reserved_keeps [OF assms(1) _ assms(2)] assms(1)
    by (cases "create_allocation s k' cr relayed now life") (auto simp: reserved_def [of _ _ _ _ _ s])
next
  case (Inr v)
  then obtain s' where ok: "create_allocation s k' cr relayed now life = (s', Ok v)"
    by (cases "create_allocation s k' cr relayed now life") auto
  have inv: "relay_inv s'" using relay_inv_create [of s k' cr relayed now life] assms(1) by (simp add: ok reserved_def)
  show ?thesis
  proof (rule create_allocation_Ok [OF ok])
    fix d i e
    assume d: "d = relay_cleanup s now" and i: "checked_add (rs_next_incarnation d) 1 = Some i"
      and s': "s' = put_allocation (d\<lparr>rs_next_incarnation := i\<rparr>) k' (fresh_allocation cr i relayed e)"
    have "hm_ok (rs_allocations s)" using assms(1) by (simp add: reserved_def relay_inv_def)
    then have res: "reserved k inc c p u d"
      using reserved_keeps [OF assms(1) cleanup_keeps assms(2)] by (simp add: d)
    have less: "rs_next_incarnation d < i" using i by (rule checked_add_less) simp
    have "inc \<le> rs_next_incarnation d" using res by (simp add: reserved_def)
    with less res inv show ?thesis
      unfolding ok fst_conv reserved_def by (auto simp: s' AList.update_conv')
  qed
qed

lemma reserved_permit:
  assumes "reserved k inc c p u s" "now < u"
  shows "reserved k inc c p u (fst (create_permissions s r now))"
proof (cases "snd (create_permissions s r now)")
  case (Inl e)
  then show ?thesis
    using create_permissions_Err [of s r now] reserved_keeps [OF assms(1) _ assms(2)] by (cases "create_permissions s r now") auto
next
  case (Inr v)
  then obtain s' where ok: "create_permissions s r now = (s', Ok v)" by (cases "create_permissions s r now") auto
  have inv: "relay_inv s" using assms(1) by (simp add: reserved_def)
  show ?thesis
  proof (rule create_permissions_Ok [OF ok])
    fix peers s1 e and a :: allocation
    let ?a = "a\<lparr>al_permissions := fold (\<lambda>ip. hm_insert ip e) (remdups (map socket_ip peers)) (al_permissions a)\<rparr>"
    assume auth: "authorized_allocation s r now MCreatePermission = (s1, Ok a)" and s': "s' = put_allocation s1 (ar_tuple r) ?a"
    note res = reserved_keeps [OF assms(1) authorized_keeps [OF auth] assms(2)]
    show ?thesis
      unfolding ok fst_conv s'
      using relay_inv_permit [OF inv, of r now]
      by (intro reserved_put [OF res authorized_inv(2) [OF inv auth]]) (simp_all add: ok s' channel_held_def)
  qed
qed

lemma reserved_bind:
  assumes "reserved k inc c p u s" "now < u" "t \<le> now"
    and u: "checked_add t CHANNEL_LIFETIME = Some x" "checked_add x QUARANTINE_LIFETIME = Some u"
  shows "reserved k inc c p u (fst (bind_channel s r now))"
proof (cases "snd (bind_channel s r now)")
  case (Inl e)
  then show ?thesis
    using bind_channel_Err [of s r now] reserved_keeps [OF assms(1) _ assms(2)] by (cases "bind_channel s r now") auto
next
  case (Inr v)
  then obtain s' where ok: "bind_channel s r now = (s', Ok v)" by (cases "bind_channel s r now") auto
  have inv: "relay_inv s" using assms(1) by (simp add: reserved_def)
  show ?thesis
  proof (rule bind_channel_Ok [OF ok])
    fix c' p' s1 pe ce qe and a :: allocation
    assume auth: "authorized_allocation s r now MChannelBind = (s1, Ok a)"
      and e: "checked_add now CHANNEL_LIFETIME = Some ce" "checked_add ce QUARANTINE_LIFETIME = Some qe"
      and free: "\<not> quarantined a now c' p'" "\<not> channel_collides a c' p'"
      and s': "s' = put_allocation s1 (ar_tuple r) (a\<lparr>al_permissions := hm_insert (socket_ip p') pe (al_permissions a),
         al_channels := hm_insert c' \<lparr>cb_peer = p', cb_expires_at = ce, cb_quarantine_until = qe\<rparr> (al_channels a)\<rparr>)"
    have "u \<le> qe" using lifetime_le [OF u e assms(3)] .
    note res = reserved_keeps [OF assms(1) authorized_keeps [OF auth] assms(2)]
    show ?thesis
      unfolding ok fst_conv s'
      using relay_inv_bind [OF inv, of r now] bound_held [OF _ assms(2) free \<open>u \<le> qe\<close>]
      by (intro reserved_put [OF res authorized_inv(2) [OF inv auth]]) (simp_all add: ok s')
  qed
qed

lemma reserved_run:
  assumes "reserved k inc c p u (fst w)" "list_all (\<lambda>cmd. t \<le> cmd_time cmd \<and> cmd_time cmd < u) cs"
    and u: "checked_add t CHANNEL_LIFETIME = Some x" "checked_add x QUARANTINE_LIFETIME = Some u"
  shows "reserved k inc c p u (fst (fst (run (relay_step hmac) w cs)))"
  using assms(1,2)
proof (induction cs arbitrary: w)
  case (Cons cmd cs)
  have time: "cmd_time cmd < u" "t \<le> cmd_time cmd" using Cons.prems(2) by simp_all
  have inv: "relay_inv (fst w)" using Cons.prems(1) by (simp add: reserved_def)
  have "reserved k inc c p u (fst (fst (relay_step hmac w cmd)))"
  proof (cases "granting cmd")
    case True
    then show ?thesis
      using reserved_create [OF Cons.prems(1)] reserved_permit [OF Cons.prems(1)] reserved_bind [OF Cons.prems(1) _ _ u]
        Cons.prems(1) time by (cases cmd) (auto simp: granting_def)
  next
    case False
    then show ?thesis using reserved_keeps [OF Cons.prems(1) relay_step_keeps [OF inv] time(1)] by blast
  qed
  with Cons.IH Cons.prems(2) show ?case by simp
qed simp

text \<open>
  C19: a channel that was bound to a peer is not redirected: for the 900 seconds of its lifetime and
  quarantine, whatever is called in that time, channel data on it goes to that peer or nowhere, as
  long as the allocation is the one the channel was bound in.
\<close>
theorem channel_not_redirected:
  assumes "new_relay n quota policy = (n', Ok s0)"
    and "w = fst (run (relay_step hmac) (s0, []) cs)" and bind: "bind_channel (fst w) r t = (s1, Ok ())"
    and chan: "request_channel (ar_verified r) = Ok (c, p)"
    and u: "checked_add t 900 = Some u" and times: "list_all (\<lambda>cmd. t \<le> cmd_time cmd \<and> cmd_time cmd < u) ds"
    and s2: "s2 = fst (fst (run (relay_step hmac) (s1, snd w) ds))"
    and same: "hm_get (rs_allocations s2) (ar_tuple r) = Some a" "al_incarnation a = ar_allocation_incarnation r"
    and now: "t \<le> now" "now < u"
    and data: "authorize_channel_data s2 (ar_tuple r) c bytes_sent now = (s', Ok p')"
  shows "p' = p"
proof -
  have inv: "relay_inv (fst w)"
    unfolding assms(2) using new_relay_inv [OF assms(1), of hmac] by (intro relay.run_inv) simp
  show ?thesis
  proof (rule bind_channel_Ok [OF bind])
    fix c0 p0 s3 pe ce qe and b :: allocation
    assume chan0: "request_channel (ar_verified r) = Ok (c0, p0)"
      and auth: "authorized_allocation (fst w) r t MChannelBind = (s3, Ok b)"
      and e: "checked_add t CHANNEL_LIFETIME = Some ce" "checked_add ce QUARANTINE_LIFETIME = Some qe"
      and s1: "s1 = put_allocation s3 (ar_tuple r) (b\<lparr>al_permissions := hm_insert (socket_ip p0) pe (al_permissions b),
         al_channels := hm_insert c0 \<lparr>cb_peer = p0, cb_expires_at = ce, cb_quarantine_until = qe\<rparr> (al_channels b)\<rparr>)"
    have cp: "c0 = c" "p0 = p" using chan chan0 by simp_all
    have qe: "qe = u"
      using e u by (auto simp: checked_add_Some_iff CHANNEL_LIFETIME_def QUARANTINE_LIFETIME_def word_unat_eq_iff)
    have s1_inv: "relay_inv s1" using relay_inv_bind [OF inv, of r t] bind by simp
    have inc: "al_incarnation b = ar_allocation_incarnation r" using auth by (simp add: authorized_Ok_iff)
    have ok_b: "hm_ok (al_channels b)" using authorized_inv(3) [OF inv auth] by (simp add: alloc_ok_def)
    have held: "channel_held (b\<lparr>al_permissions := hm_insert (socket_ip p0) pe (al_permissions b),
        al_channels := hm_insert c0 \<lparr>cb_peer = p0, cb_expires_at = ce, cb_quarantine_until = qe\<rparr> (al_channels b)\<rparr>) c p u"
      unfolding channel_held_def binding_reserved_def
      using hm_insert_same [OF ok_b] by (auto simp: cp qe AList.update_conv' dest!: hm_insert_same [OF ok_b])
    have "al_incarnation b \<le> rs_next_incarnation s3"
      using authorized_inv(1,2) [OF inv auth] by (simp add: relay_inv_def)
    then have "ar_allocation_incarnation r \<le> rs_next_incarnation s1" by (simp add: inc s1)
    then have "reserved (ar_tuple r) (ar_allocation_incarnation r) c p u s1"
      using s1_inv held by (simp add: reserved_def s1 AList.update_conv')
    then have "reserved (ar_tuple r) (ar_allocation_incarnation r) c p u s2"
      unfolding s2 using times e by (intro reserved_run [where w = "(s1, snd w)", unfolded fst_conv]) (simp_all add: qe)
    then have res: "channel_held a c p u" and ok: "alloc_ok (rs_quota s2) a"
      using same by (auto simp: reserved_def relay_inv_def)
    from data obtain s4 a' b' where live: "live_allocation s2 (ar_tuple r) now = (s4, Ok a')"
      and b': "hm_get (al_channels a') c = Some b'" "cb_peer b' = p'"
      unfolding authorize_channel_data_def
      by (elim st_then_cases) (auto split: option.splits elim!: st_then_cases)
    have "a' = prune_children a now" using live same(1) by (auto simp: live_allocation_Ok_iff)
    then have "(c, b') \<in> set (al_channels a)"
      using hm_get_mem [OF b'(1)] live_channels_mem [of c b' now "al_channels a"] by simp
    with res b'(2) show ?thesis by (auto simp: channel_held_def)
  qed
qed

section \<open>Instances\<close>

definition sample_tuple :: udp_tuple where
  "sample_tuple = \<lparr>ut_client = SocketV4 [192, 0, 2, 1] 5000, ut_server = SocketV4 [192, 0, 2, 2] 3478\<rparr>"

abbreviation sample_relayed :: socket_addr where "sample_relayed \<equiv> SocketV4 [192, 0, 2, 3] 6000"
abbreviation sample_peer :: socket_addr where "sample_peer \<equiv> SocketV4 [192, 0, 2, 9] 4000"

definition sample_credentials :: allocation_credentials where
  "sample_credentials = \<lparr>ac_username = [97], ac_realm = [98], ac_nonce = [99], ac_auth_identity = [100],
     ac_integrity_key = [9]\<rparr>"

definition sample_bind :: turn_message where
  "sample_bind = \<lparr>tm_header = \<lparr>th_class = ClRequest, th_method = MChannelBind, th_transaction_id = replicate 12 1\<rparr>,
     tm_attributes = [ChannelNumber 0x4000, XorPeerAddress sample_peer, Username [97], Realm [98], Nonce [99]]\<rparr>"

definition sample_verified :: turn_message where
  "sample_verified = sample_bind\<lparr>tm_attributes := tm_attributes sample_bind @ [MessageIntegritySha256 (replicate 32 9)]\<rparr>"

definition sample_relay_state :: relay_state where
  "sample_relay_state = \<lparr>rs_state_instance = 1, rs_allocations = [], rs_next_incarnation = 0, rs_quota = default_quota,
     rs_policy = default_peer_policy\<rparr>"

definition sample_request :: authenticated_request where
  "sample_request = \<lparr>ar_state_instance = 1, ar_tuple = sample_tuple, ar_allocation_incarnation = 1,
     ar_credential_generation = 1, ar_verified = sample_verified\<rparr>"

definition sample_created :: relay_state where
  "sample_created = sample_relay_state\<lparr>rs_next_incarnation := 1,
     rs_allocations := [(sample_tuple, fresh_allocation sample_credentials 1 sample_relayed 600)]\<rparr>"

definition sample_bound :: relay_state where
  "sample_bound = sample_created\<lparr>rs_allocations := [(sample_tuple, (fresh_allocation sample_credentials 1 sample_relayed 600)
     \<lparr>al_permissions := [(IpV4 [192, 0, 2, 9], 302)],
      al_channels := [(0x4000, \<lparr>cb_peer = sample_peer, cb_expires_at = 602, cb_quarantine_until = 902\<rparr>)]\<rparr>)]\<rparr>"

lemma sample_new_relay: "new_relay 1 default_quota default_peer_policy = (2, Ok sample_relay_state)"
  by (simp add: new_relay_def checked_add_def validate_quota_def default_quota_def sample_relay_state_def
      MAX_GLOBAL_ALLOCATIONS_def MAX_USER_ALLOCATIONS_def MAX_PERMISSIONS_def MAX_CHANNELS_def
      MAX_TRAFFIC_PACKETS_def MAX_TRAFFIC_BYTES_def)

lemma sample_bind_verifies: "\<exists>bs. verify_integrity sample_hmac bs [9] = Ok sample_verified"
proof -
  have wf: "wf_turn_message sample_bind" "\<forall>k x. length (sample_hmac k x) = 32"
    by (simp_all add: wf_turn_message_def sample_bind_def)
  have "is_ok (encode_with_integrity sample_hmac sample_bind [9])"
    by (simp add: encode_with_integrity_def encode_message_def sample_bind_def validate_turn_header_def
        replicate_eq_replicate append_attribute_def finish_length_def padding_len_def write_length_def
        turn_prefix_def MAX_DATAGRAM_BYTES_def TURN_HEADER_LEN_def ATTRIBUTE_HEADER_LEN_def Let_def
        CHANNEL_MIN_def CHANNEL_MAX_def bounded_text_def encode_xor_address_def address_mask_def)
  then obtain bs where bs: "encode_with_integrity sample_hmac sample_bind [9] = Ok bs" by (auto simp: is_ok_iff)
  have "verify_integrity sample_hmac bs [9] = Ok (sample_bind\<lparr>tm_attributes := tm_attributes sample_bind
      @ [MessageIntegritySha256 (sample_hmac [9] (take (length bs - 36) bs))]\<rparr>)"
    by (rule encode_with_integrity_shape [OF wf bs]) (rule verify_shape [OF wf])
  then show ?thesis by (auto simp: sample_verified_def)
qed

lemma replicate_4: "replicate 4 (b :: u8) = [b, b, b, b]"
  by (simp add: numeral_eq_Suc)

lemma sample_create:
  "create_allocation sample_relay_state sample_tuple sample_credentials sample_relayed 0 None
   = (sample_created, Ok \<lparr>ai_relayed_address = sample_relayed, ai_expires_at = 600\<rparr>)"
  by (simp add: create_allocation_def sample_relay_state_def sample_created_def validate_tuple_def validate_relay_def
      sample_tuple_def usable_address_def replicate_4 default_peer_policy_def relay_cleanup_def default_quota_def
      desired_lifetime_def DEFAULT_ALLOCATION_LIFETIME_def MAX_ALLOCATION_LIFETIME_def checked_add_def Let_def)

lemma sample_live:
  "now < 600 \<Longrightarrow> live_allocation sample_created sample_tuple now
     = (sample_created, Ok (fresh_allocation sample_credentials 1 sample_relayed 600))"
  by (simp add: live_allocation_def sample_created_def prune_children_def Let_def not_le)

lemma sample_verified_parts:
  "th_class (tm_header sample_verified) = ClRequest" "th_method (tm_header sample_verified) = MChannelBind"
  "get_request_credentials sample_verified = Ok \<lparr>qc_username = [97], qc_realm = [98], qc_nonce = [99]\<rparr>"
  "request_channel sample_verified = Ok (0x4000, sample_peer)"
  by (simp_all add: sample_verified_def sample_bind_def get_request_credentials_def request_channel_def)

lemma sample_authenticate:
  assumes "verify_integrity sample_hmac bs [9] = Ok sample_verified"
  shows "authenticate_request sample_hmac sample_created sample_tuple bs 1 = (sample_created, Ok sample_request)"
proof -
  have "verify_integrity sample_hmac bs (ac_integrity_key sample_credentials) = Ok sample_verified"
    using assms by (simp add: sample_credentials_def)
  then show ?thesis
    by (simp add: authenticate_request_def authenticate_request_inner_def sample_live sample_verified_parts)
      (simp add: sample_credentials_def sample_request_def sample_created_def sample_relay_state_def)
qed

lemma sample_bind_channel: "bind_channel sample_created sample_request 2 = (sample_bound, Ok ())"
proof -
  have auth: "authorized_allocation sample_created sample_request 2 MChannelBind
      = (sample_created, Ok (fresh_allocation sample_credentials 1 sample_relayed 600))"
    by (simp add: authorized_allocation_def sample_request_def sample_verified_parts sample_live)
      (simp add: sample_created_def sample_relay_state_def)
  have conf: "rs_policy sample_created = default_peer_policy" "rs_quota sample_created = default_quota"
    by (simp_all add: sample_created_def sample_relay_state_def)
  have chan: "request_channel (ar_verified sample_request) = Ok (0x4000, sample_peer)"
    by (simp add: sample_request_def sample_verified_parts)
  have peer: "validate_peer default_peer_policy sample_relayed sample_peer = Ok ()"
    by (simp add: validate_peer_def usable_address_def replicate_4 default_peer_policy_def)
  show ?thesis
    by (simp add: bind_channel_def chan auth conf peer CHANNEL_MIN_def CHANNEL_MAX_def checked_add_def
        PERMISSION_LIFETIME_def CHANNEL_LIFETIME_def QUARANTINE_LIFETIME_def quarantined_def channel_collides_def)
      (simp add: sample_bound_def sample_created_def sample_request_def default_quota_def)
qed

lemma sample_channel_data:
  "\<exists>s. authorize_channel_data sample_bound sample_tuple 0x4000 100 3 = (s, Ok sample_peer)"
proof -
  have live: "live_allocation sample_bound sample_tuple 3 = (sample_bound, Ok ((fresh_allocation sample_credentials 1 sample_relayed 600)
     \<lparr>al_permissions := [(IpV4 [192, 0, 2, 9], 302)],
      al_channels := [(0x4000, \<lparr>cb_peer = sample_peer, cb_expires_at = 602, cb_quarantine_until = 902\<rparr>)]\<rparr>))"
    by (simp add: live_allocation_def sample_bound_def prune_children_def Let_def)
  have "rs_quota sample_bound = default_quota" by (simp add: sample_bound_def sample_created_def sample_relay_state_def)
  then show ?thesis
    by (simp add: authorize_channel_data_def require_permission_and_account_def live checked_add_def default_quota_def
        MAX_TRAFFIC_PACKETS_def MAX_TRAFFIC_BYTES_def)
qed

lemma sample_history:
  assumes "verify_integrity sample_hmac bs [9] = Ok sample_verified"
  shows "fst (run (relay_step sample_hmac) (sample_relay_state, []) [CreateCmd sample_tuple sample_credentials sample_relayed 0 None,
    AuthenticateCmd sample_tuple bs 1]) = (sample_created, [sample_request])"
  by (simp add: sample_create sample_authenticate [OF assms])

lemma relay_within_quotas_witness:
  "\<exists>s. s = fst (fst (run (relay_step sample_hmac) (sample_relay_state, [])
     [CreateCmd sample_tuple sample_credentials sample_relayed 0 None]))
   \<and> rs_allocations s \<noteq> [] \<and> length (rs_allocations s) \<le> 1024"
proof -
  let ?cs = "[CreateCmd sample_tuple sample_credentials sample_relayed 0 None]"
  have run: "fst (fst (run (relay_step sample_hmac) (sample_relay_state, []) ?cs)) = sample_created"
    by (simp add: sample_create)
  have "length (rs_allocations sample_created) \<le> rq_max_allocations default_quota"
    using relay_within_quotas [OF sample_new_relay, of sample_hmac ?cs, unfolded Let_def run] by blast
  moreover have "rs_allocations sample_created \<noteq> []" by (simp add: sample_created_def)
  ultimately show ?thesis unfolding run by (simp add: default_quota_def)
qed

lemma relayed_only_as_requested_witness:
  "\<exists>bs key b. channel_explained sample_hmac (trace (relay_step sample_hmac) (sample_relay_state, [])
      [CreateCmd sample_tuple sample_credentials sample_relayed 0 None, AuthenticateCmd sample_tuple bs 1,
       BindCmd sample_request 2]) sample_tuple key 0x4000 b \<and> cb_peer b = sample_peer \<and> 3 < cb_expires_at b"
proof -
  obtain bs where bs: "verify_integrity sample_hmac bs [9] = Ok sample_verified" using sample_bind_verifies by blast
  let ?cs = "[CreateCmd sample_tuple sample_credentials sample_relayed 0 None, AuthenticateCmd sample_tuple bs 1,
      BindCmd sample_request 2]"
  obtain s where s: "authorize_channel_data sample_bound sample_tuple 0x4000 100 3 = (s, Ok sample_peer)"
    using sample_channel_data by blast
  have "fst (fst (run (relay_step sample_hmac) (sample_relay_state, []) ?cs)) = sample_bound"
    by (simp add: sample_create sample_authenticate [OF bs] sample_bind_channel)
  from relayed_only_as_requested [OF sample_new_relay, where hmac = sample_hmac and cs = ?cs and k = sample_tuple
      and peer = sample_peer and bytes_sent = 100 and now = 3 and s' = s and ch = "0x4000",
      unfolded Let_def this, THEN conjunct2, rule_format, OF s] show ?thesis by blast
qed

lemma channel_not_redirected_witness:
  "\<exists>s p. authorize_channel_data sample_bound sample_tuple 0x4000 100 3 = (s, Ok p) \<and> p = sample_peer"
proof -
  obtain bs where bs: "verify_integrity sample_hmac bs [9] = Ok sample_verified" using sample_bind_verifies by blast
  obtain s p where s: "authorize_channel_data sample_bound sample_tuple 0x4000 100 3 = (s, Ok p)"
    using sample_channel_data by blast
  note hist = sample_history [OF bs]
  have get: "\<exists>a. hm_get (rs_allocations sample_bound) (ar_tuple sample_request) = Some a
      \<and> al_incarnation a = ar_allocation_incarnation sample_request"
    by (simp add: sample_bound_def sample_request_def)
  have "p = sample_peer"
    using channel_not_redirected [OF sample_new_relay hist [symmetric], where r = sample_request and t = 2 and ?s1.0 = sample_bound
        and c = "0x4000" and p = sample_peer and u = 902 and ds = "[]" and ?s2.0 = sample_bound and now = 3
        and bytes_sent = 100 and s' = s and p' = p] sample_bind_channel get s sample_verified_parts(4)
    by (auto simp: checked_add_def sample_request_def)
  with s show ?thesis by blast
qed

end
