(* ===== verification/Rendezvous_Broker.thy ===== *)
theory Rendezvous_Broker
  imports Candidate_Wire Contracts Hash_Map
begin

text \<open>
  The rendezvous broker: \<open>src/crates/rendezvous/src/lib.rs\<close>. Two authenticated devices that name
  each other and the same match identifier exchange their registrations; each offer is delivered to
  the device it names and to nobody else. The caller's device is what the transport authenticated.
\<close>

section \<open>The broker\<close>

type_synonym device_id = bytes

datatype rendezvous_error = InvalidLimits | InvalidDeviceId | InvalidRegistration protocol_error
  | SelfMatch | BrReplay | PeerMismatch | RoleMismatch | GenerationMismatch | BrCapacity
  | DeviceCapacity | BrTimeOverflow | DeliveryUnavailable

definition new_device_id :: "bytes \<Rightarrow> rendezvous_error + device_id" where
  "new_device_id fingerprint =
     (if fingerprint = replicate 32 0 then Err InvalidDeviceId else Ok fingerprint)"

record rendezvous_limits =
  rl_max_pending :: nat
  rl_max_pending_per_device :: nat
  rl_max_successful_registrations :: nat
  rl_max_matches :: nat

definition default_limits :: rendezvous_limits where
  "default_limits = \<lparr>rl_max_pending = 1024, rl_max_pending_per_device = 4,
     rl_max_successful_registrations = 64, rl_max_matches = 32\<rparr>"

definition validate_limits :: "rendezvous_limits \<Rightarrow> rendezvous_error + rendezvous_limits" where
  "validate_limits l =
     (if \<not> (1 \<le> rl_max_pending l \<and> rl_max_pending l \<le> 4096)
         \<or> \<not> (1 \<le> rl_max_pending_per_device l \<and> rl_max_pending_per_device l \<le> 16)
         \<or> \<not> (2 \<le> rl_max_successful_registrations l \<and> rl_max_successful_registrations l \<le> 64)
         \<or> \<not> (1 \<le> rl_max_matches l \<and> rl_max_matches l \<le> 32)
         \<or> rl_max_pending_per_device l > rl_max_pending l
         \<or> rl_max_matches l * 2 > rl_max_successful_registrations l
      then Err InvalidLimits else Ok l)"

record rendezvous_delivery =
  rd_peer :: device_id
  rd_registration :: rendezvous_registration

datatype register_outcome = Waiting u64 | Matched rendezvous_delivery

record pending_registration =
  pn_device :: device_id
  pn_registration :: rendezvous_registration
  pn_expires_at :: u64

record stored_delivery =
  sd_delivery :: rendezvous_delivery
  sd_expires_at :: u64

record rendezvous_broker =
  rb_limits :: rendezvous_limits
  rb_pending :: "(bytes, pending_registration) hash_map"
  rb_deliveries :: "(device_id \<times> bytes, stored_delivery) hash_map"
  rb_reserved :: "(bytes, u64) hash_map"
  rb_completed :: "(bytes, u64) hash_map"
  rb_successful_registrations :: nat
  rb_matches :: nat

definition new_broker :: "rendezvous_limits \<Rightarrow> rendezvous_error + rendezvous_broker" where
  "new_broker limits = and_then (validate_limits limits) (\<lambda>limits.
     Ok \<lparr>rb_limits = limits, rb_pending = [], rb_deliveries = [], rb_reserved = [], rb_completed = [],
        rb_successful_registrations = 0, rb_matches = 0\<rparr>)"

definition release_registrations :: "rendezvous_broker \<Rightarrow> nat \<Rightarrow> rendezvous_broker \<times> nat" where
  "release_registrations b requested =
     (let released = min requested (rb_successful_registrations b) in
      (b\<lparr>rb_successful_registrations := rb_successful_registrations b - released\<rparr>, released))"

abbreviation replay_until :: "u64 \<Rightarrow> u64" where
  "replay_until now \<equiv> saturating_add now (ucast MAX_TTL_SECONDS)"

fun expire_pending :: "u64 \<Rightarrow> rendezvous_broker \<Rightarrow> bytes list \<Rightarrow> rendezvous_broker \<times> nat" where
  "expire_pending now b [] = (b, 0)"
| "expire_pending now b (match_id # ids) =
     (let b = b\<lparr>rb_pending := hm_remove match_id (rb_pending b),
                rb_completed := hm_insert match_id (replay_until now) (rb_completed b)\<rparr>;
          (b, n) = release_registrations b 1;
          (b, m) = expire_pending now b ids in (b, n + m))"

fun expire_reserved :: "u64 \<Rightarrow> rendezvous_broker \<Rightarrow> bytes list \<Rightarrow> rendezvous_broker \<times> nat" where
  "expire_reserved now b [] = (b, 0)"
| "expire_reserved now b (match_id # ids) =
     (let b = b\<lparr>rb_reserved := hm_remove match_id (rb_reserved b),
                rb_deliveries := hm_retain (\<lambda>(_, i) _. i \<noteq> match_id) (rb_deliveries b),
                rb_completed := hm_insert match_id (replay_until now) (rb_completed b)\<rparr>;
          (b, n) = release_registrations b 2;
          (b, m) = expire_reserved now b ids in (b, n + m))"

definition broker_cleanup :: "rendezvous_broker \<Rightarrow> u64 \<Rightarrow> rendezvous_broker \<times> nat" where
  "broker_cleanup b now =
     (let (b, n) = expire_pending now b
            (map fst (hm_retain (\<lambda>_ p. pn_expires_at p \<le> now) (rb_pending b)));
          b = b\<lparr>rb_deliveries := hm_retain (\<lambda>_ d. sd_expires_at d > now) (rb_deliveries b)\<rparr>;
          (b, m) = expire_reserved now b (map fst (hm_retain (\<lambda>_ e. e \<le> now) (rb_reserved b)));
          b = b\<lparr>rb_completed := hm_retain (\<lambda>_ e. e > now) (rb_completed b)\<rparr>
      in (b, n + m))"

definition check_reciprocal :: "pending_registration \<Rightarrow> device_id \<Rightarrow> rendezvous_registration
    \<Rightarrow> rendezvous_error + unit" where
  "check_reciprocal waiting device registration =
     (if pn_device waiting = device then Err BrReplay
      else if rr_expected_peer_fingerprint (pn_registration waiting) \<noteq> device
         \<or> rr_expected_peer_fingerprint registration \<noteq> pn_device waiting then Err PeerMismatch
      else if rr_role (pn_registration waiting) = rr_role registration then Err RoleMismatch
      else if rr_generation (pn_registration waiting) \<noteq> rr_generation registration
         \<or> ce_exchange_id (rr_credentials (pn_registration waiting)) \<noteq> ce_exchange_id (rr_credentials registration)
        then Err GenerationMismatch
      else Ok ())"

definition register :: "rendezvous_broker \<Rightarrow> device_id \<Rightarrow> rendezvous_registration \<Rightarrow> u64
    \<Rightarrow> rendezvous_broker \<times> (rendezvous_error + register_outcome)" where
  "register b device registration now =
     (let b = fst (broker_cleanup b now); limits = rb_limits b; match_id = rr_match_id registration in
      case encode_registration registration of
        Inl e \<Rightarrow> (b, Err (InvalidRegistration e))
      | Inr _ \<Rightarrow>
      if rr_expected_peer_fingerprint registration = device then (b, Err SelfMatch)
      else if hm_contains (rb_completed b) match_id \<or> hm_contains (rb_reserved b) match_id
         \<or> hm_contains (rb_deliveries b) (device, match_id) then (b, Err BrReplay)
      else case checked_add now (ucast (rr_ttl_seconds registration)) of
        None \<Rightarrow> (b, Err BrTimeOverflow)
      | Some expires_at \<Rightarrow>
      if rb_successful_registrations b \<ge> rl_max_successful_registrations limits then (b, Err BrCapacity)
      else case hm_get (rb_pending b) match_id of
        Some waiting \<Rightarrow> (case check_reciprocal waiting device registration of
            Inl e \<Rightarrow> (b, Err e)
          | Inr _ \<Rightarrow>
              if length (rb_deliveries b) \<ge> rl_max_pending limits
                 \<or> length (rb_completed b) \<ge> rl_max_pending limits * 4
                 \<or> rb_matches b + length (rb_reserved b) \<ge> rl_max_matches limits then (b, Err BrCapacity)
              else let delivery_expiry = min (pn_expires_at waiting) expires_at in
                (b\<lparr>rb_pending := hm_remove match_id (rb_pending b),
                   rb_deliveries := hm_insert (pn_device waiting, match_id)
                     \<lparr>sd_delivery = \<lparr>rd_peer = device, rd_registration = registration\<rparr>,
                      sd_expires_at = delivery_expiry\<rparr> (rb_deliveries b),
                   rb_reserved := hm_insert match_id delivery_expiry (rb_reserved b),
                   rb_successful_registrations := rb_successful_registrations b + 1\<rparr>,
                 Ok (Matched \<lparr>rd_peer = pn_device waiting, rd_registration = pn_registration waiting\<rparr>)))
      | None \<Rightarrow>
          if length (rb_pending b) \<ge> rl_max_pending limits
             \<or> length (rb_completed b) \<ge> rl_max_pending limits * 4 then (b, Err BrCapacity)
          else if length (filter (\<lambda>(_, p). pn_device p = device) (rb_pending b))
             \<ge> rl_max_pending_per_device limits then (b, Err DeviceCapacity)
          else (b\<lparr>rb_pending := hm_insert match_id \<lparr>pn_device = device, pn_registration = registration,
                     pn_expires_at = expires_at\<rparr> (rb_pending b),
                  rb_successful_registrations := rb_successful_registrations b + 1\<rparr>,
                Ok (Waiting expires_at)))"

definition take_delivery :: "rendezvous_broker \<Rightarrow> device_id \<Rightarrow> bytes \<Rightarrow> u64
    \<Rightarrow> rendezvous_broker \<times> (rendezvous_error + rendezvous_delivery)" where
  "take_delivery b device match_id now =
     (let b = fst (broker_cleanup b now) in
      case hm_get (rb_deliveries b) (device, match_id) of
        None \<Rightarrow> (b, Err DeliveryUnavailable)
      | Some stored \<Rightarrow> (b\<lparr>rb_deliveries := hm_remove (device, match_id) (rb_deliveries b)\<rparr>,
          Ok (sd_delivery stored)))"

definition confirm_match :: "rendezvous_broker \<Rightarrow> bytes \<Rightarrow> u64
    \<Rightarrow> rendezvous_broker \<times> (rendezvous_error + unit)" where
  "confirm_match b match_id now = (case hm_get (rb_reserved b) match_id of
     None \<Rightarrow> (b, Err DeliveryUnavailable)
   | Some expires_at \<Rightarrow>
       if expires_at \<le> now then (b, Err DeliveryUnavailable)
       else (b\<lparr>rb_reserved := hm_remove match_id (rb_reserved b),
               rb_completed := hm_insert match_id expires_at (rb_completed b),
               rb_matches := rb_matches b + 1\<rparr>, Ok ()))"

definition abort_match :: "rendezvous_broker \<Rightarrow> bytes \<Rightarrow> u64 \<Rightarrow> rendezvous_broker \<times> nat" where
  "abort_match b match_id now =
     (let (b, released) = (if hm_contains (rb_reserved b) match_id
             then release_registrations (b\<lparr>rb_reserved := hm_remove match_id (rb_reserved b)\<rparr>) 2 else (b, 0)) in
      (b\<lparr>rb_deliveries := hm_retain (\<lambda>(_, i) _. i \<noteq> match_id) (rb_deliveries b),
         rb_completed := hm_insert match_id (replay_until now) (rb_completed b)\<rparr>, released))"

definition cancel_waiting :: "rendezvous_broker \<Rightarrow> device_id \<Rightarrow> bytes \<Rightarrow> u64 \<Rightarrow> rendezvous_broker \<times> nat" where
  "cancel_waiting b device match_id now =
     (if is_some_and (hm_get (rb_pending b) match_id) (\<lambda>p. pn_device p = device)
      then release_registrations (b\<lparr>rb_pending := hm_remove match_id (rb_pending b),
             rb_completed := hm_insert match_id (replay_until now) (rb_completed b)\<rparr>) 1
      else (b, 0))"

section \<open>Histories\<close>

datatype broker_cmd =
  Register device_id rendezvous_registration u64
| TakeDelivery device_id bytes u64
| ConfirmMatch bytes u64
| AbortMatch bytes u64
| CancelWaiting device_id bytes u64
| BrokerCleanup u64

datatype broker_reply =
  RegisterReply "rendezvous_error + register_outcome"
| DeliveryReply "rendezvous_error + rendezvous_delivery"
| ConfirmReply "rendezvous_error + unit"
| ReleasedReply nat

fun broker_step :: "rendezvous_broker \<Rightarrow> broker_cmd \<Rightarrow> rendezvous_broker \<times> broker_reply" where
  "broker_step b (Register d r now) = map_prod id RegisterReply (register b d r now)"
| "broker_step b (TakeDelivery d i now) = map_prod id DeliveryReply (take_delivery b d i now)"
| "broker_step b (ConfirmMatch i now) = map_prod id ConfirmReply (confirm_match b i now)"
| "broker_step b (AbortMatch i now) = map_prod id ReleasedReply (abort_match b i now)"
| "broker_step b (CancelWaiting d i now) = map_prod id ReleasedReply (cancel_waiting b d i now)"
| "broker_step b (BrokerCleanup now) = map_prod id ReleasedReply (broker_cleanup b now)"

section \<open>Accounting\<close>

text \<open>
  Every registration that counts against the limit is waiting, half of a reservation or half of a
  match, so releasing never runs out; the maps are well formed and within their limits.
\<close>

definition device_pending :: "rendezvous_broker \<Rightarrow> device_id \<Rightarrow> nat" where
  "device_pending b d = length (filter (\<lambda>(_, p). pn_device p = d) (rb_pending b))"

lemma device_pending_update [simp]:
  "device_pending (b\<lparr>rb_deliveries := ds\<rparr>) = device_pending b"
  "device_pending (b\<lparr>rb_reserved := rs\<rparr>) = device_pending b"
  "device_pending (b\<lparr>rb_completed := cs\<rparr>) = device_pending b"
  "device_pending (b\<lparr>rb_successful_registrations := n\<rparr>) = device_pending b"
  "device_pending (b\<lparr>rb_matches := n\<rparr>) = device_pending b"
  by (simp_all add: device_pending_def fun_eq_iff)

definition broker_inv :: "rendezvous_broker \<Rightarrow> bool" where
  "broker_inv b \<longleftrightarrow> hm_ok (rb_pending b) \<and> hm_ok (rb_deliveries b) \<and> hm_ok (rb_reserved b) \<and> hm_ok (rb_completed b)
     \<and> rb_successful_registrations b = length (rb_pending b) + 2 * length (rb_reserved b) + 2 * rb_matches b
     \<and> rb_successful_registrations b \<le> rl_max_successful_registrations (rb_limits b)
     \<and> length (rb_pending b) \<le> rl_max_pending (rb_limits b)
     \<and> (\<forall>d. device_pending b d \<le> rl_max_pending_per_device (rb_limits b))
     \<and> length (rb_reserved b) + rb_matches b \<le> rl_max_matches (rb_limits b)
     \<and> length (rb_deliveries b) \<le> rl_max_pending (rb_limits b)"

definition unpend :: "u64 \<Rightarrow> rendezvous_broker \<Rightarrow> bytes \<Rightarrow> rendezvous_broker" where
  "unpend t b i = b\<lparr>rb_pending := hm_remove i (rb_pending b), rb_completed := hm_insert i t (rb_completed b),
     rb_successful_registrations := rb_successful_registrations b - 1\<rparr>"

definition unreserve :: "u64 \<Rightarrow> rendezvous_broker \<Rightarrow> bytes \<Rightarrow> rendezvous_broker" where
  "unreserve t b i = b\<lparr>rb_reserved := hm_remove i (rb_reserved b),
     rb_deliveries := hm_retain (\<lambda>(_, j) _. j \<noteq> i) (rb_deliveries b),
     rb_completed := hm_insert i t (rb_completed b),
     rb_successful_registrations := rb_successful_registrations b - 2\<rparr>"

lemma length_filter_remove: "length (filter p (hm_remove k m)) \<le> length (filter p m)"
  by (induction m) (auto intro: le_SucI)

lemma broker_inv_unpend: "broker_inv b \<Longrightarrow> hm_contains (rb_pending b) i \<Longrightarrow> broker_inv (unpend t b i)"
proof -
  assume b: "broker_inv b" and i: "hm_contains (rb_pending b) i"
  then have "length (hm_remove i (rb_pending b)) + 1 = length (rb_pending b)"
    by (intro hm_length_remove) (auto simp: broker_inv_def)
  moreover have "device_pending (unpend t b i) d \<le> device_pending b d" for d
    using length_filter_remove [of "\<lambda>(_, p). pn_device p = d" i "rb_pending b"]
    by (simp add: device_pending_def unpend_def)
  ultimately show ?thesis
    using b by (auto simp: broker_inv_def unpend_def intro: order_trans)
qed

lemma broker_inv_unreserve: "broker_inv b \<Longrightarrow> hm_contains (rb_reserved b) i \<Longrightarrow> broker_inv (unreserve t b i)"
proof -
  assume b: "broker_inv b" and i: "hm_contains (rb_reserved b) i"
  then have "length (rb_reserved b) = length (hm_remove i (rb_reserved b)) + 1"
    using hm_length_remove [of "rb_reserved b" i] by (simp add: broker_inv_def)
  then show ?thesis
    using b order_trans [OF length_filter_le [of "\<lambda>((_, j), _). j \<noteq> i" "rb_deliveries b"]] by (simp add: broker_inv_def unreserve_def)
qed

lemma expire_pending_step:
  assumes "broker_inv b" "hm_contains (rb_pending b) i"
  shows "expire_pending now b (i # ids) =
    map_prod id Suc (expire_pending now (unpend (replay_until now) b i) ids)"
proof -
  have "1 \<le> rb_successful_registrations b"
    using assms by (cases "rb_pending b") (auto simp: broker_inv_def)
  then show ?thesis
    by (simp add: release_registrations_def Let_def unpend_def min_def split: prod.split)
qed

lemma expire_reserved_step:
  assumes "broker_inv b" "hm_contains (rb_reserved b) i"
  shows "expire_reserved now b (i # ids) =
    map_prod id (\<lambda>n. n + 2) (expire_reserved now (unreserve (replay_until now) b i) ids)"
proof -
  have "2 \<le> rb_successful_registrations b"
    using assms by (cases "rb_reserved b") (auto simp: broker_inv_def)
  then show ?thesis
    by (simp add: release_registrations_def Let_def unreserve_def min_def split: prod.split)
qed

definition pending_subset :: "rendezvous_broker \<Rightarrow> rendezvous_broker \<Rightarrow> bool" where
  "pending_subset b b' \<longleftrightarrow> set (rb_pending b') \<subseteq> set (rb_pending b) \<and> set (rb_deliveries b') \<subseteq> set (rb_deliveries b)
     \<and> rb_limits b' = rb_limits b"

lemma expire_pending_result:
  "broker_inv b \<Longrightarrow> set ids \<subseteq> fst ` set (rb_pending b) \<Longrightarrow> distinct ids \<Longrightarrow>
   broker_inv (fst (expire_pending now b ids)) \<and> pending_subset b (fst (expire_pending now b ids))
   \<and> fst ` set (rb_pending (fst (expire_pending now b ids))) = fst ` set (rb_pending b) - set ids
   \<and> rb_reserved (fst (expire_pending now b ids)) = rb_reserved b"
proof (induction ids arbitrary: b)
  case Nil
  then show ?case by (simp add: pending_subset_def)
next
  case (Cons i ids)
  let ?b = "unpend (replay_until now) b i"
  have i: "hm_contains (rb_pending b) i" using Cons.prems(2) by simp
  have keys: "fst ` set (rb_pending ?b) = fst ` set (rb_pending b) - {i}" by (simp add: unpend_def)
  have "set ids \<subseteq> fst ` set (rb_pending ?b)"
    using Cons.prems(2,3) by (auto simp: keys simp del: hm_keys_remove)
  note ih = Cons.IH [OF broker_inv_unpend [OF Cons.prems(1) i] this]
  have "pending_subset b ?b"
    by (auto simp: pending_subset_def unpend_def hm_mem_remove)
  with ih Cons.prems(3) keys show ?case
    unfolding expire_pending_step [OF Cons.prems(1) i]
    by (auto simp: pending_subset_def unpend_def)
qed

lemma expire_reserved_result:
  "broker_inv b \<Longrightarrow> set ids \<subseteq> fst ` set (rb_reserved b) \<Longrightarrow> distinct ids \<Longrightarrow>
   broker_inv (fst (expire_reserved now b ids)) \<and> pending_subset b (fst (expire_reserved now b ids))
   \<and> rb_pending (fst (expire_reserved now b ids)) = rb_pending b"
proof (induction ids arbitrary: b)
  case Nil
  then show ?case by (simp add: pending_subset_def)
next
  case (Cons i ids)
  let ?b = "unreserve (replay_until now) b i"
  have i: "hm_contains (rb_reserved b) i" using Cons.prems(2) by simp
  have "set ids \<subseteq> fst ` set (rb_reserved ?b)"
    using Cons.prems(2,3) by (auto simp: unreserve_def)
  note ih = Cons.IH [OF broker_inv_unreserve [OF Cons.prems(1) i] this]
  have "pending_subset b ?b"
    by (auto simp: pending_subset_def unreserve_def)
  with ih Cons.prems(3) show ?case
    unfolding expire_reserved_step [OF Cons.prems(1) i]
    by (auto simp: pending_subset_def unreserve_def)
qed

lemma hm_retain_keys: "set (map fst (filter p m)) \<subseteq> fst ` set m"
  by auto

lemma hm_retain_distinct: "hm_ok m \<Longrightarrow> distinct (map fst (filter p m))"
  using hm_ok_filter [of m p] by (simp add: hm_ok_def)

lemma broker_inv_fewer_deliveries:
  "broker_inv b \<Longrightarrow> broker_inv (b\<lparr>rb_deliveries := filter p (rb_deliveries b), rb_completed := filter q (rb_completed b)\<rparr>)"
  using order_trans [OF length_filter_le [of p "rb_deliveries b"]]
  by (simp add: broker_inv_def device_pending_def)

lemma broker_cleanup_result:
  fixes now
  assumes b: "broker_inv b"
  defines "c \<equiv> fst (broker_cleanup b now)"
  shows "broker_inv c" "pending_subset b c"
    and "(i, p) \<in> set (rb_pending c) \<Longrightarrow> now < pn_expires_at p"
    and "(k, s) \<in> set (rb_deliveries c) \<Longrightarrow> now < sd_expires_at s"
proof -
  let ?ids = "map fst (hm_retain (\<lambda>_ p. pn_expires_at p \<le> now) (rb_pending b))"
  define b1 where "b1 = fst (expire_pending now b ?ids)"
  have ok: "hm_ok (rb_pending b)" using b by (simp add: broker_inv_def)
  have r1: "broker_inv b1 \<and> pending_subset b b1 \<and> fst ` set (rb_pending b1) = fst ` set (rb_pending b) - set ?ids"
    using expire_pending_result [OF b hm_retain_keys hm_retain_distinct [OF ok]] unfolding b1_def by blast
  define b2 where "b2 = b1\<lparr>rb_deliveries := hm_retain (\<lambda>_ d. sd_expires_at d > now) (rb_deliveries b1)\<rparr>"
  have b2: "broker_inv b2"
    using broker_inv_fewer_deliveries [of b1 "\<lambda>_. True" "\<lambda>(_, d). sd_expires_at d > now"] r1
    by (simp add: b2_def)
  define b3 where "b3 = fst (expire_reserved now b2 (map fst (hm_retain (\<lambda>_ e. e \<le> now) (rb_reserved b2))))"
  have r3: "broker_inv b3 \<and> pending_subset b2 b3 \<and> rb_pending b3 = rb_pending b2"
    unfolding b3_def using b2
    by (intro expire_reserved_result hm_retain_keys hm_retain_distinct) (simp_all add: broker_inv_def)
  have c: "c = b3\<lparr>rb_completed := hm_retain (\<lambda>_ e. e > now) (rb_completed b3)\<rparr>"
    by (simp add: c_def broker_cleanup_def b3_def b2_def b1_def Let_def split_beta)
  show "broker_inv c"
    using broker_inv_fewer_deliveries [of b3 "\<lambda>(_, e). e > now" "\<lambda>_. True"] r3 by (simp add: c)
  show "pending_subset b c"
    using r1 r3 by (auto simp: pending_subset_def c b2_def)
  show "now < sd_expires_at s" if "(k, s) \<in> set (rb_deliveries c)"
    using that r3 by (auto simp: c pending_subset_def b2_def)
  show "now < pn_expires_at p" if "(i, p) \<in> set (rb_pending c)"
  proof (rule ccontr)
    assume "\<not> now < pn_expires_at p"
    moreover have "(i, p) \<in> set (rb_pending b1)"
      using that r3 by (simp add: c b2_def)
    moreover from this have "(i, p) \<in> set (rb_pending b)"
      using r1 by (auto simp: pending_subset_def)
    ultimately have "i \<in> set ?ids" "i \<in> fst ` set (rb_pending b1)"
      by (force, force)
    with r1 show False by auto
  qed
qed

lemma register_cases:
  fixes b d r now
  defines "c \<equiv> fst (broker_cleanup b now)" and "i \<equiv> rr_match_id r"
  obtains (rejected) e where "register b d r now = (c, Err e)"
  | (waiting) expires where "checked_add now (ucast (rr_ttl_seconds r)) = Some expires"
      "hm_get (rb_pending c) i = None" "length (rb_pending c) < rl_max_pending (rb_limits c)"
      "rb_successful_registrations c < rl_max_successful_registrations (rb_limits c)"
      "device_pending c d < rl_max_pending_per_device (rb_limits c)"
      "register b d r now = (c\<lparr>rb_pending := hm_insert i \<lparr>pn_device = d, pn_registration = r, pn_expires_at = expires\<rparr> (rb_pending c),
          rb_successful_registrations := rb_successful_registrations c + 1\<rparr>, Ok (Waiting expires))"
  | (matched) w expires where "checked_add now (ucast (rr_ttl_seconds r)) = Some expires"
      "hm_get (rb_pending c) i = Some w" "check_reciprocal w d r = Ok ()"
      "rb_successful_registrations c < rl_max_successful_registrations (rb_limits c)"
      "length (rb_deliveries c) < rl_max_pending (rb_limits c)" "\<not> hm_contains (rb_reserved c) i"
      "rb_matches c + length (rb_reserved c) < rl_max_matches (rb_limits c)"
      "register b d r now = (c\<lparr>rb_pending := hm_remove i (rb_pending c),
          rb_deliveries := hm_insert (pn_device w, i)
            \<lparr>sd_delivery = \<lparr>rd_peer = d, rd_registration = r\<rparr>, sd_expires_at = min (pn_expires_at w) expires\<rparr> (rb_deliveries c),
          rb_reserved := hm_insert i (min (pn_expires_at w) expires) (rb_reserved c),
          rb_successful_registrations := rb_successful_registrations c + 1\<rparr>,
        Ok (Matched \<lparr>rd_peer = pn_device w, rd_registration = pn_registration w\<rparr>))"
proof -
  note reg = register_def [of b d r now, folded c_def i_def, unfolded Let_def, folded c_def i_def]
  consider e where "encode_registration r = Inl e"
    | u where "encode_registration r = Inr u" "rr_expected_peer_fingerprint r = d"
    | u where "encode_registration r = Inr u" "rr_expected_peer_fingerprint r \<noteq> d"
      "hm_contains (rb_completed c) i \<or> hm_contains (rb_reserved c) i \<or> hm_contains (rb_deliveries c) (d, i)"
    | u where "encode_registration r = Inr u" "rr_expected_peer_fingerprint r \<noteq> d"
      "\<not> (hm_contains (rb_completed c) i \<or> hm_contains (rb_reserved c) i \<or> hm_contains (rb_deliveries c) (d, i))"
      "checked_add now (ucast (rr_ttl_seconds r)) = None"
    | u expires where "encode_registration r = Inr u" "rr_expected_peer_fingerprint r \<noteq> d"
      "\<not> (hm_contains (rb_completed c) i \<or> hm_contains (rb_reserved c) i \<or> hm_contains (rb_deliveries c) (d, i))"
      "checked_add now (ucast (rr_ttl_seconds r)) = Some expires" "rl_max_successful_registrations (rb_limits c) \<le> rb_successful_registrations c"
    | (admitted) u expires where "encode_registration r = Inr u" "rr_expected_peer_fingerprint r \<noteq> d"
      "\<not> (hm_contains (rb_completed c) i \<or> hm_contains (rb_reserved c) i \<or> hm_contains (rb_deliveries c) (d, i))"
      "checked_add now (ucast (rr_ttl_seconds r)) = Some expires" "\<not> rl_max_successful_registrations (rb_limits c) \<le> rb_successful_registrations c"
    by (cases "encode_registration r"; cases "checked_add now (ucast (rr_ttl_seconds r))") blast+
  then show thesis
  proof cases
    case admitted
    note reg' = reg [unfolded admitted(1,4) sum.case option.case if_not_P [OF admitted(2)]
        if_not_P [OF admitted(3)] if_not_P [OF admitted(5)]]
    show thesis
    proof (cases "hm_get (rb_pending c) i")
      case None
      show thesis
      proof (cases "rl_max_pending (rb_limits c) \<le> length (rb_pending c)
          \<or> rl_max_pending (rb_limits c) * 4 \<le> length (rb_completed c)")
        case True
        with None show thesis using rejected [of BrCapacity] by (simp add: reg')
      next
        case False
        with None show thesis
          using rejected [of DeviceCapacity] waiting [OF admitted(4) None] admitted(5)
          by (cases "device_pending c d < rl_max_pending_per_device (rb_limits c)")
            (simp_all add: reg' device_pending_def not_le)
      qed
    next
      case (Some w)
      note reg'' = reg' [unfolded Some option.case]
      show thesis
      proof (cases "check_reciprocal w d r")
        case (Inl e)
        then show thesis using rejected [of e] by (simp add: reg'')
      next
        case (Inr u)
        then show thesis
          using rejected [of BrCapacity] matched [OF admitted(4) Some] admitted(3,5)
          by (cases "length (rb_deliveries c) < rl_max_pending (rb_limits c)
              \<and> length (rb_completed c) < rl_max_pending (rb_limits c) * 4
              \<and> rb_matches c + length (rb_reserved c) < rl_max_matches (rb_limits c)")
            (simp_all add: reg'' Let_def not_le)
      qed
    qed
  qed (rule rejected, simp add: reg)+
qed

lemma device_pending_insert:
  "\<not> hm_contains m k \<Longrightarrow> device_pending (b\<lparr>rb_pending := hm_insert k v m\<rparr>) d
     = device_pending (b\<lparr>rb_pending := m\<rparr>) d + (if pn_device v = d then 1 else 0)"
  by (simp add: device_pending_def hm_length_filter_insert)

lemma broker_inv_register:
  assumes "broker_inv b"
  shows "broker_inv (fst (register b d r now))"
proof -
  note c = broker_cleanup_result(1) [OF assms, of now]
  show ?thesis
  proof (cases rule: register_cases [of b d r now])
    case (rejected e)
    with c show ?thesis by simp
  next
    case (waiting expires)
    let ?c = "fst (broker_cleanup b now)"
    have new: "\<not> hm_contains (rb_pending ?c) (rr_match_id r)"
      using waiting(2) by (simp add: map_of_eq_None_iff)
    show ?thesis
      unfolding waiting(6) using waiting(3-5) new c
      by (auto simp: broker_inv_def hm_length_insert_new device_pending_insert less_eq_Suc_le)
  next
    case (matched w expires)
    let ?c = "fst (broker_cleanup b now)" and ?i = "rr_match_id r"
    have i: "hm_contains (rb_pending ?c) ?i"
      using matched(2) by (auto dest: hm_get_mem simp: rev_image_eqI)
    have ok: "hm_ok (rb_pending ?c)" using c by (simp add: broker_inv_def)
    have "device_pending (?c\<lparr>rb_pending := hm_remove ?i (rb_pending ?c)\<rparr>) d \<le> device_pending ?c d" for d
      by (simp add: device_pending_def length_filter_remove)
    then have "device_pending (?c\<lparr>rb_pending := hm_remove ?i (rb_pending ?c)\<rparr>) d
        \<le> rl_max_pending_per_device (rb_limits ?c)" for d
      using c by (meson broker_inv_def order_trans)
    moreover note hm_length_remove [OF ok i]
    ultimately show ?thesis
      unfolding matched(8) using matched(4-7) c
      by (auto simp: broker_inv_def hm_length_insert_new less_eq_Suc_le intro: order_trans [OF hm_length_insert_le])
  qed
qed

lemma broker_inv_take_delivery:
  assumes "broker_inv b"
  shows "broker_inv (fst (take_delivery b d i now))"
proof -
  have "length (hm_remove k m) \<le> length m" for k :: "device_id \<times> bytes" and m :: "(_, stored_delivery) hash_map"
    by (rule length_delete_le)
  then show ?thesis
    using broker_cleanup_result(1) [OF assms, of now]
    by (auto simp: take_delivery_def Let_def broker_inv_def split: option.split intro: order_trans)
qed

lemma broker_inv_confirm_match:
  assumes "broker_inv b"
  shows "broker_inv (fst (confirm_match b i now))"
proof (cases "hm_get (rb_reserved b) i")
  case (Some e)
  then have "length (hm_remove i (rb_reserved b)) + 1 = length (rb_reserved b)"
    using assms hm_get_mem [OF Some] by (intro hm_length_remove) (auto simp: broker_inv_def rev_image_eqI)
  with assms Some show ?thesis by (auto simp: confirm_match_def broker_inv_def)
qed (use assms in \<open>simp add: confirm_match_def\<close>)

lemma broker_inv_abort_match:
  assumes "broker_inv b"
  shows "broker_inv (fst (abort_match b i now))"
proof (cases "hm_contains (rb_reserved b) i")
  case True
  have "2 \<le> rb_successful_registrations b"
    using assms True by (cases "rb_reserved b") (auto simp: broker_inv_def)
  then have "fst (abort_match b i now) = unreserve (replay_until now) b i"
    using True by (simp add: abort_match_def release_registrations_def unreserve_def min_def)
  then show ?thesis using broker_inv_unreserve [OF assms True] by simp
next
  case False
  then show ?thesis
    using assms order_trans [OF length_filter_le [of "\<lambda>((_, j), _). j \<noteq> i" "rb_deliveries b"]]
    by (simp add: abort_match_def broker_inv_def)
qed

lemma broker_inv_cancel_waiting:
  assumes "broker_inv b"
  shows "broker_inv (fst (cancel_waiting b d i now))"
proof (cases "is_some_and (hm_get (rb_pending b) i) (\<lambda>p. pn_device p = d)")
  case True
  then have i: "hm_contains (rb_pending b) i"
    by (cases "hm_get (rb_pending b) i") (auto simp: hm_contains_iff)
  have "1 \<le> rb_successful_registrations b"
    using assms i by (cases "rb_pending b") (auto simp: broker_inv_def)
  then have "fst (cancel_waiting b d i now) = unpend (replay_until now) b i"
    using True by (simp add: cancel_waiting_def release_registrations_def unpend_def min_def)
  then show ?thesis using broker_inv_unpend [OF assms i] by simp
qed (use assms in \<open>simp add: cancel_waiting_def\<close>)

interpretation broker: machine_invariant broker_step broker_inv
proof
  show "broker_inv (fst (broker_step b c))" if "broker_inv b" for b c
    using that broker_inv_register broker_inv_take_delivery broker_inv_confirm_match
      broker_inv_abort_match broker_inv_cancel_waiting broker_cleanup_result(1)
    by (cases c) simp_all
qed

section \<open>Who receives an offer\<close>

text \<open>
  \<open>reciprocal d r d' r'\<close>: the registrations \<open>r\<close> of \<open>d\<close> and \<open>r'\<close> of \<open>d'\<close> belong to one match. An
  offer the broker holds or hands out is explained by the two registrations that made the match, in
  their order.
\<close>

definition reciprocal :: "device_id \<Rightarrow> rendezvous_registration \<Rightarrow> device_id \<Rightarrow> rendezvous_registration \<Rightarrow> bool" where
  "reciprocal d r d' r' \<longleftrightarrow> d \<noteq> d' \<and> rr_match_id r = rr_match_id r'
     \<and> rr_expected_peer_fingerprint r = d' \<and> rr_expected_peer_fingerprint r' = d
     \<and> rr_role r \<noteq> rr_role r' \<and> rr_generation r = rr_generation r'
     \<and> ce_exchange_id (rr_credentials r) = ce_exchange_id (rr_credentials r')"

abbreviation waits :: "device_id \<Rightarrow> rendezvous_registration \<Rightarrow> u64 \<Rightarrow> u64 \<Rightarrow> broker_cmd \<times> broker_reply" where
  "waits d r t e \<equiv> (Register d r t, RegisterReply (Ok (Waiting e)))"

abbreviation matches_with :: "device_id \<Rightarrow> rendezvous_registration \<Rightarrow> u64 \<Rightarrow> device_id \<Rightarrow> rendezvous_registration
    \<Rightarrow> broker_cmd \<times> broker_reply" where
  "matches_with d r t d' r' \<equiv> (Register d r t, RegisterReply (Ok (Matched \<lparr>rd_peer = d', rd_registration = r'\<rparr>)))"

definition waiting_explained :: "(broker_cmd \<times> broker_reply) list \<Rightarrow> device_id \<Rightarrow> rendezvous_registration \<Rightarrow> u64 \<Rightarrow> bool" where
  "waiting_explained tr d r e \<longleftrightarrow>
     (\<exists>t. checked_add t (ucast (rr_ttl_seconds r)) = Some e \<and> subseq [waits d r t e] tr)"

definition delivery_explained :: "(broker_cmd \<times> broker_reply) list \<Rightarrow> device_id \<Rightarrow> bytes \<Rightarrow> stored_delivery \<Rightarrow> bool" where
  "delivery_explained tr d i s \<longleftrightarrow> (\<exists>r t e t' e'. let d' = rd_peer (sd_delivery s); r' = rd_registration (sd_delivery s) in
     reciprocal d r d' r' \<and> rr_match_id r' = i \<and> sd_expires_at s = min e e' \<and> t' < e
     \<and> checked_add t (ucast (rr_ttl_seconds r)) = Some e \<and> checked_add t' (ucast (rr_ttl_seconds r')) = Some e'
     \<and> subseq [waits d r t e, matches_with d' r' t' d r] tr)"

definition broker_explained :: "(broker_cmd \<times> broker_reply) list \<Rightarrow> rendezvous_broker \<Rightarrow> bool" where
  "broker_explained tr b \<longleftrightarrow>
     (\<forall>(i, p) \<in> set (rb_pending b). rr_match_id (pn_registration p) = i
        \<and> waiting_explained tr (pn_device p) (pn_registration p) (pn_expires_at p))
     \<and> (\<forall>((d, i), s) \<in> set (rb_deliveries b). delivery_explained tr d i s)"

lemma waiting_explained_mono: "waiting_explained tr d r e \<Longrightarrow> waiting_explained (tr @ [x]) d r e"
  unfolding waiting_explained_def by (blast intro: subseq_snoc_mono)

lemma delivery_explained_mono: "delivery_explained tr d i s \<Longrightarrow> delivery_explained (tr @ [x]) d i s"
  unfolding delivery_explained_def Let_def by (blast intro: subseq_snoc_mono)

lemma broker_explained_mono:
  assumes "broker_explained tr b" "pending_subset b b'"
  shows "broker_explained (tr @ [x]) b'"
  using assms unfolding broker_explained_def pending_subset_def
  by (fastforce intro: waiting_explained_mono delivery_explained_mono)

lemma broker_explained_subset: "broker_explained tr b \<Longrightarrow> pending_subset b b' \<Longrightarrow> broker_explained tr b'"
  unfolding broker_explained_def pending_subset_def by fast

lemma check_reciprocal_Ok:
  "check_reciprocal w d r = Ok u \<Longrightarrow> rr_match_id (pn_registration w) = rr_match_id r \<Longrightarrow>
   reciprocal (pn_device w) (pn_registration w) d r"
  by (auto simp: check_reciprocal_def reciprocal_def split: if_splits)

lemma register_matched_explained:
  assumes b: "broker_inv b" and ex: "broker_explained tr b"
    and m: "register b d r now = (b', Ok (Matched m))"
  obtains t e where "reciprocal (rd_peer m) (rd_registration m) d r" "now < e"
    "checked_add t (ucast (rr_ttl_seconds (rd_registration m))) = Some e"
    "subseq [waits (rd_peer m) (rd_registration m) t e] tr"
proof (cases rule: register_cases [of b d r now])
  case (matched w expires)
  let ?c = "fst (broker_cleanup b now)"
  have m_def: "m = \<lparr>rd_peer = pn_device w, rd_registration = pn_registration w\<rparr>" using m matched(8) by simp
  have mem: "(rr_match_id r, w) \<in> set (rb_pending ?c)" using matched(2) by (rule hm_get_mem)
  have "broker_explained tr ?c"
    using ex broker_cleanup_result(2) [OF b] by (rule broker_explained_subset)
  with mem have i: "rr_match_id (pn_registration w) = rr_match_id r"
    and "waiting_explained tr (pn_device w) (pn_registration w) (pn_expires_at w)"
    by (auto simp: broker_explained_def)
  moreover have "now < pn_expires_at w" using broker_cleanup_result(3) [OF b mem] .
  ultimately show thesis
    using that check_reciprocal_Ok [OF matched(3) i] by (auto simp: waiting_explained_def m_def)
qed (use m in simp_all)

lemma broker_explained_register:
  assumes b: "broker_inv b" and ex: "broker_explained tr b"
  shows "broker_explained (tr @ [(Register d r now, RegisterReply (snd (register b d r now)))]) (fst (register b d r now))"
proof -
  let ?c = "fst (broker_cleanup b now)" and ?i = "rr_match_id r"
  have c: "broker_explained (tr @ [x]) ?c" for x
    using ex broker_cleanup_result(2) [OF b] by (rule broker_explained_mono)
  show ?thesis
  proof (cases rule: register_cases [of b d r now])
    case (rejected e)
    with c show ?thesis by simp
  next
    case (waiting expires)
    then have "waiting_explained (tr @ [waits d r now expires]) d r expires"
      unfolding waiting_explained_def by (blast intro: subseq_snoc_single)
    with c [of "waits d r now expires"] show ?thesis
      unfolding waiting(6) by (auto simp: broker_explained_def dest!: hm_mem_insert)
  next
    case (matched w expires)
    let ?e = "matches_with d r now (pn_device w) (pn_registration w)"
    let ?s = "\<lparr>sd_delivery = \<lparr>rd_peer = d, rd_registration = r\<rparr>, sd_expires_at = min (pn_expires_at w) expires\<rparr>"
    have mem: "(?i, w) \<in> set (rb_pending ?c)" using matched(2) by (rule hm_get_mem)
    have "broker_explained tr ?c"
      using ex broker_cleanup_result(2) [OF b] by (rule broker_explained_subset)
    with mem have i: "rr_match_id (pn_registration w) = ?i"
      and "waiting_explained tr (pn_device w) (pn_registration w) (pn_expires_at w)"
      by (auto simp: broker_explained_def)
    then obtain t where "checked_add t (ucast (rr_ttl_seconds (pn_registration w))) = Some (pn_expires_at w)"
      "subseq [waits (pn_device w) (pn_registration w) t (pn_expires_at w)] tr"
      by (auto simp: waiting_explained_def)
    then have "delivery_explained (tr @ [?e]) (pn_device w) ?i ?s"
      unfolding delivery_explained_def Let_def
      using check_reciprocal_Ok [OF matched(3) i] matched(1) broker_cleanup_result(3) [OF b mem]
        subseq_snoc [of "[waits (pn_device w) (pn_registration w) t (pn_expires_at w)]" tr ?e]
      by (intro exI [of _ "pn_registration w"] exI [of _ t] exI [of _ "pn_expires_at w"] exI [of _ now]
          exI [of _ expires]) simp
    with c [of ?e] show ?thesis
      unfolding matched(8) by (auto simp: broker_explained_def hm_mem_remove dest!: hm_mem_insert)
  qed
qed

lemma pending_subset_take_delivery: "broker_inv b \<Longrightarrow> pending_subset b (fst (take_delivery b d i now))"
  using broker_cleanup_result(2) [of b now]
  by (auto simp: take_delivery_def Let_def pending_subset_def hm_mem_remove split: option.split)

lemma pending_subset_confirm_match: "pending_subset b (fst (confirm_match b i now))"
  by (auto simp: confirm_match_def pending_subset_def split: option.split)

lemma pending_subset_abort_match: "pending_subset b (fst (abort_match b i now))"
  by (auto simp: abort_match_def release_registrations_def Let_def pending_subset_def)

lemma pending_subset_cancel_waiting: "pending_subset b (fst (cancel_waiting b d i now))"
  by (auto simp: cancel_waiting_def release_registrations_def Let_def pending_subset_def hm_mem_remove)

interpretation broker_history: recorded_machine broker_step broker_inv broker_explained
proof
  show "broker_explained (tr @ [(c, snd (broker_step b c))]) (fst (broker_step b c))"
    if b: "broker_inv b" and ex: "broker_explained tr b" for b tr c
    using broker_explained_register [OF b ex] broker_explained_mono [OF ex] b
      pending_subset_take_delivery pending_subset_confirm_match pending_subset_abort_match
      pending_subset_cancel_waiting broker_cleanup_result(2)
    by (cases c) simp_all
qed

section \<open>Properties\<close>

lemma new_broker_Ok:
  "new_broker limits = Ok b \<Longrightarrow> b = \<lparr>rb_limits = limits, rb_pending = [], rb_deliveries = [], rb_reserved = [],
     rb_completed = [], rb_successful_registrations = 0, rb_matches = 0\<rparr> \<and> 1 \<le> rl_max_pending limits
     \<and> 1 \<le> rl_max_pending_per_device limits \<and> 2 \<le> rl_max_successful_registrations limits \<and> 1 \<le> rl_max_matches limits"
  by (auto simp: new_broker_def validate_limits_def split: if_splits)

lemma new_broker_inv: "new_broker limits = Ok b \<Longrightarrow> broker_inv b \<and> broker_explained [] b \<and> rb_limits b = limits"
  using new_broker_Ok [of limits b] by (auto simp: broker_inv_def broker_explained_def device_pending_def)

lemma broker_limits_step: "broker_inv b \<Longrightarrow> rb_limits (fst (broker_step b c)) = rb_limits b"
proof (cases c)
  case (Register d r now)
  moreover assume "broker_inv b"
  moreover from this have "rb_limits (fst (broker_cleanup b now)) = rb_limits b"
    using broker_cleanup_result(2) by (simp add: pending_subset_def)
  ultimately show ?thesis by (cases rule: register_cases [of b d r now]) simp_all
qed (use pending_subset_take_delivery pending_subset_confirm_match pending_subset_abort_match
      pending_subset_cancel_waiting broker_cleanup_result(2) in \<open>simp_all add: pending_subset_def\<close>)

interpretation broker_limits: machine_invariant broker_step "\<lambda>b. broker_inv b \<and> rb_limits b = l" for l
  by unfold_locales (simp add: broker.step_inv broker_limits_step)

text \<open>
  C18: after any history of calls, at any times and by any devices, every counted registration is
  waiting, or half of a reserved or of a confirmed match; so what is released was counted, and all
  four limits hold, per device too.
\<close>
theorem broker_accounts_registrations:
  assumes "new_broker limits = Ok b0"
  shows "let b = fst (run broker_step b0 cs) in
    rb_successful_registrations b = length (rb_pending b) + 2 * length (rb_reserved b) + 2 * rb_matches b
    \<and> rb_successful_registrations b \<le> rl_max_successful_registrations limits
    \<and> length (rb_pending b) \<le> rl_max_pending limits \<and> length (rb_deliveries b) \<le> rl_max_pending limits
    \<and> device_pending b d \<le> rl_max_pending_per_device limits
    \<and> length (rb_reserved b) + rb_matches b \<le> rl_max_matches limits"
proof -
  have "broker_inv (fst (run broker_step b0 cs)) \<and> rb_limits (fst (run broker_step b0 cs)) = limits"
    using new_broker_inv [OF assms] by (intro broker_limits.run_inv) simp
  then show ?thesis by (auto simp: broker_inv_def Let_def)
qed

lemma take_delivery_explained:
  assumes b: "broker_inv b" and ex: "broker_explained tr b" and taken: "take_delivery b d i now = (b', Ok m)"
  shows "\<exists>r t e t' e'. reciprocal d r (rd_peer m) (rd_registration m) \<and> rr_match_id r = i \<and> t' < e \<and> now < min e e'
        \<and> checked_add t (ucast (rr_ttl_seconds r)) = Some e
        \<and> checked_add t' (ucast (rr_ttl_seconds (rd_registration m))) = Some e'
        \<and> subseq [waits d r t e, matches_with (rd_peer m) (rd_registration m) t' d r] tr"
proof -
  from taken obtain s where s: "((d, i), s) \<in> set (rb_deliveries (fst (broker_cleanup b now)))" "m = sd_delivery s"
    by (auto simp: take_delivery_def Let_def split: option.splits dest: hm_get_mem)
  moreover have "broker_explained tr (fst (broker_cleanup b now))"
    using ex broker_cleanup_result(2) [OF b] by (rule broker_explained_subset)
  ultimately have "delivery_explained tr d i s" by (auto simp: broker_explained_def)
  then obtain r t e t' e' where "reciprocal d r (rd_peer m) (rd_registration m)"
    "rr_match_id (rd_registration m) = i" "sd_expires_at s = min e e'" "t' < e"
    "checked_add t (ucast (rr_ttl_seconds r)) = Some e"
    "checked_add t' (ucast (rr_ttl_seconds (rd_registration m))) = Some e'"
    "subseq [waits d r t e, matches_with (rd_peer m) (rd_registration m) t' d r] tr"
    unfolding delivery_explained_def Let_def s(2) by blast
  with broker_cleanup_result(4) [OF b s(1)] show ?thesis
    by (intro exI [of _ r] exI [of _ t] exI [of _ e] exI [of _ t'] exI [of _ e']) (simp add: reciprocal_def)
qed

text \<open>
  C13: an offer is handed out, by a matching registration or by fetching a delivery, only between
  two devices that registered for the match in this order, each naming the other, with opposite
  roles, the same generation and the same exchange identifier, and while neither registration has expired.
\<close>
theorem broker_offers_reciprocal:
  assumes "new_broker limits = Ok b0"
  shows "let b = fst (run broker_step b0 cs); tr = trace broker_step b0 cs in
    (register b d r now = (b', Ok (Matched m)) \<longrightarrow> (\<exists>t e. reciprocal (rd_peer m) (rd_registration m) d r \<and> now < e
        \<and> checked_add t (ucast (rr_ttl_seconds (rd_registration m))) = Some e
        \<and> subseq [waits (rd_peer m) (rd_registration m) t e] tr))
    \<and> (take_delivery b d i now = (b', Ok m) \<longrightarrow> (\<exists>r t e t' e'. reciprocal d r (rd_peer m) (rd_registration m) \<and> rr_match_id r = i \<and> t' < e \<and> now < min e e'
        \<and> checked_add t (ucast (rr_ttl_seconds r)) = Some e
        \<and> checked_add t' (ucast (rr_ttl_seconds (rd_registration m))) = Some e'
        \<and> subseq [waits d r t e, matches_with (rd_peer m) (rd_registration m) t' d r] tr))"
proof -
  have b: "broker_inv (fst (run broker_step b0 cs))"
    and ex: "broker_explained (trace broker_step b0 cs) (fst (run broker_step b0 cs))"
    using broker.run_inv broker_history.run_explained new_broker_inv [OF assms(1)] by auto
  show ?thesis
    unfolding Let_def using register_matched_explained [OF b ex] take_delivery_explained [OF b ex] by meson
qed

lemma broker_cleanup_live:
  assumes "list_all (\<lambda>(_, p). now < pn_expires_at p) (rb_pending b)"
    "list_all (\<lambda>(_, s). now < sd_expires_at s) (rb_deliveries b)"
    "list_all (\<lambda>(_, e). now < e) (rb_reserved b)" "list_all (\<lambda>(_, e). now < e) (rb_completed b)"
  shows "fst (broker_cleanup b now) = b"
proof -
  have *: "list_all (\<lambda>(k, v). now < f v) m \<Longrightarrow> hm_retain (\<lambda>_ v. f v \<le> now) m = []"
    "list_all (\<lambda>(k, v). now < f v) m \<Longrightarrow> hm_retain (\<lambda>_ v. now < f v) m = m" for f :: "'v \<Rightarrow> u64" and m :: "('k \<times> 'v) list"
    by (induction m) auto
  show ?thesis
    using assms *(1) [of pn_expires_at "rb_pending b"] *(2) [of sd_expires_at "rb_deliveries b"]
      *(1) [of "\<lambda>e. e" "rb_reserved b"] *(2) [of "\<lambda>e. e" "rb_completed b"]
    by (simp add: broker_cleanup_def Let_def)
qed

section \<open>Matches among other traffic\<close>

text \<open>
  What the broker must have left for the first and for the second registration of a match, and the
  calls that leave the match \<open>i\<close> of \<open>d\<close> and \<open>d'\<close> alone: everything about other matches, and what
  other devices try on this one, before the time \<open>e\<close>.
\<close>

definition fresh_match :: "rendezvous_broker \<Rightarrow> bytes \<Rightarrow> bool" where
  "fresh_match b i \<longleftrightarrow> hm_get (rb_pending b) i = None \<and> hm_get (rb_reserved b) i = None
     \<and> hm_get (rb_completed b) i = None \<and> (\<forall>d. hm_get (rb_deliveries b) (d, i) = None)"

definition room_to_wait :: "rendezvous_broker \<Rightarrow> device_id \<Rightarrow> bool" where
  "room_to_wait b d \<longleftrightarrow> rb_successful_registrations b < rl_max_successful_registrations (rb_limits b)
     \<and> length (rb_pending b) < rl_max_pending (rb_limits b)
     \<and> length (rb_completed b) < rl_max_pending (rb_limits b) * 4
     \<and> device_pending b d < rl_max_pending_per_device (rb_limits b)"

definition room_to_match :: "rendezvous_broker \<Rightarrow> bool" where
  "room_to_match b \<longleftrightarrow> rb_successful_registrations b < rl_max_successful_registrations (rb_limits b)
     \<and> length (rb_deliveries b) < rl_max_pending (rb_limits b)
     \<and> length (rb_completed b) < rl_max_pending (rb_limits b) * 4
     \<and> rb_matches b + length (rb_reserved b) < rl_max_matches (rb_limits b)"

fun elsewhere :: "device_id \<Rightarrow> device_id \<Rightarrow> bytes \<Rightarrow> u64 \<Rightarrow> broker_cmd \<Rightarrow> bool" where
  "elsewhere d d' i e (Register x r now) \<longleftrightarrow> (x \<noteq> d' \<or> rr_match_id r \<noteq> i) \<and> now < e"
| "elsewhere d d' i e (TakeDelivery x j now) \<longleftrightarrow> (x \<noteq> d \<or> j \<noteq> i) \<and> now < e"
| "elsewhere d d' i e (ConfirmMatch j now) \<longleftrightarrow> j \<noteq> i"
| "elsewhere d d' i e (AbortMatch j now) \<longleftrightarrow> j \<noteq> i"
| "elsewhere d d' i e (CancelWaiting x j now) \<longleftrightarrow> x \<noteq> d \<or> j \<noteq> i"
| "elsewhere d d' i e (BrokerCleanup now) \<longleftrightarrow> now < e"

text \<open>The three stages of a match: waiting, offered to the first device, and only reserved.\<close>

definition waiting_for :: "device_id \<Rightarrow> rendezvous_registration \<Rightarrow> u64 \<Rightarrow> rendezvous_broker \<Rightarrow> bool" where
  "waiting_for d r e b \<longleftrightarrow> broker_inv b
     \<and> hm_get (rb_pending b) (rr_match_id r) = Some \<lparr>pn_device = d, pn_registration = r, pn_expires_at = e\<rparr>
     \<and> hm_get (rb_reserved b) (rr_match_id r) = None \<and> hm_get (rb_completed b) (rr_match_id r) = None
     \<and> (\<forall>x. hm_get (rb_deliveries b) (x, rr_match_id r) = None)"

definition reserved_until :: "bytes \<Rightarrow> u64 \<Rightarrow> rendezvous_broker \<Rightarrow> bool" where
  "reserved_until i e b \<longleftrightarrow> broker_inv b \<and> hm_get (rb_reserved b) i = Some e"

definition offered :: "device_id \<Rightarrow> bytes \<Rightarrow> rendezvous_delivery \<Rightarrow> u64 \<Rightarrow> rendezvous_broker \<Rightarrow> bool" where
  "offered d i delivery e b \<longleftrightarrow> reserved_until i e b
     \<and> hm_get (rb_deliveries b) (d, i) = Some \<lparr>sd_delivery = delivery, sd_expires_at = e\<rparr>"

lemma hm_get_retain:
  "hm_ok m \<Longrightarrow> map_of (filter p m) k = (case map_of m k of None \<Rightarrow> None | Some v \<Rightarrow> if p (k, v) then Some v else None)"
proof (induction m)
  case (Cons a m)
  then have "fst a = k \<Longrightarrow> map_of m k = None"
    by (auto simp: hm_ok_def map_of_eq_None_iff)
  with Cons show ?case by (cases a) (auto simp: hm_ok_def)
qed simp

lemma hm_get_retain_None: "map_of m k = None \<Longrightarrow> map_of (filter p m) k = None"
  by (auto simp: map_of_eq_None_iff)

lemma hm_get_retain_match:
  "i \<noteq> j \<Longrightarrow> map_of (filter (\<lambda>((_, k), _). k \<noteq> j) m) (x, i) = map_of m (x, i)"
  by (induction m) auto

lemma expire_pending_keeps:
  "rb_reserved (fst (expire_pending now b ids)) = rb_reserved b"
  "rb_deliveries (fst (expire_pending now b ids)) = rb_deliveries b"
  by (induction ids arbitrary: b) (simp_all add: split_beta Let_def release_registrations_def)

lemma expire_pending_other:
  "i \<notin> set ids \<Longrightarrow> hm_get (rb_pending (fst (expire_pending now b ids))) i = hm_get (rb_pending b) i
   \<and> hm_get (rb_completed (fst (expire_pending now b ids))) i = hm_get (rb_completed b) i"
  by (induction ids arbitrary: b)
    (simp_all add: split_beta Let_def release_registrations_def delete_conv' update_conv')

lemma expire_reserved_other:
  "i \<notin> set ids \<Longrightarrow> hm_get (rb_reserved (fst (expire_reserved now b ids))) i = hm_get (rb_reserved b) i
   \<and> hm_get (rb_completed (fst (expire_reserved now b ids))) i = hm_get (rb_completed b) i
   \<and> rb_pending (fst (expire_reserved now b ids)) = rb_pending b
   \<and> hm_get (rb_deliveries (fst (expire_reserved now b ids))) (x, i) = hm_get (rb_deliveries b) (x, i)"
  by (induction ids arbitrary: b)
    (simp_all add: split_beta Let_def release_registrations_def delete_conv' update_conv' hm_get_retain_match)

lemma live_not_expired:
  fixes f :: "'v \<Rightarrow> u64"
  assumes "hm_ok m" and "\<And>v. hm_get m i = Some v \<Longrightarrow> now < f v"
  shows "i \<notin> set (map fst (hm_retain (\<lambda>_ v. f v \<le> now) m))"
  using assms by (auto simp: hm_get_iff [symmetric] not_le [symmetric])

lemma broker_cleanup_keeps:
  fixes b now i
  defines "c \<equiv> fst (broker_cleanup b now)"
  assumes b: "broker_inv b" and live: "\<And>e. hm_get (rb_reserved b) i = Some e \<Longrightarrow> now < e"
  shows "hm_get (rb_reserved c) i = hm_get (rb_reserved b) i"
    and "hm_get (rb_deliveries b) (x, i) = None \<Longrightarrow> hm_get (rb_deliveries c) (x, i) = None"
    and "hm_get (rb_deliveries b) (x, i) = Some s \<Longrightarrow> now < sd_expires_at s \<Longrightarrow> hm_get (rb_deliveries c) (x, i) = Some s"
    and "\<lbrakk>\<And>w. hm_get (rb_pending b) i = Some w \<Longrightarrow> now < pn_expires_at w\<rbrakk> \<Longrightarrow>
      hm_get (rb_pending c) i = hm_get (rb_pending b) i
      \<and> (hm_get (rb_completed b) i = None \<longrightarrow> hm_get (rb_completed c) i = None)"
proof -
  let ?ids = "map fst (hm_retain (\<lambda>_ p. pn_expires_at p \<le> now) (rb_pending b))"
  define b1 where "b1 = fst (expire_pending now b ?ids)"
  define b2 where "b2 = b1\<lparr>rb_deliveries := hm_retain (\<lambda>_ d. sd_expires_at d > now) (rb_deliveries b1)\<rparr>"
  let ?ids2 = "map fst (hm_retain (\<lambda>_ e. e \<le> now) (rb_reserved b2))"
  define b3 where "b3 = fst (expire_reserved now b2 ?ids2)"
  have c: "c = b3\<lparr>rb_completed := hm_retain (\<lambda>_ e. e > now) (rb_completed b3)\<rparr>"
    by (simp add: c_def broker_cleanup_def b3_def b2_def b1_def Let_def split_beta)
  have ok: "hm_ok (rb_pending b)" "hm_ok (rb_reserved b)" "hm_ok (rb_deliveries b)"
    using b by (simp_all add: broker_inv_def)
  have b2: "rb_reserved b2 = rb_reserved b" "rb_pending b2 = rb_pending b1" "rb_completed b2 = rb_completed b1"
      "rb_deliveries b2 = hm_retain (\<lambda>_ d. sd_expires_at d > now) (rb_deliveries b)"
    by (simp_all add: b2_def b1_def expire_pending_keeps)
  have "i \<notin> set ?ids2"
    unfolding b2(1) by (rule live_not_expired [OF ok(2)]) (rule live)
  note v3 = expire_reserved_other [OF this, of now b2, folded b3_def, unfolded b2]
  show "hm_get (rb_reserved c) i = hm_get (rb_reserved b) i"
    using v3 by (simp add: c)
  show "hm_get (rb_deliveries c) (x, i) = None" if "hm_get (rb_deliveries b) (x, i) = None"
    using that v3 [of x] ok(3) by (simp add: c hm_get_retain)
  show "hm_get (rb_deliveries c) (x, i) = Some s" if "hm_get (rb_deliveries b) (x, i) = Some s" "now < sd_expires_at s"
    using that v3 [of x] ok(3) by (simp add: c hm_get_retain)
  assume pending: "\<And>w. hm_get (rb_pending b) i = Some w \<Longrightarrow> now < pn_expires_at w"
  have "i \<notin> set ?ids"
    by (rule live_not_expired [OF ok(1)]) (rule pending)
  note v1 = expire_pending_other [OF this, of now b, folded b1_def]
  show "hm_get (rb_pending c) i = hm_get (rb_pending b) i
      \<and> (hm_get (rb_completed b) i = None \<longrightarrow> hm_get (rb_completed c) i = None)"
    using v1 v3 by (simp add: c hm_get_retain_None)
qed

lemma waiting_for_cleanup:
  assumes w: "waiting_for d r e b" "now < e"
  shows "waiting_for d r e (fst (broker_cleanup b now))"
proof -
  have b: "broker_inv b" using w by (simp add: waiting_for_def)
  have "now < e'" if "hm_get (rb_reserved b) (rr_match_id r) = Some e'" for e'
    using that w by (simp add: waiting_for_def)
  note keeps = broker_cleanup_keeps [where i = "rr_match_id r", OF b this]
  show ?thesis
    using keeps w broker_cleanup_result(1) [OF b, of now] by (simp add: waiting_for_def)
qed

lemma reserved_until_cleanup:
  assumes "reserved_until i e b" "now < e"
  shows "reserved_until i e (fst (broker_cleanup b now))"
  using assms broker_cleanup_keeps(1) [of b i now] broker_cleanup_result(1) [of b now]
  by (simp add: reserved_until_def)

lemma offered_cleanup:
  assumes "offered d i delivery e b" "now < e"
  shows "offered d i delivery e (fst (broker_cleanup b now))"
  using assms broker_cleanup_keeps(3) [of b i now d] reserved_until_cleanup [of i e b now]
  by (simp add: offered_def reserved_until_def)

text \<open>Other traffic keeps each stage.\<close>

lemma waiting_for_elsewhere:
  assumes w: "waiting_for d r e b" and peer: "rr_expected_peer_fingerprint r = d'"
    and c: "elsewhere d d' (rr_match_id r) e cmd"
  shows "waiting_for d r e (fst (broker_step b cmd))"
proof -
  have inv: "broker_inv (fst (broker_step b cmd))"
    using w by (intro broker.step_inv) (simp add: waiting_for_def)
  show ?thesis
  proof (cases cmd)
    case (Register x q now)
    let ?c = "fst (broker_cleanup b now)"
    have wc: "waiting_for d r e ?c"
      using w c Register by (intro waiting_for_cleanup) simp_all
    show ?thesis
    proof (cases rule: register_cases [of b x q now])
      case (rejected err)
      then show ?thesis using wc Register by simp
    next
      case (waiting expires)
      then have "rr_match_id q \<noteq> rr_match_id r" using wc by (auto simp: waiting_for_def)
      then show ?thesis using wc inv Register waiting by (simp add: waiting_for_def update_conv')
    next
      case (matched v expires)
      have "rr_match_id q \<noteq> rr_match_id r"
      proof
        assume same: "rr_match_id q = rr_match_id r"
        then have "v = \<lparr>pn_device = d, pn_registration = r, pn_expires_at = e\<rparr>"
          using wc matched(2) by (simp add: waiting_for_def)
        then have "x = d'"
          using matched(3) peer by (auto simp: check_reciprocal_def split: if_splits)
        with same c Register show False by simp
      qed
      then show ?thesis using wc inv Register matched by (simp add: waiting_for_def update_conv' delete_conv')
    qed
  next
    case (TakeDelivery x j now)
    then have "waiting_for d r e (fst (broker_cleanup b now))"
      using w c by (intro waiting_for_cleanup) simp_all
    then show ?thesis
      using inv TakeDelivery
      by (auto simp: take_delivery_def Let_def waiting_for_def delete_conv' split: option.splits)
  next
    case (BrokerCleanup now)
    then show ?thesis using w c by (simp add: waiting_for_cleanup)
  qed (use w c inv in \<open>auto simp: waiting_for_def confirm_match_def abort_match_def cancel_waiting_def
      release_registrations_def Let_def delete_conv' update_conv' hm_get_retain_match split: option.splits if_splits\<close>)
qed

lemma offered_elsewhere:
  assumes o: "offered d i delivery e b" and c: "elsewhere d d' i e cmd"
  shows "offered d i delivery e (fst (broker_step b cmd))"
proof -
  have inv: "broker_inv (fst (broker_step b cmd))"
    using o by (intro broker.step_inv) (simp add: offered_def reserved_until_def)
  show ?thesis
  proof (cases cmd)
    case (Register x q now)
    then have oc: "offered d i delivery e (fst (broker_cleanup b now))"
      using o c by (intro offered_cleanup) simp_all
    show ?thesis
    proof (cases rule: register_cases [of b x q now])
      case (matched v expires)
      then have "rr_match_id q \<noteq> i" using oc by (auto simp: offered_def reserved_until_def hm_contains_iff)
      then show ?thesis using oc inv Register matched by (simp add: offered_def reserved_until_def update_conv')
    qed (use oc inv Register in \<open>simp_all add: offered_def reserved_until_def\<close>)
  next
    case (TakeDelivery x j now)
    then have "offered d i delivery e (fst (broker_cleanup b now))"
      using o c by (intro offered_cleanup) simp_all
    then show ?thesis
      using inv c TakeDelivery
      by (auto simp: take_delivery_def Let_def offered_def reserved_until_def delete_conv' split: option.splits)
  next
    case (BrokerCleanup now)
    then show ?thesis using o c by (simp add: offered_cleanup)
  qed (use o c inv in \<open>auto simp: offered_def reserved_until_def confirm_match_def abort_match_def cancel_waiting_def
      release_registrations_def Let_def delete_conv' update_conv' hm_get_retain_match split: option.splits if_splits\<close>)
qed

lemma reserved_until_elsewhere:
  assumes o: "reserved_until i e b" and c: "elsewhere d d' i e cmd"
  shows "reserved_until i e (fst (broker_step b cmd))"
proof -
  have inv: "broker_inv (fst (broker_step b cmd))"
    using o by (intro broker.step_inv) (simp add: reserved_until_def)
  show ?thesis
  proof (cases cmd)
    case (Register x q now)
    then have oc: "reserved_until i e (fst (broker_cleanup b now))"
      using o c by (intro reserved_until_cleanup) simp_all
    show ?thesis
    proof (cases rule: register_cases [of b x q now])
      case (matched v expires)
      then have "rr_match_id q \<noteq> i" using oc by (auto simp: reserved_until_def hm_contains_iff)
      then show ?thesis using oc inv Register matched by (simp add: reserved_until_def update_conv')
    qed (use oc inv Register in \<open>simp_all add: reserved_until_def\<close>)
  next
    case (TakeDelivery x j now)
    then have "reserved_until i e (fst (broker_cleanup b now))"
      using o c by (intro reserved_until_cleanup) simp_all
    then show ?thesis
      using inv TakeDelivery by (auto simp: take_delivery_def Let_def reserved_until_def split: option.splits)
  next
    case (BrokerCleanup now)
    then show ?thesis using o c by (simp add: reserved_until_cleanup)
  qed (use o c inv in \<open>auto simp: reserved_until_def confirm_match_def abort_match_def cancel_waiting_def
      release_registrations_def Let_def delete_conv' update_conv' split: option.splits if_splits\<close>)
qed

lemma run_elsewhere:
  assumes "\<And>b c. P b \<Longrightarrow> elsewhere d d' i e c \<Longrightarrow> P (fst (broker_step b c))"
    and "P b" and "list_all (elsewhere d d' i e) cs"
  shows "P (fst (run broker_step b cs))"
  using assms(2,3) by (induction cs arbitrary: b) (simp_all add: assms(1))

text \<open>The calls that move a match from one stage to the next.\<close>

lemma register_first:
  assumes b: "broker_inv b" and r: "is_ok (encode_registration r)" "rr_expected_peer_fingerprint r \<noteq> d"
    and e: "checked_add t (ucast (rr_ttl_seconds r)) = Some e"
    and c: "c = fst (broker_cleanup b t)" "fresh_match c (rr_match_id r)" "room_to_wait c d"
  shows "register b d r t = (c\<lparr>rb_pending := hm_insert (rr_match_id r)
        \<lparr>pn_device = d, pn_registration = r, pn_expires_at = e\<rparr> (rb_pending c),
      rb_successful_registrations := rb_successful_registrations c + 1\<rparr>, Ok (Waiting e))"
    and "waiting_for d r e (fst (register b d r t))"
proof -
  obtain x where x: "encode_registration r = Inr x"
    using r(1) by (auto simp: is_ok_def split: sum.splits)
  have "\<not> (hm_contains (rb_completed c) (rr_match_id r) \<or> hm_contains (rb_reserved c) (rr_match_id r)
      \<or> hm_contains (rb_deliveries c) (d, rr_match_id r))" "hm_get (rb_pending c) (rr_match_id r) = None"
    using c(2) by (auto simp: fresh_match_def hm_contains_iff)
  then show reg: "register b d r t = (c\<lparr>rb_pending := hm_insert (rr_match_id r)
        \<lparr>pn_device = d, pn_registration = r, pn_expires_at = e\<rparr> (rb_pending c),
      rb_successful_registrations := rb_successful_registrations c + 1\<rparr>, Ok (Waiting e))"
    using x r(2) e c(3) by (simp add: register_def Let_def room_to_wait_def device_pending_def not_le flip: c(1))
  have "broker_inv (fst (register b d r t))"
    using broker.step_inv [OF b, of "Register d r t"] by simp
  then show "waiting_for d r e (fst (register b d r t))"
    using c(2) unfolding reg by (simp add: waiting_for_def fresh_match_def update_conv')
qed

lemma register_second:
  assumes w: "waiting_for d r e b" and rec: "reciprocal d r d' r'" and r': "is_ok (encode_registration r')"
    and e: "checked_add t (ucast (rr_ttl_seconds r')) = Some e'" and t: "t < e"
    and c: "room_to_match (fst (broker_cleanup b t))"
  shows "snd (register b d' r' t) = Ok (Matched \<lparr>rd_peer = d, rd_registration = r\<rparr>)"
    and "offered d (rr_match_id r) \<lparr>rd_peer = d', rd_registration = r'\<rparr> (min e e') (fst (register b d' r' t))"
proof -
  define c where "c = fst (broker_cleanup b t)"
  have wc: "waiting_for d r e c"
    unfolding c_def using w t by (rule waiting_for_cleanup)
  obtain x where x: "encode_registration r' = Inr x"
    using r' by (auto simp: is_ok_def split: sum.splits)
  have i: "rr_match_id r' = rr_match_id r" "rr_expected_peer_fingerprint r' \<noteq> d'"
    using rec by (auto simp: reciprocal_def)
  have none: "\<not> (hm_contains (rb_completed c) (rr_match_id r) \<or> hm_contains (rb_reserved c) (rr_match_id r)
      \<or> hm_contains (rb_deliveries c) (d', rr_match_id r))"
    using wc by (auto simp: waiting_for_def hm_contains_iff)
  have "check_reciprocal \<lparr>pn_device = d, pn_registration = r, pn_expires_at = e\<rparr> d' r' = Ok ()"
    using rec by (simp add: check_reciprocal_def reciprocal_def)
  then have reg: "register b d' r' t = (c\<lparr>rb_pending := hm_remove (rr_match_id r) (rb_pending c),
      rb_deliveries := hm_insert (d, rr_match_id r) \<lparr>sd_delivery = \<lparr>rd_peer = d', rd_registration = r'\<rparr>,
         sd_expires_at = min e e'\<rparr> (rb_deliveries c),
      rb_reserved := hm_insert (rr_match_id r) (min e e') (rb_reserved c),
      rb_successful_registrations := rb_successful_registrations c + 1\<rparr>,
      Ok (Matched \<lparr>rd_peer = d, rd_registration = r\<rparr>))"
    using x i none e c [folded c_def] wc
    by (simp add: register_def Let_def room_to_match_def waiting_for_def not_le flip: c_def)
  then show "snd (register b d' r' t) = Ok (Matched \<lparr>rd_peer = d, rd_registration = r\<rparr>)"
    by simp
  have "broker_inv (fst (register b d' r' t))"
    using broker.step_inv [of b "Register d' r' t"] w by (simp add: waiting_for_def)
  then show "offered d (rr_match_id r) \<lparr>rd_peer = d', rd_registration = r'\<rparr> (min e e') (fst (register b d' r' t))"
    unfolding reg by (simp add: offered_def reserved_until_def update_conv')
qed

lemma take_offer:
  assumes o: "offered d i delivery e b" and u: "u < e"
  shows "snd (take_delivery b d i u) = Ok delivery" "reserved_until i e (fst (take_delivery b d i u))"
proof -
  have "offered d i delivery e (fst (broker_cleanup b u))" using assms by (rule offered_cleanup)
  moreover have "broker_inv (fst (take_delivery b d i u))"
    using broker.step_inv [of b "TakeDelivery d i u"] o by (simp add: offered_def reserved_until_def)
  ultimately show "snd (take_delivery b d i u) = Ok delivery" "reserved_until i e (fst (take_delivery b d i u))"
    by (simp_all add: take_delivery_def Let_def offered_def reserved_until_def)
qed

lemma confirm_reserved: "reserved_until i e b \<Longrightarrow> v < e \<Longrightarrow> snd (confirm_match b i v) = Ok ()"
  by (simp add: confirm_match_def reserved_until_def not_le [symmetric])

text \<open>
  C28: a match completes on any broker that has room for it, whatever else the broker was and is asked
  to do. Take a broker after any history, and two devices whose registrations encode, name each other
  and use a match identifier that is not in use. The first registration waits. The second, with any
  calls about other matches and any attempts of other devices on this one in between, is matched with the
  first; the first device then fetches the second's offer, and the match is confirmed, again
  among any such calls, as long as this happens before either registration expires. Room is what the
  limits demand of the first registration and of the second; confirmed matches use it up for good.
\<close>
theorem broker_match_completes:
  assumes new: "new_broker limits = Ok b0" and b: "b = fst (run broker_step b0 history)"
    and enc: "is_ok (encode_registration r)" "is_ok (encode_registration r')" and rec: "reciprocal d r d' r'"
    and e: "checked_add t (ucast (rr_ttl_seconds r)) = Some e" "checked_add t' (ucast (rr_ttl_seconds r')) = Some e'"
    and first: "fresh_match (fst (broker_cleanup b t)) (rr_match_id r)" "room_to_wait (fst (broker_cleanup b t)) d"
    and b1: "b1 = fst (run broker_step b (Register d r t # others1))"
      "list_all (elsewhere d d' (rr_match_id r) e) others1"
    and second: "t' < e" "room_to_match (fst (broker_cleanup b1 t'))"
    and b2: "b2 = fst (run broker_step b1 (Register d' r' t' # others2))"
      "list_all (elsewhere d d' (rr_match_id r) (min e e')) others2"
    and b3: "b3 = fst (run broker_step b2 (TakeDelivery d (rr_match_id r) u # others3))"
      "list_all (elsewhere d d' (rr_match_id r) (min e e')) others3"
    and times: "u < min e e'" "v < min e e'"
  shows "snd (broker_step b (Register d r t)) = RegisterReply (Ok (Waiting e))
    \<and> snd (broker_step b1 (Register d' r' t')) = RegisterReply (Ok (Matched \<lparr>rd_peer = d, rd_registration = r\<rparr>))
    \<and> snd (broker_step b2 (TakeDelivery d (rr_match_id r) u)) = DeliveryReply (Ok \<lparr>rd_peer = d', rd_registration = r'\<rparr>)
    \<and> snd (broker_step b3 (ConfirmMatch (rr_match_id r) v)) = ConfirmReply (Ok ())"
proof -
  have inv: "broker_inv b"
    unfolding b using new_broker_inv [OF new] by (intro broker.run_inv) simp
  have peer: "rr_expected_peer_fingerprint r = d'" "rr_expected_peer_fingerprint r \<noteq> d"
    using rec by (auto simp: reciprocal_def)
  note reg1 = register_first [OF inv enc(1) peer(2) e(1) refl first]
  have w: "waiting_for d r e b1"
    using run_elsewhere [where P = "waiting_for d r e", OF waiting_for_elsewhere [OF _ peer(1)] reg1(2) b1(2)]
    by (simp add: b1(1))
  note reg2 = register_second [OF w rec enc(2) e(2) second]
  have o: "offered d (rr_match_id r) \<lparr>rd_peer = d', rd_registration = r'\<rparr> (min e e') b2"
    using run_elsewhere [where P = "offered d (rr_match_id r) \<lparr>rd_peer = d', rd_registration = r'\<rparr> (min e e')",
        OF offered_elsewhere reg2(2) b2(2)]
    by (simp add: b2(1))
  note taken = take_offer [OF o times(1)]
  have "reserved_until (rr_match_id r) (min e e') b3"
    using run_elsewhere [where P = "reserved_until (rr_match_id r) (min e e')",
        OF reserved_until_elsewhere taken(2) b3(2)]
    by (simp add: b3(1))
  then show ?thesis
    using reg1(1) reg2(1) taken(1) confirm_reserved [OF _ times(2)] by simp
qed

section \<open>Instances\<close>

definition sample_registration :: "rendezvous_role \<Rightarrow> bytes \<Rightarrow> rendezvous_registration" where
  "sample_registration role peer = \<lparr>rr_version = 1, rr_role = role, rr_generation = 1, rr_ttl_seconds = 30,
     rr_match_id = replicate 16 5, rr_expected_peer_fingerprint = peer,
     rr_credentials = \<lparr>ce_version = 1, ce_exchange_id = 7, ce_generation = 1,
       ce_role = (if role = RrInitiator then CrControlling else CrControlled), ce_ufrag = replicate 5 65,
       ce_password = replicate 32 66\<rparr>,
     rr_candidates = \<lparr>cx_version = 1, cx_exchange_id = 7, cx_generation = 1, cx_candidates = [relayed_sample]\<rparr>\<rparr>"

abbreviation sample_device :: "u8 \<Rightarrow> device_id" where
  "sample_device n \<equiv> replicate 32 n"

lemma sample_registration_encodes:
  "peer \<noteq> sample_device 0 \<Longrightarrow> is_ok (encode_registration (sample_registration role peer))"
proof -
  let ?x = "rr_candidates (sample_registration role peer)"
  let ?c = "rr_credentials (sample_registration role peer)"
  have ok: "encode_candidate relayed_sample = Ok (candidate_bytes relayed_sample)" "length (candidate_bytes relayed_sample) = 24"
    by (simp_all add: encode_candidate_def relayed_sample_valid) (simp add: candidate_bytes_def relayed_sample_def)
  then obtain xs where xs: "encode_exchange ?x = Ok xs" "length xs = 40"
    by (simp add: encode_exchange_def sample_registration_def validate_exchange_def EXCHANGE_VERSION_def
        MAX_EXCHANGE_CANDIDATES_def relayed_sample_valid relayed_sample_def [THEN arg_cong, of ic_transport]
        relayed_sample_def [THEN arg_cong, of ic_candidate_type] relayed_sample_def [THEN arg_cong, of ic_relay_provider]
        relayed_sample_def [THEN arg_cong, of ic_related_address] Let_def MAX_CONTROL_BYTES_def)
  have c: "validate_credentials ?c = Ok ()"
    by (simp add: sample_registration_def validate_credentials_def CREDENTIAL_VERSION_def ufrag_len_ok_def
        password_len_ok_def ice_bytes_charset_def ice_byte_def list_all_iff)
  assume "peer \<noteq> sample_device 0"
  then have "validate_registration (sample_registration role peer) = Ok ()"
    unfolding validate_registration_def c xs
    by (cases role) (simp_all add: sample_registration_def REGISTRATION_VERSION_def MIN_TTL_SECONDS_def
        MAX_TTL_SECONDS_def roles_match_def)
  then show ?thesis
    by (simp add: encode_registration_def encode_credentials_def c xs credentials_bytes_def
        REGISTRATION_HEADER_LEN_def MAX_REGISTRATION_LEN_def) (simp add: sample_registration_def)
qed

lemma sample_registration_fields [simp]:
  "rr_match_id (sample_registration role p) = replicate 16 5"
  "rr_ttl_seconds (sample_registration role p) = 30"
  by (simp_all add: sample_registration_def)

lemma sample_match:
  "is_ok (encode_registration (sample_registration RrInitiator (sample_device 2)))"
  "is_ok (encode_registration (sample_registration RrResponder (sample_device 1)))"
  "checked_add 0 (ucast (rr_ttl_seconds (sample_registration RrInitiator (sample_device 2)))) = Some (30 :: u64)"
  "checked_add 1 (ucast (rr_ttl_seconds (sample_registration RrResponder (sample_device 1)))) = Some (31 :: u64)"
  "(1 :: u64) < 30" "(2 :: u64) < min 30 31"
  by (simp_all add: sample_registration_encodes replicate_eq_replicate checked_add_def)

lemma sample_reciprocal: "reciprocal (sample_device 1) (sample_registration RrInitiator (sample_device 2))
    (sample_device 2) (sample_registration RrResponder (sample_device 1))"
  by (simp add: reciprocal_def sample_registration_def replicate_eq_replicate)

lemma new_default_broker: obtains b0 where "new_broker default_limits = Ok b0"
  by (simp add: new_broker_def validate_limits_def default_limits_def)

lemma sample_match_steps:
  assumes "new_broker default_limits = Ok b0"
  obtains b1 b2 where
    "register b0 (sample_device 1) (sample_registration RrInitiator (sample_device 2)) 0 = (b1, Ok (Waiting 30))"
    "rb_successful_registrations b1 = 1" "room_to_match (fst (broker_cleanup b1 1))"
    "register b1 (sample_device 2) (sample_registration RrResponder (sample_device 1)) 1
      = (b2, Ok (Matched \<lparr>rd_peer = sample_device 1, rd_registration = sample_registration RrInitiator (sample_device 2)\<rparr>))"
    "fresh_match (fst (broker_cleanup b0 0)) (replicate 16 5)" "room_to_wait (fst (broker_cleanup b0 0)) (sample_device 1)"
proof -
  let ?r = "sample_registration RrInitiator (sample_device 2)" and ?d = "sample_device 1"
  note b0 = new_broker_Ok [OF assms, THEN conjunct1]
  have clean: "fst (broker_cleanup b0 0) = b0" by (intro broker_cleanup_live) (simp_all add: b0)
  have inv: "broker_inv b0" using new_broker_inv [OF assms] by blast
  have first: "fresh_match (fst (broker_cleanup b0 0)) (rr_match_id ?r)" "room_to_wait (fst (broker_cleanup b0 0)) ?d"
    unfolding clean by (simp_all add: b0 fresh_match_def room_to_wait_def device_pending_def default_limits_def)
  have peer: "rr_expected_peer_fingerprint ?r \<noteq> ?d"
    using sample_reciprocal by (auto simp: reciprocal_def)
  note reg = register_first [OF inv sample_match(1) peer sample_match(3) refl first]
  define b1 where "b1 = fst (register b0 ?d ?r 0)"
  have b1: "b1 = b0\<lparr>rb_pending := [(replicate 16 5, \<lparr>pn_device = ?d, pn_registration = ?r, pn_expires_at = 30\<rparr>)],
      rb_successful_registrations := 1\<rparr>"
    unfolding b1_def reg(1) clean by (simp add: b0)
  then have "fst (broker_cleanup b1 1) = b1" by (intro broker_cleanup_live) (simp_all add: b0)
  then have second: "room_to_match (fst (broker_cleanup b1 1))"
    by (simp add: b1 b0 room_to_match_def default_limits_def)
  have w: "waiting_for ?d ?r 30 b1" using reg(2) by (simp add: b1_def)
  show thesis
  proof (rule that [of b1 "fst (register b1 (sample_device 2) (sample_registration RrResponder ?d) 1)"])
    show "register b0 ?d ?r 0 = (b1, Ok (Waiting 30))" using reg(1) by (simp add: b1_def)
    show "register b1 (sample_device 2) (sample_registration RrResponder ?d) 1
      = (fst (register b1 (sample_device 2) (sample_registration RrResponder ?d) 1), Ok (Matched \<lparr>rd_peer = ?d, rd_registration = ?r\<rparr>))"
      using register_second(1) [OF w sample_reciprocal sample_match(2,4,5) second] by (simp add: prod_eq_iff)
  qed (use first second in \<open>simp_all add: b1\<close>)
qed

lemma broker_accounts_registrations_witness:
  "\<exists>b0. new_broker default_limits = Ok b0 \<and>
    (let b = fst (run broker_step b0 [Register (sample_device 1) (sample_registration RrInitiator (sample_device 2)) 0]) in
     1 = length (rb_pending b) + 2 * length (rb_reserved b) + 2 * rb_matches b)"
proof (rule new_default_broker)
  fix b0
  assume b0: "new_broker default_limits = Ok b0"
  let ?c = "Register (sample_device 1) (sample_registration RrInitiator (sample_device 2)) 0"
  obtain b1 where b1: "register b0 (sample_device 1) (sample_registration RrInitiator (sample_device 2)) 0 = (b1, Ok (Waiting 30))"
    "rb_successful_registrations b1 = 1"
    by (rule sample_match_steps [OF b0])
  with broker_accounts_registrations [OF b0, of "[?c]" "sample_device 1"] b0 b1 show ?thesis
    by (auto simp: Let_def)
qed

lemma broker_offers_reciprocal_witness:
  "\<exists>b0 t e. new_broker default_limits = Ok b0 \<and> 1 < e \<and>
    subseq [waits (sample_device 1) (sample_registration RrInitiator (sample_device 2)) t e]
      (trace broker_step b0 [Register (sample_device 1) (sample_registration RrInitiator (sample_device 2)) 0])"
proof (rule new_default_broker)
  fix b0
  assume b0: "new_broker default_limits = Ok b0"
  let ?c = "Register (sample_device 1) (sample_registration RrInitiator (sample_device 2)) 0"
  obtain b1 b2 where
    b1: "register b0 (sample_device 1) (sample_registration RrInitiator (sample_device 2)) 0 = (b1, Ok (Waiting 30))" and
    b2: "register b1 (sample_device 2) (sample_registration RrResponder (sample_device 1)) 1
      = (b2, Ok (Matched \<lparr>rd_peer = sample_device 1, rd_registration = sample_registration RrInitiator (sample_device 2)\<rparr>))"
    by (rule sample_match_steps [OF b0])
  have "fst (run broker_step b0 [?c]) = b1" using b1 by simp
  note offers = broker_offers_reciprocal [OF b0, of "[?c]" "sample_device 2" "sample_registration RrResponder (sample_device 1)" 1 b2
      "\<lparr>rd_peer = sample_device 1, rd_registration = sample_registration RrInitiator (sample_device 2)\<rparr>",
      unfolded Let_def this, THEN conjunct1, rule_format, OF b2]
  then obtain t e where "1 < e"
    "subseq [waits (sample_device 1) (sample_registration RrInitiator (sample_device 2)) t e] (trace broker_step b0 [?c])"
    by (simp del: trace_Cons) blast
  with b0 show ?thesis by blast
qed

lemma broker_match_completes_witness:
  "\<exists>b0. new_broker default_limits = Ok b0 \<and>
    snd (broker_step (fst (run broker_step b0 [Register (sample_device 1) (sample_registration RrInitiator (sample_device 2)) 0,
        Register (sample_device 2) (sample_registration RrResponder (sample_device 1)) 1,
        Register (sample_device 3) (sample_registration RrResponder (sample_device 1)) 2,
        TakeDelivery (sample_device 1) (replicate 16 5) 2, AbortMatch (replicate 16 6) 3]))
      (ConfirmMatch (replicate 16 5) 4)) = ConfirmReply (Ok ())"
proof (rule new_default_broker)
  fix b0
  assume b0: "new_broker default_limits = Ok b0"
  obtain b1 where b1: "register b0 (sample_device 1) (sample_registration RrInitiator (sample_device 2)) 0 = (b1, Ok (Waiting 30))"
    and second: "room_to_match (fst (broker_cleanup b1 1))"
    and first: "fresh_match (fst (broker_cleanup b0 0)) (replicate 16 5)" "room_to_wait (fst (broker_cleanup b0 0)) (sample_device 1)"
    by (rule sample_match_steps [OF b0])
  have others: "list_all (elsewhere (sample_device 1) (sample_device 2) (replicate 16 5) (min 30 31))
      [Register (sample_device 3) (sample_registration RrResponder (sample_device 1)) 2]"
    "list_all (elsewhere (sample_device 1) (sample_device 2) (replicate 16 5) (min 30 31)) [AbortMatch (replicate 16 6) 3]"
    by (simp_all add: replicate_eq_replicate)
  let ?r = "sample_registration RrInitiator (sample_device 2)" and ?r' = "sample_registration RrResponder (sample_device 1)"
  define b2 where "b2 = fst (run broker_step b1 (Register (sample_device 2) ?r' 1 # [Register (sample_device 3) ?r' 2]))"
  define b3 where "b3 = fst (run broker_step b2 (TakeDelivery (sample_device 1) (rr_match_id ?r) 2 # [AbortMatch (replicate 16 6) 3]))"
  have "snd (broker_step b3 (ConfirmMatch (rr_match_id ?r) 4)) = ConfirmReply (Ok ())"
    by (rule broker_match_completes [where ?others1.0 = "[]" and history = "[]" and u = 2 and v = 4 and b = b0 and ?b1.0 = b1 and ?b2.0 = b2,
          OF b0 _ sample_match(1,2) sample_reciprocal sample_match(3,4) _ _ _ _ sample_match(5) second b2_def _ b3_def,
          THEN conjunct2, THEN conjunct2, THEN conjunct2])
      (use b1 first others sample_match(6) in \<open>simp_all del: run_Cons_fst\<close>, simp)
  then have "snd (broker_step (fst (run broker_step b1
      [Register (sample_device 2) ?r' 1, Register (sample_device 3) ?r' 2,
       TakeDelivery (sample_device 1) (replicate 16 5) 2, AbortMatch (replicate 16 6) 3]))
      (ConfirmMatch (replicate 16 5) 4)) = ConfirmReply (Ok ())"
    by (simp only: b3_def b2_def run_append_fst [symmetric] append.simps sample_registration_fields)
  with b0 b1 show ?thesis by simp
qed

end
