(* ===== verification/Spec2Isabelle.thy ===== *)
theory Spec2Isabelle
  imports Scheduler Control_Wire Replay Input Lifecycle Authorization Unattended Disconnect Authority
    Candidate_Wire Nat_Traversal Route_Transition Turn_Relay Rendezvous_Broker
begin

text \<open>
  LatencyDesk is a remote desktop in Rust: a host captures and encodes its screen and injects input, a
  client shows the stream and sends input, and both talk over mutually authenticated QUIC, directly
  or through a relay. This library models the deterministic core of it, the code that decides who is
  admitted, what is accepted from the wire and what is done with it, and proves that it keeps its
  promises. Sources are named relative to \<open>src/\<close>.

  \<^bold>\<open>How the parts interact.\<close> Two devices pair by a short authentication string
  (\<open>Sas_Pairing\<close>), which leaves a pinned identity and an accepted session. The host's access policy
  (\<open>Authorization\<close>, and \<open>Unattended\<close> for tokens) admits connections of pinned devices and grants
  capabilities. \<open>Authority\<close> is the gate in front of the media and input dispatch of an accepted
  session; it feeds decoded input (\<open>Input\<close>) to the reconciler that tracks what the platform has pressed.
  \<open>Lifecycle\<close> numbers sessions and schedules reconnects, \<open>Disconnect\<close> stops them. Packets are the
  formats of \<open>Media_Wire\<close>, \<open>Quic_Wire\<close> and \<open>Control_Wire\<close>, filtered by \<open>Replay\<close> and queued by
  \<open>Scheduler\<close>. Peers find each other with the formats of \<open>Candidate_Wire\<close>; \<open>Nat_Traversal\<close> chooses
  among direct pairs and the relay, and \<open>Route_Transition\<close> switches routes under a new epoch. The
  two servers are \<open>Rendezvous_Broker\<close>, which introduces registered peers to each other, and
  \<open>Turn_Relay\<close>, which forwards their datagrams and speaks the format of \<open>Turn_Wire\<close>.

  \<^bold>\<open>Conventions.\<close> A struct is a record, an enum a datatype, a method a function with the
  method's name that takes the state and, when it mutates, returns it with the result. A \<open>Result\<close> is
  a sum (\<open>Err\<close> is \<open>Inl\<close>, \<open>Ok\<close> is \<open>Inr\<close>), the \<open>?\<close> operator is \<open>and_then\<close>. Integers are
  words of their width: plain operators wrap, as in the release profile, and \<open>checked_\<close> and
  \<open>saturating_\<close> operations are those of \<open>Prelude\<close>. A fixed-size array is a byte list; the size is
  a \<open>wf_\<close> predicate where a theorem needs it. Clocks, random draws, hash functions and stores
  outside the sources are arguments. A history of calls is a list of commands run by a step function
  (\<open>Contracts\<close>), and a property about all histories quantifies over that list.

  \<^bold>\<open>Theories.\<close>
  \<^item> \<open>Prelude\<close>: words, byte strings, options and vectors. \<open>Contracts\<close>: histories and the
    interfaces as locales: \<open>machine_invariant\<close>, \<open>recorded_machine\<close> (a state explained by what
    happened before), \<open>fresh_issuer\<close>, \<open>once_only\<close>, \<open>wire_codec\<close>; every one is interpreted by the
    components below.
  \<^item> \<open>Scheduler\<close> (\<open>crates/scheduler\<close>): the bounded deadline queue. Caps hold, the most urgent live
    item is served, only less urgent items are evicted.
  \<^item> \<open>Wire_Error\<close>, \<open>Media_Wire\<close>, \<open>Quic_Wire\<close>, \<open>Control_Wire\<close> (\<open>crates/protocol\<close>): packet formats.
    Encoders and decoders agree exactly; decoded fragments lie in their frame.
  \<^item> \<open>Replay\<close> (\<open>crates/protocol\<close>): the sliding window refines the set of accepted numbers.
  \<^item> \<open>Input\<close> (\<open>crates/input\<close>): the input format and reconciler. What the platform holds is what the
    reconciler records, messages apply in order and at most once, a disconnect releases everything and
    retires its epoch for good.
  \<^item> \<open>Lifecycle\<close> (\<open>crates/session/src/lib.rs\<close>, \<open>lifecycle.rs\<close>): the session state machine, fresh
    stamps, bounded reconnect delays.
  \<^item> \<open>Authorization\<close> (\<open>crates/session/src/authorization.rs\<close>): pairing approval, admission, grants and
    revocation. Authorization holds only by a live grant, revocation is final, handles are fresh.
  \<^item> \<open>Unattended\<close>, \<open>Disconnect\<close> (\<open>unattended.rs\<close>, \<open>disconnect.rs\<close>): tokens and safe disconnect.
  \<^item> \<open>Sas_Pairing\<close> (\<open>pairing.rs\<close>): the pairing coordinator; a session is accepted only for a peer
    whose pin the store returned or after both sides confirmed the same code, with bounded attempts.
  \<^item> \<open>Authority\<close> (\<open>runtime.rs\<close>): the gate of an accepted session, proved once in the locale
    \<open>session_gate\<close>; closing it is final and hands over all releases.
  \<^item> \<open>Candidate_Wire\<close> (\<open>crates/protocol\<close>): candidates, exchanges, ICE credentials, rendezvous
    registrations, relay envelopes, priorities.
  \<^item> \<open>Nat_Traversal\<close> (\<open>nat.rs\<close>): gathering, pairing, selection, fallback, probing. Active paths
    had a successful check or are real relays; both peers rank alike; probing starves nobody.
  \<^item> \<open>Route_Transition\<close> (\<open>route_transition.rs\<close>): two-phase promotion and rollback. Only promoted
    routes are accepted, refused ones stay refused, an acknowledged promotion completes.
  \<^item> \<open>Hash_Map\<close>: the hash maps of the two servers as association lists with distinct keys.
  \<^item> \<open>Rendezvous_Broker\<close> (\<open>crates/rendezvous\<close>): matching of registered devices. Offers go
    only between devices that name each other, every registration is accounted for, and while there
    is room a reciprocal pair is matched and confirmed among any other traffic.
  \<^item> \<open>Turn_Wire\<close> (\<open>crates/turn-relay/src/wire.rs\<close>): TURN messages and their integrity. A signed
    message is accepted and decoded to itself; an accepted one carries the tag of its own contents.
  \<^item> \<open>Turn_Relay\<close> (\<open>crates/turn-relay/src/lib.rs\<close>): allocations, permissions, channels, quotas.
    Datagrams are relayed only as authenticated requests asked, a channel is never redirected
    during its lifetime and quarantine, the quotas hold after any history.

  \<^bold>\<open>Bounds and fuel.\<close> No function takes fuel. Loops that draw random values take the finite
  list of draws and return \<open>None\<close> when it runs out; that the first failed or nonzero draw ends them is
  the lemma \<open>generate_session_id_first\<close>. The
  attribute loops of \<open>Turn_Wire\<close> and the queue loops of \<open>Scheduler\<close> are total functions with a
  termination proof or structural recursion. Lengths and cursors are natural numbers: every byte
  string is bounded far below the range of \<open>usize\<close> before it is indexed.

  \<^bold>\<open>Not modelled.\<close> Sockets, threads, TLS, QUIC and timers (\<open>crates/socket-transport\<close>, the
  applications under \<open>apps\<close>): they are asynchronous calls into third-party libraries whose state is
  theirs. Capture, encoding, presentation and injection (\<open>crates/platform*\<close>, \<open>crates/h264\<close>,
  \<open>native\<close>): bindings to the operating system and to GPU interfaces. Zeroization of secrets and
  constant-time comparison: they change what an observer of memory or time sees, not a value.
  Formatting of errors and debug output. Test code and scripts.
\<close>

section \<open>Wire formats\<close>

text \<open>
  C37: the codecs of the data plane are exact. A media packet, a media datagram, a reliable stream
  record or an input envelope encodes to a byte string if and only if that byte string decodes to
  it (input events within their ranges): nothing else is accepted, and no two values share an
  encoding.
\<close>

theorem data_plane_codecs_exact:
  "(encode_media_packet (mp_header p) (mp_payload p) = Ok bs \<longleftrightarrow> decode_media_packet bs = Ok p)
   \<and> (encode_media_datagram (md_stamp d) (md_expires_at_ns d) (mp_header (md_packet d))
        (mp_payload (md_packet d)) = Ok bs \<longleftrightarrow> decode_media_datagram bs = Ok d)
   \<and> (encode_stream_record (sr_kind r) (sr_stamp r) (sr_payload r) = Ok bs
        \<longleftrightarrow> decode_stream_record bs = Ok r)
   \<and> (decode_envelope bs = Ok env \<longleftrightarrow> wf_event (im_event (de_message env))
        \<and> (if de_ack_requested env then encode_ack_requested (de_message env)
           else encode_input (de_message env)) = Ok bs)"
  using media_packet_codec_exact media_datagram_codec_exact stream_record_codec_exact input_codec_exact
  by blast

text \<open>
  C39: the codecs of the control plane are exact in the same sense: control packets, route transition
  messages (32-byte digests), recovery requests (a nonempty gap) and unattended tokens (fixed-size
  fields, expiry after issue). Disconnect messages round-trip up to the encoder's text limit of 256
  bytes; the decoder accepts longer texts too.
\<close>

theorem control_plane_codecs_exact:
  "(encode_control_packet (cp_header p) (cp_payload p) = Ok bs \<longleftrightarrow> decode_control_packet bs = Ok p)
   \<and> (decode_route_message bs = Ok m \<longleftrightarrow> wf_route_message m \<and> encode_route_message m = Ok bs)
   \<and> (decode_recovery_request bs = Ok r \<longleftrightarrow>
        rq_last_good_frame_id r < rq_first_missing_frame_id r \<and> encode_recovery_request r = bs)
   \<and> (decode_unattended_token bs = Ok w \<longleftrightarrow> wf_unattended_token w \<and> encode_unattended_token w = bs)
   \<and> (encode_disconnect u = Ok bs \<and> valid_utf8 (dw_message u)
        \<longleftrightarrow> decode_disconnect bs = Ok u \<and> length (dw_message u) \<le> 256)"
  using control_codecs_exact unattended_codec_exact disconnect_codec_roundtrip
  by blast

end
